(* ===== verification/FGPrelude.thy ===== *)
theory FGPrelude
  imports "HOL-Library.Word"
begin

text \<open>
  Shared vocabulary of the FreeGuard development.

  The machine types of the x86-64 build the code is written for: pointers,
  \<open>size_t\<close> and \<open>unsigned long\<close> are 64-bit words, \<open>unsigned\<close> and \<open>int\<close> are 32-bit
  words (\<open>int\<close> is read with \<open>sint\<close>), \<open>char\<close> is an 8-bit word.  A result that may
  end the process (\<open>exit\<close>, \<open>abort\<close>, a fault) is a value of \<open>fg_error + 'a\<close>.

  The generic lemmas translate masks, shifts, sums and products on words to
  \<open>mod\<close>, \<open>div\<close>, \<open>+\<close> and \<open>*\<close> on natural numbers, which is how every geometry
  proof of the development goes.
\<close>

unbundle bit_operations_syntax

section \<open>Machine types\<close>

type_synonym addr = "64 word"
type_synonym size_t = "64 word"
type_synonym u32 = "32 word"
type_synonym byte = "8 word"

named_theorems fg_simps \<open>unfolding rules of the code's small accessors\<close>
named_theorems word_nat \<open>reading word operations as natural-number operations\<close>

section \<open>Failures that end the process\<close>

datatype fg_error =
    Invalid_object addr          \<comment> \<open>\<open>getShadowObjectInfo\<close>: misaligned address, \<open>exit(EXIT_FAILURE)\<close>\<close>
  | Double_free addr             \<comment> \<open>\<open>freeSmallObject\<close>: \<open>exit(EXIT_FAILURE)\<close>\<close>
  | Canary_broken addr           \<comment> \<open>\<open>FATAL\<close>: the canary of the freed object, \<open>exit(-1)\<close>\<close>
  | Neighbor_canary_broken addr  \<comment> \<open>\<open>FATAL\<close>: the canary of a neighbour, \<open>exit(-1)\<close>\<close>
  | Mmap_failed                  \<comment> \<open>\<open>MM::allocate\<close>: \<open>exit(-1)\<close>\<close>
  | Invalid_big_free addr        \<comment> \<open>\<open>deallocateToBigHeap\<close>: \<open>exit(-1)\<close>\<close>
  | Assert_failed                \<comment> \<open>\<open>assert\<close> in a build without \<open>NDEBUG\<close>\<close>
  | Thread_create_failed         \<comment> \<open>\<open>FATAL\<close> in \<open>thread_create\<close>, \<open>exit(-1)\<close>\<close>
  | Aborted                      \<comment> \<open>\<open>abort()\<close>\<close>
  | Stack_area_failed            \<comment> \<open>\<open>FATAL\<close> in \<open>freeguard_libc_start_main\<close>\<close>
  | Division_by_zero             \<comment> \<open>the trap of an integer division\<close>
  | Killed                       \<comment> \<open>\<open>raise (SIGKILL)\<close> in \<open>_getentropy_fail\<close>\<close>
  | Waits_forever                \<comment> \<open>a busy wait that nothing ends\<close>
  | Fault addr                   \<comment> \<open>an access that the hardware refuses\<close>

definition bindE :: "'e + 'a \<Rightarrow> ('a \<Rightarrow> 'e + 'b) \<Rightarrow> 'e + 'b" where
  "bindE m f = (case m of Inl e \<Rightarrow> Inl e | Inr x \<Rightarrow> f x)"

lemma bindE_simps [simp]:
  "bindE (Inl e) f = Inl e"
  "bindE (Inr x) f = f x"
  by (simp_all add: bindE_def)

lemma bindE_Inr_iff: "bindE m f = Inr y \<longleftrightarrow> (\<exists>x. m = Inr x \<and> f x = Inr y)"
  by (cases m) auto

section \<open>Bit lengths\<close>

text \<open>\<open>__builtin_clz\<close> and \<open>__builtin_clzll\<close> count the leading zero bits of a word; at 0
  the compiler leaves them undefined, and the code never calls them there.\<close>

fun bit_len :: "nat \<Rightarrow> nat" where
  "bit_len n = (if n = 0 then 0 else Suc (bit_len (n div 2)))"

declare bit_len.simps [simp del]

definition builtin_clz :: "'a::len word \<Rightarrow> nat" where
  "builtin_clz w = LENGTH('a) - bit_len (unat w)"

lemma bit_len_0 [simp]: "bit_len 0 = 0"
  by (simp add: bit_len.simps)

lemma bit_len_pos: "0 < n \<Longrightarrow> bit_len n = Suc (bit_len (n div 2))"
  by (simp add: bit_len.simps [of n])

lemma bit_len_upper: "n < 2 ^ bit_len n"
proof (induction n rule: bit_len.induct)
  case (1 n)
  show ?case
  proof (cases "n = 0")
    case False
    with 1 have "n div 2 < 2 ^ bit_len (n div 2)" by simp
    then have "n < 2 * 2 ^ bit_len (n div 2)" by linarith
    with False show ?thesis by (simp add: bit_len_pos)
  qed simp
qed

lemma bit_len_lower: "0 < n \<Longrightarrow> 2 ^ (bit_len n - 1) \<le> n"
proof (induction n rule: bit_len.induct)
  case (1 n)
  show ?case
  proof (cases "n div 2 = 0")
    case True
    with 1 show ?thesis by (simp add: bit_len_pos)
  next
    case False
    with 1 have "2 ^ (bit_len (n div 2) - 1) \<le> n div 2" by simp
    moreover have "bit_len (n div 2) = Suc (bit_len (n div 2) - 1)"
      using False by (simp add: bit_len_pos)
    ultimately have "2 ^ bit_len (n div 2) \<le> n"
      by (metis (no_types, lifting) mult_le_mono2 power_Suc div_times_less_eq_dividend
          le_trans mult.commute)
    with 1 show ?thesis by (simp add: bit_len_pos)
  qed
qed

lemma bit_len_unique:
  assumes "2 ^ k \<le> n" and "n < 2 ^ Suc k"
  shows "bit_len n = Suc k"
proof -
  from assms have n: "0 < n" by (cases n) auto
  have "2 ^ k < (2::nat) ^ bit_len n" using assms(1) bit_len_upper [of n] by (rule le_less_trans)
  moreover have "(2::nat) ^ (bit_len n - 1) < 2 ^ Suc k"
    using assms bit_len_lower [OF n] by simp
  ultimately have "k < bit_len n" and "bit_len n - 1 < Suc k"
    by (simp_all only: power_strict_increasing_iff one_less_numeral_iff semiring_norm)
  then show ?thesis by simp
qed

lemma bit_len_power: "bit_len (2 ^ k) = Suc k"
  by (rule bit_len_unique) simp_all

lemma bit_len_le_iff: "bit_len n \<le> k \<longleftrightarrow> n < 2 ^ k"
proof (cases "n = 0")
  case False
  then have "2 ^ (bit_len n - 1) \<le> n" using bit_len_lower [of n] by simp
  moreover have "0 < bit_len n" using False by (simp add: bit_len_pos)
  ultimately show ?thesis
  proof -
    assume lo: "2 ^ (bit_len n - 1) \<le> n" and pos: "0 < bit_len n"
    show ?thesis
    proof
      assume "bit_len n \<le> k"
      then have "(2::nat) ^ bit_len n \<le> 2 ^ k" by simp
      then show "n < 2 ^ k" using bit_len_upper [of n] by (rule order.strict_trans2 [rotated])
    next
      assume "n < 2 ^ k"
      with lo have "(2::nat) ^ (bit_len n - 1) < 2 ^ k" by (rule le_less_trans)
      then have "bit_len n - 1 < k" by (simp only: power_strict_increasing_iff one_less_numeral_iff semiring_norm)
      with pos show "bit_len n \<le> k" by simp
    qed
  qed
qed simp

section \<open>Words read as natural numbers\<close>

lemma unat_and_mask [word_nat]: "unat (x AND mask n) = unat x mod 2 ^ n"
  for x :: "'a::len word"
proof -
  have "unat (take_bit n x) = take_bit n (unat x)" by (rule unsigned_take_bit_eq)
  also have "\<dots> = unat x mod 2 ^ n" by (rule take_bit_eq_mod)
  finally show ?thesis by (simp only: take_bit_eq_mask)
qed

lemma exp_minus_1_mask: "(2 ^ n - 1 :: 'a::len word) = mask n"
  by (simp add: mask_eq_exp_minus_1)

lemma unat_drop_bit [word_nat]: "unat (drop_bit n x) = unat x div 2 ^ n"
  for x :: "'a::len word"
proof -
  have "unat (drop_bit n x) = drop_bit n (take_bit LENGTH('a) (unat x))"
    by (rule unsigned_drop_bit_eq)
  moreover have "take_bit LENGTH('a) (unat x) = unat x"
    by (rule take_bit_nat_eq_self) (rule unsigned_less)
  ultimately show ?thesis by (simp only: drop_bit_eq_div)
qed

lemma unat_push_bit:
  fixes x :: "'a::len word"
  assumes "unat x * 2 ^ n < 2 ^ LENGTH('a)"
  shows "unat (push_bit n x) = unat x * 2 ^ n"
proof -
  have "push_bit n x = of_nat (unat x * 2 ^ n)"
    by (simp add: push_bit_eq_mult)
  then show ?thesis using assms by (simp only: unat_of_nat mod_less)
qed

lemma unat_of_nat_less: "n < 2 ^ LENGTH('a) \<Longrightarrow> unat (of_nat n :: 'a::len word) = n"
  by (simp add: unat_of_nat)

lemma unat_exp: "k < LENGTH('a) \<Longrightarrow> unat (2 ^ k :: 'a::len word) = 2 ^ k"
  using unat_of_nat_less [of "2 ^ k", where ?'a = 'a] by simp

lemma unat_exp_minus_1: "k < LENGTH('a) \<Longrightarrow> unat (2 ^ k - 1 :: 'a::len word) = 2 ^ k - 1"
proof -
  assume k: "k < LENGTH('a)"
  then have "(2::nat) ^ k < 2 ^ LENGTH('a)" by simp
  then have "unat (of_nat (2 ^ k - 1) :: 'a word) = 2 ^ k - 1"
    by (intro unat_of_nat_less) linarith
  moreover have "(of_nat (2 ^ k - 1) :: 'a word) = 2 ^ k - 1"
    by (simp add: of_nat_diff)
  ultimately show ?thesis by simp
qed

lemma unat_add_less:
  "unat x + unat y < 2 ^ LENGTH('a) \<Longrightarrow> unat (x + y) = unat x + unat y"
  for x y :: "'a::len word"
  by (simp add: unat_word_ariths)

lemma unat_add_wrap:
  "2 ^ LENGTH('a) \<le> unat x + unat y \<Longrightarrow> unat (x + y) = unat x + unat y - 2 ^ LENGTH('a)"
  for x y :: "'a::len word"
proof -
  assume le: "2 ^ LENGTH('a) \<le> unat x + unat y"
  have "unat x < 2 ^ LENGTH('a)" "unat y < 2 ^ LENGTH('a)" by (rule unsigned_less)+
  then have "unat x + unat y - 2 ^ LENGTH('a) < 2 ^ LENGTH('a)" by linarith
  with le show ?thesis by (simp add: unat_word_ariths mod_if le_mod_geq)
qed

lemma unat_lt64: "unat (x :: 64 word) < 2 ^ 64"
  using unsigned_less [of x, where ?'a = nat] by simp

lemma of_nat_diff_add [simp]: "(b + of_nat n) - b = (of_nat n :: 'a::len word)"
  by simp

lemma word_eq_of_nat: "unat x = n \<Longrightarrow> x = (of_nat n :: 'a::len word)"
  by auto

lemma sint_of_nat_less:
  "n < 2 ^ (LENGTH('a) - 1) \<Longrightarrow> sint (of_nat n :: 'a::len word) = int n"
  by (simp add: signed_of_nat signed_take_bit_int_eq_self_iff order_trans [OF _ of_nat_0_le_iff])

lemma ucast_of_nat_less:
  "n < 2 ^ LENGTH('a) \<Longrightarrow> ucast (of_nat n :: 'a::len word) = (of_nat n :: 'b::len word)"
  by (simp add: unsigned_of_nat take_bit_nat_eq_self)

lemma of_nat_eq_word_iff:
  "a < 2 ^ LENGTH('a) \<Longrightarrow> b < 2 ^ LENGTH('a) \<Longrightarrow>
    (of_nat a :: 'a::len word) = of_nat b \<longleftrightarrow> a = b"
  by (metis unat_of_nat_less)

lemma of_nat_less_word_iff:
  "a < 2 ^ LENGTH('a) \<Longrightarrow> b < 2 ^ LENGTH('a) \<Longrightarrow>
    (of_nat a :: 'a::len word) < of_nat b \<longleftrightarrow> a < b"
  by (simp add: word_less_nat_alt unat_of_nat_less)

lemma of_nat_le_word_iff:
  "a < 2 ^ LENGTH('a) \<Longrightarrow> b < 2 ^ LENGTH('a) \<Longrightarrow>
    (of_nat a :: 'a::len word) \<le> of_nat b \<longleftrightarrow> a \<le> b"
  by (simp add: word_le_nat_alt unat_of_nat_less)

lemma of_nat_div_word:
  "a < 2 ^ LENGTH('a) \<Longrightarrow> b < 2 ^ LENGTH('a) \<Longrightarrow>
    (of_nat a :: 'a::len word) div of_nat b = of_nat (a div b)"
  by (simp add: word_arith_nat_div unat_of_nat_less)

lemma of_nat_mod_word:
  "a < 2 ^ LENGTH('a) \<Longrightarrow> b < 2 ^ LENGTH('a) \<Longrightarrow>
    (of_nat a :: 'a::len word) mod of_nat b = of_nat (a mod b)"
  by (simp add: word_arith_nat_mod unat_of_nat_less)

lemma drop_bit_of_nat_word:
  "a < 2 ^ LENGTH('a) \<Longrightarrow> drop_bit n (of_nat a :: 'a::len word) = of_nat (a div 2 ^ n)"
  by (rule word_eq_of_nat) (simp only: unat_drop_bit unat_of_nat_less)

lemma and_mask_of_nat_word:
  "a < 2 ^ LENGTH('a) \<Longrightarrow> (of_nat a :: 'a::len word) AND mask n = of_nat (a mod 2 ^ n)"
  by (rule word_eq_of_nat) (simp only: unat_and_mask unat_of_nat_less)

lemma push_bit_of_nat_word: "push_bit n (of_nat a :: 'a::len word) = of_nat (a * 2 ^ n)"
  by (simp add: push_bit_eq_mult)

text \<open>Offsets of 64-bit addresses.\<close>

lemma offset_eqD: "a + of_nat x = a + of_nat y \<Longrightarrow> x < 2 ^ 64 \<Longrightarrow> y < 2 ^ 64 \<Longrightarrow> x = y"
  for a :: "64 word"
  using of_nat_eq_word_iff [of x y, where ?'a = 64] by simp

lemma offset_lessI: "x < y \<Longrightarrow> y < 2 ^ 64 \<Longrightarrow> (of_nat x :: 64 word) < of_nat y"
  by (subst of_nat_less_word_iff) simp_all

lemma offset_add: "x + y = z \<Longrightarrow> a + of_nat x + of_nat y = a + of_nat z"
  for a :: "64 word"
  by (simp add: add.assoc flip: of_nat_add)

text \<open>Intervals of addresses as intervals of offsets.\<close>

lemma word_interval:
  fixes a :: addr
  assumes "X < 2 ^ 48" "P < 2 ^ 48" "len < 2 ^ 48"
  shows "(a + of_nat X) - (a + of_nat P) < of_nat len \<longleftrightarrow> P \<le> X \<and> X < P + len"
proof (cases "P \<le> X")
  case True
  then have "(a + of_nat X) - (a + of_nat P) = of_nat (X - P)" by (simp add: of_nat_diff)
  moreover have "(of_nat (X - P) :: size_t) < of_nat len \<longleftrightarrow> X - P < len"
    using assms by (intro of_nat_less_word_iff) simp_all
  ultimately show ?thesis using True by auto
next
  case False
  let ?d = "X + (2 ^ 64 - P)"
  have "(of_nat (?d + P) :: size_t) = of_nat (X + 2 ^ 64)" using assms by (intro arg_cong [where f = of_nat]) simp
  then have "(of_nat ?d :: size_t) + of_nat P = of_nat X" by simp
  then have "(of_nat X :: size_t) - of_nat P = of_nat ?d" by (simp only: diff_eq_eq)
  then have d1: "(a + of_nat X) - (a + of_nat P) = of_nat ?d" by (simp only: add_diff_cancel_left)
  have d2: "(of_nat ?d :: size_t) < of_nat len \<longleftrightarrow> ?d < len"
    using assms False by (intro of_nat_less_word_iff) simp_all
  show ?thesis unfolding d1 d2 using assms False by simp
qed

text \<open>Positional notation: the quotient and the remainder of a number written with
  a digit below the base.\<close>

lemma digit_div: "r < m \<Longrightarrow> (q * m + r) div m = q" for m :: nat
  by (simp add: div_mult_self3)

lemma digit_mod: "r < m \<Longrightarrow> (q * m + r) mod m = r" for m :: nat
  by simp

lemma digit_less: "q < n \<Longrightarrow> r < m \<Longrightarrow> q * m + r < n * m" for m :: nat
proof -
  assume "q < n" and "r < m"
  then have "q * m + r < Suc q * m" and "Suc q * m \<le> n * m"
    by (simp, intro mult_le_mono1, simp)
  then show ?thesis by (rule less_le_trans)
qed

lemma signed_drop_bit_nonneg:
  fixes x :: "'a::len word"
  assumes "unat x < 2 ^ (LENGTH('a) - 1)"
  shows "signed_drop_bit n x = drop_bit n x"
proof (rule bit_word_eqI)
  fix i assume i: "i < LENGTH('a)"
  have "\<not> bit (unat x) (LENGTH('a) - 1)"
    using assms by (simp only: bit_iff_odd div_less even_zero not_not)
  then have top: "\<not> bit x (LENGTH('a) - 1)"
    by (simp add: bit_unsigned_iff)
  show "bit (signed_drop_bit n x) i \<longleftrightarrow> bit (drop_bit n x) i"
  proof (cases "LENGTH('a) - n \<le> i")
    case True
    then have "LENGTH('a) \<le> n + i" by simp
    with i True top show ?thesis
      by (auto simp: bit_signed_drop_bit_iff bit_drop_bit_eq dest: bit_imp_le_length)
  qed (simp add: bit_signed_drop_bit_iff bit_drop_bit_eq)
qed

end
