(* ===== verification/XDefines.thy ===== *)
theory XDefines
  imports FGPrelude
begin

text \<open>
  \<open>xdefines.hh\<close> and the flags of the \<open>Makefile\<close>: the compile-time configuration as a
  record \<open>build\<close>, the constants that depend on it, the \<open>LOG2\<close> macro, the alignment
  helpers, and the thread index that a build with \<open>CUSTOMIZED_STACK\<close> computes from a
  stack address.

  Lemmas: \<open>LOG2\<close> of a power of two, the closed form of the alignment helpers (and
  the wrap-around of \<open>alignup\<close>), and the range of the thread index.
\<close>

section \<open>The build configuration\<close>

text \<open>Each boolean is a \<open>-D\<close> flag.  \<open>DETECT_UAF_BO\<close> stands for \<open>defined(DETECT_UAF) ||
  defined(DETECT_BO)\<close>, the condition the two occur in (\<open>DETECT_UAF\<close> alone also adds a member to
  \<open>bigObjectStatus\<close> that no code uses; the model is of the builds without it).  \<open>BIBOP_BAG_SIZE\<close> is
  \<open>None\<close> when the macro is not defined, as in the code's default.\<close>

record build =
  MANYBAGS :: bool
  USE_CANARY :: bool
  ENABLE_GUARDPAGE :: bool
  RANDOM_GUARD :: bool
  FIFO_FREELIST :: bool
  CFREELIST :: bool
  DESTROY_ON_FREE :: bool
  SSE2RNG :: bool
  CUSTOMIZED_STACK :: bool
  CUSTOMIZED_MAIN_STACK :: bool
  DETECT_UAF_BO :: bool
  NDEBUG :: bool
  BIBOP_BAG_SIZE :: "size_t option"

text \<open>The library as the \<open>Makefile\<close> builds it with no extra argument.\<close>

definition default_build :: build where
  "default_build =
    \<lparr> MANYBAGS = True, USE_CANARY = True, ENABLE_GUARDPAGE = True, RANDOM_GUARD = True,
      FIFO_FREELIST = True, CFREELIST = False, DESTROY_ON_FREE = False, SSE2RNG = True,
      CUSTOMIZED_STACK = True, CUSTOMIZED_MAIN_STACK = False, DETECT_UAF_BO = False,
      NDEBUG = True, BIBOP_BAG_SIZE = None \<rparr>"

definition MAX_ALIVE_THREADS :: nat where "MAX_ALIVE_THREADS = 128"
definition BIBOP_NUM_HEAPS :: nat where "BIBOP_NUM_HEAPS = 1024"
definition BIBOP_BAG_SET_SIZE :: nat where "BIBOP_BAG_SET_SIZE = 4"
definition BIBOP_BAG_SET_WEIGHT :: nat where "BIBOP_BAG_SET_WEIGHT = 8"
definition BIBOP_BAG_SET_RANDOMIZER_MASK :: nat where
  "BIBOP_BAG_SET_RANDOMIZER_MASK = BIBOP_BAG_SET_SIZE * BIBOP_BAG_SET_WEIGHT - 1"
definition BIBOP_BAG_SET_MASK :: nat where "BIBOP_BAG_SET_MASK = BIBOP_BAG_SET_SIZE - 1"
definition CACHEDFREELIST_THRESHOLD_RATIO_BYBAG :: nat where
  "CACHEDFREELIST_THRESHOLD_RATIO_BYBAG = 10"
definition PAGESIZE :: nat where "PAGESIZE = 0x1000"
definition TWO_KILOBYTES :: nat where "TWO_KILOBYTES = 2048"

text \<open>\<open>BIBOP_NUM_BAGS\<close> to \<open>LARGE_OBJECT_THRESHOLD\<close>, the \<open>#ifdef MANYBAGS\<close> block.\<close>

definition MIN_RANDOM_BAG_SIZE :: nat where "MIN_RANDOM_BAG_SIZE = 0x400000"
definition MAX_RANDOM_BAG_SIZE :: nat where "MAX_RANDOM_BAG_SIZE = 0x1000000"
definition BIBOP_MIN_BLOCK_SIZE :: nat where "BIBOP_MIN_BLOCK_SIZE = 16"
definition BIBOP_NUM_BAGS :: "build \<Rightarrow> nat" where
  "BIBOP_NUM_BAGS c = (if MANYBAGS c then 32 else 16)"
definition LARGE_OBJECT_THRESHOLD :: "build \<Rightarrow> nat" where
  "LARGE_OBJECT_THRESHOLD c = (if MANYBAGS c then MIN_RANDOM_BAG_SIZE else 0x80000)"

text \<open>\<open>CANARY_SENTINEL\<close> and \<open>IF_CANARY_CONDITION\<close>: the test for a large object.\<close>

definition CANARY_SENTINEL :: byte where "CANARY_SENTINEL = 0x7B"
definition NUM_MORE_CANARIES_TO_CHECK :: nat where "NUM_MORE_CANARIES_TO_CHECK = 2"
definition IF_CANARY_CONDITION :: "build \<Rightarrow> size_t \<Rightarrow> bool" where
  "IF_CANARY_CONDITION c sz =
    (if USE_CANARY c then sz + 1 > of_nat (LARGE_OBJECT_THRESHOLD c)
     else sz > of_nat (LARGE_OBJECT_THRESHOLD c))"

definition ALLOC_SENTINEL :: addr where "ALLOC_SENTINEL = 1"

text \<open>\<open>BIBOP_NUM_SUBHEAPS\<close>, \<open>BIBOP_SUBHEAP_SIZE\<close> and \<open>BIBOP_HEAP_SIZE\<close> read the
  run-time bag size.\<close>

definition BIBOP_NUM_SUBHEAPS :: nat where "BIBOP_NUM_SUBHEAPS = MAX_ALIVE_THREADS"
definition BIBOP_SUBHEAP_SIZE :: "build \<Rightarrow> size_t \<Rightarrow> size_t" where
  "BIBOP_SUBHEAP_SIZE c bagSize = of_nat (BIBOP_NUM_BAGS c) * bagSize"
definition BIBOP_HEAP_SIZE :: "build \<Rightarrow> size_t \<Rightarrow> size_t" where
  "BIBOP_HEAP_SIZE c bagSize = BIBOP_SUBHEAP_SIZE c bagSize * of_nat BIBOP_NUM_SUBHEAPS"

definition PageSize :: size_t where "PageSize = 4096"
definition PageMask :: size_t where "PageMask = PageSize - 1"
definition THREAD_MAP_SIZE :: nat where "THREAD_MAP_SIZE = 1280"

text \<open>\<open>RNG_MAX\<close> and \<open>getRandomNumber() < RANDOM_GUARD_RAND_CUTOFF\<close>: the right side is
  the floating-point \<open>0.1 * RNG_MAX\<close>, so an integer is below it exactly when ten times
  it is below \<open>RNG_MAX\<close>.  (glibc's \<open>RAND_MAX\<close> is \<open>2^31 - 1\<close>; neither product is an
  integer, so the rounding of 0.1 does not matter.)\<close>

definition RNG_MAX :: "build \<Rightarrow> int" where
  "RNG_MAX c = (if SSE2RNG c then 0x8000 else 2147483647)"
definition below_RANDOM_GUARD_RAND_CUTOFF :: "build \<Rightarrow> u32 \<Rightarrow> bool" where
  "below_RANDOM_GUARD_RAND_CUTOFF c r = (10 * sint r < RNG_MAX c)"

text \<open>\<open>shadowObjectInfo\<close> is one pointer, followed by three call sites when a detector
  is compiled in (\<open>CALLSTACK_DEPTH\<close>).\<close>

definition sizeof_shadowObjectInfo :: "build \<Rightarrow> nat" where
  "sizeof_shadowObjectInfo c = (if DETECT_UAF_BO c then 8 + 3 * 8 else 8)"

datatype direction = LEFT | RIGHT

section \<open>LOG2 and alignment\<close>

definition LOG2 :: "size_t \<Rightarrow> nat" where
  "LOG2 x = 8 * 8 - builtin_clz x - 1"

definition alignup :: "size_t \<Rightarrow> size_t \<Rightarrow> size_t" where
  "alignup sz alignto =
    (if sz mod alignto = 0 then sz else (sz + (alignto - 1)) AND NOT (alignto - 1))"

definition alignupPointer :: "addr \<Rightarrow> size_t \<Rightarrow> addr" where
  "alignupPointer ptr alignto =
    (if ptr mod alignto = 0 then ptr else (ptr + (alignto - 1)) AND NOT (alignto - 1))"

definition aligndown :: "size_t \<Rightarrow> size_t \<Rightarrow> size_t" where
  "aligndown a alignto = a AND NOT (alignto - 1)"

lemma LOG2_power:
  assumes "k < 64"
  shows "LOG2 (2 ^ k) = k"
proof -
  have "unat (2 ^ k :: 64 word) = 2 ^ k" using assms by (intro unat_exp) simp
  then show ?thesis using assms by (simp add: LOG2_def builtin_clz_def bit_len_power)
qed

lemma LOG2_of_nat_power: "k < 64 \<Longrightarrow> LOG2 (of_nat (2 ^ k)) = k"
  using LOG2_power by simp

text \<open>Clearing the low bits rounds down to a multiple.\<close>

lemma unat_and_not_mask:
  "unat (x AND NOT (mask k)) = unat x div 2 ^ k * 2 ^ k"
  for x :: "'a::len word"
proof -
  have eq: "x AND NOT (mask k) = push_bit k (drop_bit k x)"
    by (rule bit_word_eqI) (auto simp: bit_simps)
  have "unat (drop_bit k x) * 2 ^ k < 2 ^ LENGTH('a)"
    by (simp only: unat_drop_bit) (metis div_times_less_eq_dividend le_less_trans unsigned_less)
  then show ?thesis by (simp only: eq unat_push_bit unat_drop_bit)
qed

lemma unat_mod_exp:
  fixes x :: "'a::len word"
  assumes "k < LENGTH('a)"
  shows "unat (x mod 2 ^ k) = unat x mod 2 ^ k"
  using assms by (simp only: unat_mod unat_exp)

lemma aligndown_exp:
  assumes "k < 64"
  shows "unat (aligndown a (2 ^ k)) = unat a div 2 ^ k * 2 ^ k"
  unfolding aligndown_def exp_minus_1_mask by (rule unat_and_not_mask)

text \<open>\<open>alignup\<close> for a power of two: the least multiple that is not smaller, when that
  multiple is representable; otherwise the sum wraps and the result is 0.\<close>

lemma alignup_exp:
  assumes k: "k < 64" and fits: "unat sz + 2 ^ k \<le> 2 ^ 64"
  shows "unat (alignup sz (2 ^ k)) = (unat sz + 2 ^ k - 1) div 2 ^ k * 2 ^ k"
proof (cases "sz mod 2 ^ k = 0")
  case True
  then have "unat sz mod 2 ^ k = 0"
    using unat_mod_exp [of k sz] k by simp
  then obtain q where q: "unat sz = q * 2 ^ k"
    by (metis dvd_eq_mod_eq_0 dvd_def mult.commute)
  have "0 < e \<Longrightarrow> (q * e + e - 1) div e = q" for e :: nat
    by (rule div_nat_eqI) (simp_all add: algebra_simps)
  from this [of "2 ^ k"] have "(q * 2 ^ k + 2 ^ k - 1) div 2 ^ k = q" by simp
  then show ?thesis using True q by (simp add: alignup_def)
next
  case False
  have "unat (2 ^ k - 1 :: size_t) = 2 ^ k - 1"
    using k by (intro unat_exp_minus_1) simp
  then have "unat (sz + (2 ^ k - 1)) = unat sz + (2 ^ k - 1)"
    using fits by (subst unat_add_less) auto
  then show ?thesis
    using False unat_and_not_mask [of "sz + (2 ^ k - 1)" k]
    by (simp add: alignup_def exp_minus_1_mask)
qed

lemma alignup_wraps:
  assumes k: "k < 64" and big: "2 ^ 64 < unat sz + 2 ^ k" 
  shows "alignup sz (2 ^ k) = 0"
proof -
  let ?s = "unat sz" and ?e = "2 ^ k :: nat"
  have lt: "?s < 2 ^ 64" using unsigned_less [of sz] by simp
  have one: "unat (2 ^ k - 1 :: size_t) = ?e - 1"
    using k by (intro unat_exp_minus_1) simp
  have "unat (sz + (2 ^ k - 1)) = ?s + (?e - 1) - 2 ^ 64"
    using big one by (subst unat_add_wrap) auto
  moreover have "0 < ?e" by simp
  ultimately have "unat (sz + (2 ^ k - 1)) < ?e"
    using lt by linarith
  then have "unat ((sz + (2 ^ k - 1)) AND NOT (mask k)) = 0"
    unfolding unat_and_not_mask by simp
  moreover have "sz mod 2 ^ k \<noteq> 0"
  proof
    assume "sz mod 2 ^ k = 0"
    then have "?s mod ?e = 0" using unat_mod_exp [of k sz] k by simp
    moreover have "(2::nat) ^ 64 mod ?e = 0" 
      using le_imp_power_dvd [of k 64 "2::nat"] k by (simp only: dvd_eq_mod_eq_0)
    ultimately have "(2 ^ 64 - ?s) mod ?e = 0"
      by (metis dvd_diff_nat dvd_eq_mod_eq_0)
    moreover have "0 < 2 ^ 64 - ?s" and "2 ^ 64 - ?s < ?e" using lt big by simp_all
    ultimately show False by simp
  qed
  ultimately show ?thesis
    by (simp add: alignup_def exp_minus_1_mask unat_eq_zero)
qed

section \<open>The thread index of a customized stack\<close>

text \<open>\<open>getThreadIndex(void *)\<close>: the distance from the base of the stack area, shifted
  by \<open>STACK_SIZE_BIT\<close> as a signed number and truncated to \<open>int\<close>.  The result is an
  index into \<open>_threadBag\<close>.\<close>

definition STACK_SIZE :: nat where "STACK_SIZE = 0x800000"
definition STACK_SIZE_BIT :: nat where "STACK_SIZE_BIT = 23"
definition MAX_THREADS :: nat where "MAX_THREADS = MAX_ALIVE_THREADS"

definition getThreadIndex :: "build \<Rightarrow> addr \<Rightarrow> addr \<Rightarrow> fg_error + int" where
  "getThreadIndex c globalStackAddr stackVar =
    (let index = sint (ucast (signed_drop_bit STACK_SIZE_BIT (stackVar - globalStackAddr)) :: u32)
     in if CUSTOMIZED_MAIN_STACK c then
          (if \<not> NDEBUG c \<and> \<not> (0 \<le> index \<and> index < int MAX_THREADS) then Inl Assert_failed
           else Inr index)
        else if index \<ge> int MAX_THREADS \<or> index \<le> 0 then Inr 0
        else Inr index)"

lemma getThreadIndex_less:
  assumes "\<not> CUSTOMIZED_MAIN_STACK c"
  shows "\<exists>i < MAX_ALIVE_THREADS. getThreadIndex c base v = Inr (int i)"
proof -
  define index where "index = sint (ucast (signed_drop_bit STACK_SIZE_BIT (v - base)) :: u32)"
  have r: "getThreadIndex c base v = (if index \<ge> int MAX_THREADS \<or> index \<le> 0 then Inr 0 else Inr index)"
    using assms by (simp add: getThreadIndex_def index_def Let_def)
  show ?thesis
  proof (cases "index \<ge> int MAX_THREADS \<or> index \<le> 0")
    case True
    then show ?thesis using r by (intro exI [of _ 0]) (simp add: MAX_ALIVE_THREADS_def)
  next
    case False
    then show ?thesis using r by (intro exI [of _ "nat index"]) (auto simp: MAX_THREADS_def)
  qed
qed

lemma getThreadIndex_slot:
  assumes i: "i < MAX_THREADS" and d: "d < STACK_SIZE"
  shows "getThreadIndex c base (base + of_nat (i * STACK_SIZE + d)) = Inr (int i)"
proof -
  let ?x = "of_nat (i * STACK_SIZE + d) :: addr"
  have small: "i * STACK_SIZE + d < 2 ^ 30"
    using i d by (simp add: MAX_THREADS_def MAX_ALIVE_THREADS_def STACK_SIZE_def)
  then have x: "unat ?x = i * STACK_SIZE + d"
    by (intro unat_of_nat_less) simp
  have "signed_drop_bit STACK_SIZE_BIT ?x = drop_bit STACK_SIZE_BIT ?x"
    by (rule signed_drop_bit_nonneg) (use x small in simp)
  moreover have "unat (drop_bit STACK_SIZE_BIT ?x) = i"
    using d unfolding unat_drop_bit x by (simp add: STACK_SIZE_def STACK_SIZE_BIT_def)
  ultimately have "signed_drop_bit STACK_SIZE_BIT ?x = of_nat i"
    by (simp only: word_eq_of_nat)
  moreover have "sint (ucast (of_nat i :: addr) :: u32) = int i"
    using i by (simp add: MAX_THREADS_def MAX_ALIVE_THREADS_def ucast_of_nat_less sint_of_nat_less)
  ultimately show ?thesis
    using i by (auto simp: getThreadIndex_def Let_def MAX_THREADS_def MAX_ALIVE_THREADS_def)
qed

end
