(* ===== verification/MM.thy ===== *)
theory MM
  imports XDefines
begin

text \<open>
  The calls that leave the program, and \<open>mm.hh\<close>.

  What the kernel, the C library's own allocator and the thread library answer is not
  part of the repository.  It is one parameter of the model, of type \<open>env\<close>: a function
  from the trace of the external calls made so far, the current one first, to the word
  that the current one returns.  Nothing is assumed about it here; a theorem that needs
  the documented behaviour of a call states it as a hypothesis about \<open>env\<close>.
\<close>

datatype ext_call =
    Mmap addr size_t u32 u32 u32    \<comment> \<open>start, length, protection, flags, descriptor\<close>
  | Munmap addr size_t
  | Mprotect addr size_t             \<comment> \<open>with \<open>PROT_NONE\<close>, the only protection the code sets\<close>
  | Madvise addr size_t
  | Real_malloc size_t
  | Real_free addr
  | Real_pthread_create addr size_t nat  \<comment> \<open>stack, its size, index of the \<open>thread_t\<close> passed to \<open>startThread\<close>\<close>
  | Created_pthread_t                \<comment> \<open>reads the \<open>*tid\<close> that \<open>pthread_create\<close> has stored\<close>
  | Real_pthread_join addr
  | Sys_gettid
  | Sys_time
  | Pthread_self

type_synonym trace = "ext_call list"
type_synonym env = "trace \<Rightarrow> 64 word"

definition ext :: "env \<Rightarrow> ext_call \<Rightarrow> trace \<Rightarrow> 64 word \<times> trace" where
  "ext env e tr = (env (e # tr), e # tr)"

section \<open>Memory mapping\<close>

definition PROT_READ :: u32 where "PROT_READ = 1"
definition PROT_WRITE :: u32 where "PROT_WRITE = 2"
definition MAP_SHARED :: u32 where "MAP_SHARED = 1"
definition MAP_PRIVATE :: u32 where "MAP_PRIVATE = 2"
definition MAP_FIXED :: u32 where "MAP_FIXED = 0x10"
definition MAP_ANONYMOUS :: u32 where "MAP_ANONYMOUS = 0x20"
definition MAP_NORESERVE :: u32 where "MAP_NORESERVE = 0x4000"
definition MAP_FAILED :: addr where "MAP_FAILED = - 1"

definition MM_allocate :: "env \<Rightarrow> bool \<Rightarrow> size_t \<Rightarrow> u32 \<Rightarrow> addr \<Rightarrow> trace \<Rightarrow> fg_error + addr \<times> trace" where
  "MM_allocate env isShared sz fd startaddr tr =
    (let protInfo = PROT_READ OR PROT_WRITE;
         sharedInfo = (if isShared then MAP_SHARED else MAP_PRIVATE);
         sharedInfo1 = sharedInfo OR (if fd = - 1 then MAP_ANONYMOUS else 0);
         sharedInfo2 = sharedInfo1 OR (if startaddr \<noteq> 0 then MAP_FIXED else 0);
         sharedInfo3 = sharedInfo2 OR MAP_NORESERVE;
         (ptr, tr1) = ext env (Mmap startaddr sz protInfo sharedInfo3 fd) tr
     in if ptr = MAP_FAILED then Inl Mmap_failed else Inr (ptr, tr1))"

definition mmapAllocateShared :: "env \<Rightarrow> size_t \<Rightarrow> u32 \<Rightarrow> addr \<Rightarrow> trace \<Rightarrow> fg_error + addr \<times> trace" where
  "mmapAllocateShared env sz fd startaddr tr = MM_allocate env True sz fd startaddr tr"

text \<open>Every caller in the repository passes \<open>NULL\<close> as the start and no descriptor.\<close>

definition mmapAllocatePrivate :: "env \<Rightarrow> size_t \<Rightarrow> trace \<Rightarrow> fg_error + addr \<times> trace" where
  "mmapAllocatePrivate env sz tr = MM_allocate env False sz (- 1) 0 tr"

definition mmapDeallocate :: "env \<Rightarrow> addr \<Rightarrow> size_t \<Rightarrow> trace \<Rightarrow> trace" where
  "mmapDeallocate env ptr sz tr = snd (ext env (Munmap ptr sz) tr)"

definition private_map :: "size_t \<Rightarrow> ext_call" where
  "private_map sz = Mmap 0 sz 3 0x4022 (- 1)"

lemma mmapAllocatePrivate_eq:
  "mmapAllocatePrivate env sz tr =
    (let tr1 = private_map sz # tr
     in if env tr1 = MAP_FAILED then Inl Mmap_failed else Inr (env tr1, tr1))"
  by (simp add: Let_def mmapAllocatePrivate_def MM_allocate_def ext_def private_map_def PROT_READ_def
      PROT_WRITE_def MAP_PRIVATE_def MAP_ANONYMOUS_def MAP_NORESERVE_def)

end
