(* ===== verification/SList.thy ===== *)
theory SList
  imports FGPrelude
begin

text \<open>
  \<open>slist.h\<close>: singly-linked lists through pointers.  The memory is the \<open>next\<close> field
  of every \<open>slist_t\<close> object, headers and nodes alike, as a map from addresses to
  addresses; \<open>NULL\<close> is 0.  An operation that would dereference \<open>NULL\<close> has no result
  (\<open>None\<close>), and so has a loop that does not end.

  \<open>holds_sll nx l xs\<close> says that the header \<open>l\<close> holds exactly the nodes \<open>xs\<close>, in
  order.  The lemmas show what each operation does to that list, and that the two
  loops end on it.
\<close>

type_synonym slist_mem = "addr \<Rightarrow> addr"

definition initSLL :: "addr \<Rightarrow> slist_mem \<Rightarrow> slist_mem" where
  "initSLL l nx = nx(l := 0)"

definition isSLLEmpty :: "addr \<Rightarrow> slist_mem \<Rightarrow> bool" where
  "isSLLEmpty l nx = (nx l = 0)"

definition nextEntry :: "addr \<Rightarrow> slist_mem \<Rightarrow> addr" where
  "nextEntry cur nx = nx cur"

definition insertSLLHead :: "addr \<Rightarrow> addr \<Rightarrow> slist_mem \<Rightarrow> slist_mem" where
  "insertSLLHead node l nx = (let nx1 = nx(node := nx l) in nx1(l := node))"

definition removeSLLHead :: "addr \<Rightarrow> slist_mem \<Rightarrow> (addr \<times> slist_mem) option" where
  "removeSLLHead l nx =
    (let temp = nx l in if temp = 0 then None else Some (temp, nx(l := nx temp)))"

partial_function (option) tail_loop :: "addr \<Rightarrow> slist_mem \<Rightarrow> addr option" where
  "tail_loop current nx =
    (if nx current = 0 then Some current else tail_loop (nextEntry current nx) nx)"

definition getTailSLL :: "addr \<Rightarrow> slist_mem \<Rightarrow> addr option" where
  "getTailSLL l nx = (if l = 0 then Some 0 else tail_loop l nx)"

definition insertAllSLLHead :: "addr \<Rightarrow> addr \<Rightarrow> slist_mem \<Rightarrow> slist_mem option" where
  "insertAllSLLHead node l nx =
    (if node = 0 then None
     else
       let tmp = nx l; nx1 = nx(l := nx node)
       in case getTailSLL (nx1 node) nx1 of
            None \<Rightarrow> None
          | Some tail \<Rightarrow> if tail = 0 then None else Some (nx1(tail := tmp)))"

partial_function (option) count_loop :: "addr \<Rightarrow> u32 \<Rightarrow> slist_mem \<Rightarrow> u32 option" where
  "count_loop current len nx =
    (if current = 0 then Some len else count_loop (nextEntry current nx) (len + 1) nx)"

definition countSLL :: "addr \<Rightarrow> slist_mem \<Rightarrow> u32 option" where
  "countSLL l nx = (if l = 0 then Some (- 1) else count_loop (nx l) 0 nx)"

section \<open>The list a header holds\<close>

text \<open>Reading \<open>next\<close> from the header and from each node in turn gives the nodes and
  then \<open>NULL\<close>.\<close>

definition holds_sll :: "slist_mem \<Rightarrow> addr \<Rightarrow> addr list \<Rightarrow> bool" where
  "holds_sll nx l xs \<longleftrightarrow> map nx (l # xs) = xs @ [0] \<and> distinct (l # xs) \<and> 0 \<notin> set xs"

lemma map_upd_other [simp]: "p \<notin> set xs \<Longrightarrow> map (f(p := v)) xs = map f xs"
  by auto

lemma holds_sll_other: "p \<noteq> l \<Longrightarrow> p \<notin> set xs \<Longrightarrow> holds_sll (nx(p := v)) l xs = holds_sll nx l xs"
  by (simp add: holds_sll_def)

lemma holds_sll_unique: "holds_sll nx l xs \<Longrightarrow> holds_sll nx l ys \<Longrightarrow> xs = ys"
proof -
  have "\<lbrakk>nx l # map nx xs = xs @ [0]; nx l # map nx ys = ys @ [0]; 0 \<notin> set xs; 0 \<notin> set ys\<rbrakk>
      \<Longrightarrow> xs = ys"
  proof (induction xs arbitrary: l ys)
    case Nil
    then show ?case by (cases ys) auto
  next
    case (Cons x xs)
    then obtain y ys' where ys: "ys = y # ys'" by (cases ys) auto
    with Cons.prems have "y = x" by simp
    with Cons.prems ys Cons.IH [of x ys'] show ?case by auto
  qed
  then show "holds_sll nx l xs \<Longrightarrow> holds_sll nx l ys \<Longrightarrow> xs = ys"
    by (simp add: holds_sll_def)
qed

lemma holds_sll_next:
  assumes "holds_sll nx l xs" and "x \<in> set xs"
  shows "nx x \<in> insert 0 (set xs)"
proof -
  from assms(1) have "set (nx l # map nx xs) = set (xs @ [0])"
    by (simp only: holds_sll_def list.map)
  with assms(2) show ?thesis by auto
qed

lemma initSLL_holds: "holds_sll (initSLL l nx) l []"
  by (simp add: holds_sll_def initSLL_def)

lemma isSLLEmpty_iff: "holds_sll nx l xs \<Longrightarrow> isSLLEmpty l nx \<longleftrightarrow> xs = []"
  by (cases xs) (auto simp: holds_sll_def isSLLEmpty_def)

lemma insertSLLHead_holds:
  "\<lbrakk>holds_sll nx l xs; node \<noteq> 0; node \<noteq> l; node \<notin> set xs\<rbrakk>
    \<Longrightarrow> holds_sll (insertSLLHead node l nx) l (node # xs)"
  by (auto simp: holds_sll_def insertSLLHead_def)

lemma removeSLLHead_holds:
  "holds_sll nx l (x # xs) \<Longrightarrow>
    removeSLLHead l nx = Some (x, nx(l := nx x)) \<and> holds_sll (nx(l := nx x)) l xs"
  by (auto simp: holds_sll_def removeSLLHead_def)

lemma removeSLLHead_empty: "holds_sll nx l [] \<Longrightarrow> removeSLLHead l nx = None"
  by (simp add: holds_sll_def removeSLLHead_def)

section \<open>The loops\<close>

lemma tail_loop_eq:
  "\<lbrakk>map nx (x # xs) = xs @ [0]; 0 \<notin> set xs\<rbrakk> \<Longrightarrow> tail_loop x nx = Some (last (x # xs))"
proof (induction xs arbitrary: x)
  case Nil
  then show ?case by (simp add: tail_loop.simps)
next
  case (Cons y ys)
  then have "nx x = y" "y \<noteq> 0" by auto
  with Cons show ?case by (subst tail_loop.simps) (simp add: nextEntry_def)
qed

lemma getTailSLL_holds:
  "holds_sll nx l xs \<Longrightarrow> getTailSLL (nx l) nx = Some (if xs = [] then 0 else last xs)"
proof (cases xs)
  case (Cons y ys)
  assume "holds_sll nx l xs"
  with Cons have "nx l = y" "y \<noteq> 0" and "tail_loop y nx = Some (last xs)"
    using tail_loop_eq [of nx y ys] by (simp_all add: holds_sll_def)
  with Cons show ?thesis by (simp add: getTailSLL_def)
qed (simp add: holds_sll_def getTailSLL_def)

lemma count_loop_eq:
  "\<lbrakk>p # map nx xs = xs @ [0]; 0 \<notin> set xs\<rbrakk> \<Longrightarrow> count_loop p n nx = Some (n + of_nat (length xs))"
proof (induction xs arbitrary: p n)
  case Nil
  then show ?case by (simp add: count_loop.simps)
next
  case (Cons y ys)
  then have "p = y" "y \<noteq> 0" by auto
  with Cons show ?case by (subst count_loop.simps) (simp add: nextEntry_def algebra_simps)
qed

lemma countSLL_holds:
  "holds_sll nx l xs \<Longrightarrow> l \<noteq> 0 \<Longrightarrow> countSLL l nx = Some (of_nat (length xs))"
  using count_loop_eq [of "nx l" nx xs 0] by (simp add: holds_sll_def countSLL_def)

text \<open>\<open>insertAllSLLHead\<close> moves the nodes of the first list in front of the second; the
  header of the first list still points to them.  On an empty first list it
  dereferences \<open>NULL\<close>.\<close>

lemma map_upd_last:
  assumes "distinct (xs @ [x])"
  shows "map (f(x := v)) (xs @ [x]) = map f xs @ [v]"
  using assms by simp

lemma insertAllSLLHead_holds:
  assumes n: "holds_sll nx node (ys @ [y])" and l: "holds_sll nx l xs"
    and d: "set (node # ys @ [y]) \<inter> set (l # xs) = {}" and nz: "node \<noteq> 0"
  shows "\<exists>nx'. insertAllSLLHead node l nx = Some nx' \<and> holds_sll nx' l (ys @ [y] @ xs)"
proof -
  let ?nx1 = "nx(l := nx node)"
  have "holds_sll ?nx1 node (ys @ [y])"
    using n d by (subst holds_sll_other) auto
  then have tail: "getTailSLL (?nx1 node) ?nx1 = Some y"
    by (simp add: getTailSLL_holds del: fun_upd_apply)
  have y: "y \<noteq> 0" using n by (simp add: holds_sll_def)
  have "holds_sll (?nx1(y := nx l)) l (ys @ [y] @ xs)"
  proof -
    have "nx node # map nx ys = ys @ [y]" and "nx l # map nx xs = xs @ [0]"
      using n l by (auto simp: holds_sll_def simp flip: append_Cons)
    moreover have "l \<noteq> y" "y \<notin> set ys" "y \<notin> set xs" "l \<notin> set ys" using n l d
      by (auto simp: holds_sll_def)
    ultimately show ?thesis using n l d by (auto simp: holds_sll_def)
  qed
  with tail y nz show ?thesis by (simp add: insertAllSLLHead_def Let_def del: fun_upd_apply)
qed

lemma insertAllSLLHead_empty:
  assumes "holds_sll nx node []" and "l \<noteq> node"
  shows "insertAllSLLHead node l nx = None"
  using assms by (simp add: insertAllSLLHead_def holds_sll_def getTailSLL_def Let_def)

end
