(* ===== verification/DList.thy ===== *)
theory DList
  imports SList
begin

text \<open>
  \<open>dlist.h\<close>: despite its name, a singly-linked chain of \<open>slist_t\<close> nodes with a header
  that points to the first and the last node (\<open>next\<close> and \<open>prev\<close> of the header).  The
  memory has one map per field: \<open>snext\<close> for the nodes, \<open>dnext\<close> and \<open>dprev\<close> for the
  headers, which are objects of another type and so never overlap a node.

  \<open>holds_dll m d xs\<close> says that the header \<open>d\<close> holds the nodes \<open>xs\<close> in order.
\<close>

record dlist_mem =
  snext :: slist_mem
  dnext :: "addr \<Rightarrow> addr"
  dprev :: "addr \<Rightarrow> addr"

definition initDLL :: "addr \<Rightarrow> dlist_mem \<Rightarrow> dlist_mem" where
  "initDLL d m = m\<lparr> dnext := (dnext m)(d := 0), dprev := (dprev m)(d := 0) \<rparr>"

definition isDLLEmpty :: "addr \<Rightarrow> dlist_mem \<Rightarrow> bool" where
  "isDLLEmpty d m = (dnext m d = 0)"

definition insertDLLHead :: "addr \<Rightarrow> addr \<Rightarrow> dlist_mem \<Rightarrow> dlist_mem" where
  "insertDLLHead node d m =
    (let old_head = dnext m d; old_tail = dprev m d;
         m1 = m\<lparr> snext := (snext m)(node := old_head) \<rparr>;
         m2 = (if old_tail = 0 then m1\<lparr> dprev := (dprev m1)(d := node) \<rparr> else m1)
     in m2\<lparr> dnext := (dnext m2)(d := node) \<rparr>)"

definition insertDLLTail :: "addr \<Rightarrow> addr \<Rightarrow> dlist_mem \<Rightarrow> dlist_mem" where
  "insertDLLTail node d m =
    (let old_tail = dprev m d;
         m1 = m\<lparr> snext := (snext m)(node := 0) \<rparr>;
         m2 = (if old_tail \<noteq> 0 then m1\<lparr> snext := (snext m1)(old_tail := node) \<rparr>
               else m1\<lparr> dnext := (dnext m1)(d := node) \<rparr>)
     in m2\<lparr> dprev := (dprev m2)(d := node) \<rparr>)"

definition removeDLLHead :: "addr \<Rightarrow> dlist_mem \<Rightarrow> (addr \<times> dlist_mem) option" where
  "removeDLLHead d m =
    (let old_head = dnext m d
     in if old_head = 0 then None
        else
          let replacement = snext m old_head;
              m1 = (if replacement = 0 then m\<lparr> dprev := (dprev m)(d := 0) \<rparr> else m)
          in Some (old_head, m1\<lparr> dnext := (dnext m1)(d := replacement) \<rparr>))"

text \<open>The \<open>do ... while\<close> loop of \<open>insertAllDLLTail\<close>: it turns the chain that starts at
  \<open>tail_segment1\<close> around and returns the final \<open>tail_segment2\<close>.\<close>

partial_function (option) reverse_loop :: "addr \<Rightarrow> addr \<Rightarrow> slist_mem \<Rightarrow> (addr \<times> slist_mem) option" where
  "reverse_loop tail_segment1 tail_segment2 nx =
    (let next = nextEntry tail_segment1 nx;
         nx1 = nx(tail_segment1 := tail_segment2)
     in if next \<noteq> 0 then reverse_loop next tail_segment1 nx1
        else Some (tail_segment1, nx1))"

definition insertAllDLLTail :: "addr \<Rightarrow> addr \<Rightarrow> dlist_mem \<Rightarrow> dlist_mem option" where
  "insertAllDLLTail l d m =
    (let tail_segment1 = snext m l; old_tail = dprev m d
     in if tail_segment1 = 0 then Some m
        else
          let m1 = m\<lparr> dprev := (dprev m)(d := tail_segment1) \<rparr>
          in case reverse_loop tail_segment1 0 (snext m1) of
               None \<Rightarrow> None
             | Some (tail_segment2, nx) \<Rightarrow>
                 (let m2 = m1\<lparr> snext := nx \<rparr>
                  in Some (if old_tail \<noteq> 0
                           then m2\<lparr> snext := (snext m2)(old_tail := tail_segment2) \<rparr>
                           else m2\<lparr> dnext := (dnext m2)(d := tail_segment2) \<rparr>)))"

section \<open>The list a header holds\<close>

definition holds_dll :: "dlist_mem \<Rightarrow> addr \<Rightarrow> addr list \<Rightarrow> bool" where
  "holds_dll m d xs \<longleftrightarrow>
    dnext m d # map (snext m) xs = xs @ [0] \<and>
    dprev m d = (if xs = [] then 0 else last xs) \<and> distinct xs \<and> 0 \<notin> set xs"

lemma holds_dll_frame:
  "\<lbrakk>holds_dll m d xs; dnext m' d = dnext m d; dprev m' d = dprev m d;
    \<forall>x\<in>set xs. snext m' x = snext m x\<rbrakk> \<Longrightarrow> holds_dll m' d xs"
  by (simp add: holds_dll_def cong: map_cong)

lemma holds_dll_next:
  assumes "holds_dll m d xs" and "x \<in> set xs"
  shows "snext m x \<in> insert 0 (set xs)"
proof -
  from assms(1) have "set (dnext m d # map (snext m) xs) = set (xs @ [0])"
    by (simp only: holds_dll_def)
  with assms(2) show ?thesis by auto
qed

lemma initDLL_holds: "holds_dll (initDLL d m) d []"
  by (simp add: holds_dll_def initDLL_def)

lemma isDLLEmpty_iff: "holds_dll m d xs \<Longrightarrow> isDLLEmpty d m \<longleftrightarrow> xs = []"
  by (cases xs) (auto simp: holds_dll_def isDLLEmpty_def)

lemma insertDLLHead_holds:
  "\<lbrakk>holds_dll m d xs; node \<noteq> 0; node \<notin> set xs\<rbrakk>
    \<Longrightarrow> holds_dll (insertDLLHead node d m) d (node # xs)"
  by (cases xs rule: rev_cases) (auto simp: holds_dll_def insertDLLHead_def)

lemma insertDLLTail_holds:
  assumes h: "holds_dll m d xs" and nz: "node \<noteq> 0" and new: "node \<notin> set xs"
  shows "holds_dll (insertDLLTail node d m) d (xs @ [node])"
proof (cases xs rule: rev_cases)
  case Nil
  with assms show ?thesis by (simp add: holds_dll_def insertDLLTail_def)
next
  case (snoc ys y)
  with h have "dprev m d = y" "y \<noteq> 0" "y \<notin> set ys" "distinct ys"
    "dnext m d # map (snext m) ys = ys @ [y]"
    by (auto simp: holds_dll_def simp flip: append_Cons)
  with snoc nz new h show ?thesis
    by (auto simp: holds_dll_def insertDLLTail_def Let_def)
qed

lemma holds_dll_prev: "holds_dll m d xs \<Longrightarrow> dprev m d \<in> insert 0 (set xs)"
  by (simp add: holds_dll_def)

lemma insertDLLTail_next:
  assumes h: "holds_dll m d xs" and p: "p \<notin> set xs" "p \<noteq> node"
  shows "snext (insertDLLTail node d m) p = snext m p"
proof (cases "dprev m d = 0")
  case True
  with p show ?thesis by (simp add: insertDLLTail_def Let_def)
next
  case False
  with holds_dll_prev [OF h] have "dprev m d \<in> set xs" by (simp only: insert_iff simp_thms)
  with p have "p \<noteq> dprev m d" by metis
  with p show ?thesis by (simp add: insertDLLTail_def Let_def)
qed

lemma insertDLLTail_other:
  "e \<noteq> d \<Longrightarrow> dnext (insertDLLTail node d m) e = dnext m e"
  "e \<noteq> d \<Longrightarrow> dprev (insertDLLTail node d m) e = dprev m e"
  by (auto simp: insertDLLTail_def Let_def)

lemma removeDLLHead_holds:
  "holds_dll m d (x # xs) \<Longrightarrow> \<exists>m'. removeDLLHead d m = Some (x, m') \<and> holds_dll m' d xs \<and>
    snext m' = snext m \<and> (\<forall>e. e \<noteq> d \<longrightarrow> dnext m' e = dnext m e \<and> dprev m' e = dprev m e)"
  by (cases xs) (auto simp: holds_dll_def removeDLLHead_def Let_def)

lemma removeDLLHead_empty: "holds_dll m d [] \<Longrightarrow> removeDLLHead d m = None"
  by (simp add: holds_dll_def removeDLLHead_def)

section \<open>Moving a whole list\<close>

lemma reverse_loop_eq:
  "\<lbrakk>map nx (x # xs) = xs @ [0]; distinct (x # xs); 0 \<notin> set xs\<rbrakk> \<Longrightarrow>
    \<exists>nx'. reverse_loop x seg nx = Some (last (x # xs), nx') \<and>
      map nx' (rev (x # xs)) = tl (rev (x # xs)) @ [seg] \<and>
      (\<forall>p. p \<notin> set (x # xs) \<longrightarrow> nx' p = nx p)"
proof (induction xs arbitrary: x seg nx)
  case Nil
  then show ?case by (subst reverse_loop.simps) (simp add: nextEntry_def)
next
  case (Cons y ys)
  let ?nx1 = "nx(x := seg)"
  from Cons.prems have y: "nx x = y" "y \<noteq> 0" and ny: "map nx (y # ys) = ys @ [0]" by auto
  have chain: "map ?nx1 (y # ys) = ys @ [0]"
    using ny Cons.prems(2) by (subst map_upd_other) auto
  have "distinct (y # ys)" and "0 \<notin> set ys" using Cons.prems by auto
  from Cons.IH [OF chain this, of x] obtain nx' where
    r: "reverse_loop y x ?nx1 = Some (last (y # ys), nx')"
      "map nx' (rev (y # ys)) = tl (rev (y # ys)) @ [x]"
      "\<forall>p. p \<notin> set (y # ys) \<longrightarrow> nx' p = ?nx1 p"
    by blast
  have "reverse_loop x seg nx = reverse_loop y x ?nx1"
    using y by (subst reverse_loop.simps) (simp add: nextEntry_def)
  moreover have "nx' x = seg" using r(3) Cons.prems by simp
  moreover have "tl (rev (x # y # ys)) = tl (rev (y # ys)) @ [x]"
    by (cases ys rule: rev_cases) auto
  ultimately show ?case using r by auto
qed

lemma insertAllDLLTail_holds:
  assumes s: "holds_sll (snext m) l ys" and d: "holds_dll m d xs"
    and sep: "set ys \<inter> set xs = {}"
  shows "\<exists>m'. insertAllDLLTail l d m = Some m' \<and> holds_dll m' d (xs @ rev ys)"
proof (cases ys)
  case Nil
  with s d show ?thesis by (auto simp: holds_sll_def insertAllDLLTail_def)
next
  case (Cons y zs)
  with s have y: "snext m l = y" "y \<noteq> 0" and chain: "map (snext m) (y # zs) = zs @ [0]"
    and nd: "distinct (y # zs)" "0 \<notin> set (y # zs)"
    by (auto simp: holds_sll_def)
  obtain nx' where r: "reverse_loop y 0 (snext m) = Some (last (y # zs), nx')"
    "map nx' (rev (y # zs)) = tl (rev (y # zs)) @ [0]" "\<forall>p. p \<notin> set (y # zs) \<longrightarrow> nx' p = snext m p"
    using reverse_loop_eq [OF chain] nd by auto
  have hd_rev: "rev (y # zs) = last (y # zs) # tl (rev (y # zs))"
    by (metis hd_rev hd_Cons_tl rev_is_Nil_conv list.distinct(1))
  have same: "map nx' xs = map (snext m) xs"
    using r(3) sep Cons by (intro map_cong) auto
  show ?thesis
  proof (cases xs rule: rev_cases)
    case Nil
    with d have "dprev m d = 0" by (simp add: holds_dll_def)
    then have "insertAllDLLTail l d m =
        Some (m\<lparr>snext := nx', dnext := (dnext m)(d := last (y # zs)), dprev := (dprev m)(d := y)\<rparr>)"
      using y r(1) by (simp add: insertAllDLLTail_def Let_def)
    moreover have "holds_dll (m\<lparr>snext := nx', dnext := (dnext m)(d := last (y # zs)),
        dprev := (dprev m)(d := y)\<rparr>) d (rev (y # zs))"
      using r(2) nd hd_rev by (simp add: holds_dll_def)
    ultimately show ?thesis using Nil Cons by auto
  next
    case (snoc us u)
    with d have u: "dprev m d = u" "u \<noteq> 0" "u \<notin> set us" "distinct us" "0 \<notin> set us"
      "dnext m d # map (snext m) us = us @ [u]"
      by (auto simp: holds_dll_def simp flip: append_Cons)
    have fresh: "u \<notin> set (rev (y # zs))" using sep Cons snoc by auto
    let ?m' = "m\<lparr>snext := nx'(u := last (y # zs)), dprev := (dprev m)(d := y)\<rparr>"
    have "insertAllDLLTail l d m = Some ?m'"
      using y u r(1) by (simp add: insertAllDLLTail_def Let_def)
    moreover have "holds_dll ?m' d (us @ [u] @ rev (y # zs))"
    proof -
      have "map (nx'(u := last (y # zs))) (us @ [u] @ rev (y # zs))
          = map nx' us @ [last (y # zs)] @ map nx' (rev (y # zs))"
        using u(3) fresh by (simp only: map_append map_upd_other list.map fun_upd_same not_False_eq_True)
      also have "\<dots> = map nx' us @ rev (y # zs) @ [0]"
        using r(2) hd_rev by (metis append_Cons append_Nil)
      finally have "map (nx'(u := last (y # zs))) (us @ [u] @ rev (y # zs))
          = map nx' us @ rev (y # zs) @ [0]" .
      moreover have "map nx' us = map (snext m) us" using same snoc by simp
      ultimately have "dnext m d # map (nx'(u := last (y # zs))) (us @ [u] @ rev (y # zs))
          = us @ [u] @ rev (y # zs) @ [0]"
        using u(6) by (simp del: rev.simps map_append fun_upd_apply flip: append_Cons)
      moreover have "distinct (us @ [u] @ rev (y # zs))" using u nd fresh sep Cons snoc by auto
      ultimately show ?thesis
        using u(2,5) nd(2) by (simp add: holds_dll_def del: map_append fun_upd_apply add: fun_upd_same)
    qed
    ultimately show ?thesis using snoc Cons by auto
  qed
qed

end
