(* ===== verification/Freelist.thy ===== *)
theory Freelist
  imports DList XDefines "HOL-Library.Multiset"
begin

text \<open>
  The free lists of the BIBOP heap: the \<open>FREELIST_*\<close> macros of \<open>xdefines.hh\<close> select
  \<open>slist.h\<close> or \<open>dlist.h\<close> by the flag \<open>FIFO_FREELIST\<close>.

  Locale \<open>freelist\<close> is the contract the heap relies on: which nodes a header holds
  after each operation, and what an operation leaves alone.  Its lemmas are about a
  pool, a set of headers that hold pairwise disjoint lists.  Locale \<open>fifo_freelist\<close> adds
  the order.  Both list implementations, and the macros for any build, are
  interpretations.
\<close>

section \<open>The macros\<close>

definition FREELIST_INIT :: "build \<Rightarrow> addr \<Rightarrow> dlist_mem \<Rightarrow> dlist_mem" where
  "FREELIST_INIT c h m =
    (if FIFO_FREELIST c then initDLL h m else m\<lparr> snext := initSLL h (snext m) \<rparr>)"

definition IS_FREELIST_EMPTY :: "build \<Rightarrow> addr \<Rightarrow> dlist_mem \<Rightarrow> bool" where
  "IS_FREELIST_EMPTY c h m =
    (if FIFO_FREELIST c then isDLLEmpty h m else isSLLEmpty h (snext m))"

definition FREELIST_INSERT :: "build \<Rightarrow> addr \<Rightarrow> addr \<Rightarrow> dlist_mem \<Rightarrow> dlist_mem" where
  "FREELIST_INSERT c node h m =
    (if FIFO_FREELIST c then insertDLLTail node h m
     else m\<lparr> snext := insertSLLHead node h (snext m) \<rparr>)"

definition FREELIST_REMOVE :: "build \<Rightarrow> addr \<Rightarrow> dlist_mem \<Rightarrow> (addr \<times> dlist_mem) option" where
  "FREELIST_REMOVE c h m =
    (if FIFO_FREELIST c then removeDLLHead h m
     else case removeSLLHead h (snext m) of
            None \<Rightarrow> None
          | Some (x, nx) \<Rightarrow> Some (x, m\<lparr> snext := nx \<rparr>))"

definition FREELIST_MERGE :: "build \<Rightarrow> addr \<Rightarrow> addr \<Rightarrow> dlist_mem \<Rightarrow> dlist_mem option" where
  "FREELIST_MERGE c l h m =
    (if FIFO_FREELIST c then insertAllDLLTail l h m
     else case insertAllSLLHead l h (snext m) of
            None \<Rightarrow> None
          | Some nx \<Rightarrow> Some (m\<lparr> snext := nx \<rparr>))"

definition freelist_holds :: "build \<Rightarrow> dlist_mem \<Rightarrow> addr \<Rightarrow> addr list \<Rightarrow> bool" where
  "freelist_holds c m h xs =
    (if FIFO_FREELIST c then holds_dll m h xs \<and> h \<notin> set xs else holds_sll (snext m) h xs)"

section \<open>The contract\<close>

definition set_next :: "addr \<Rightarrow> addr \<Rightarrow> dlist_mem \<Rightarrow> dlist_mem" where
  "set_next p v m = m\<lparr> snext := (snext m)(p := v) \<rparr>"

lemma snext_set_next [simp]: "snext (set_next p v m) = (snext m)(p := v)"
  by (simp add: set_next_def)

text \<open>A pool: every header of \<open>H\<close> holds its list, the lists are pairwise disjoint and
  no header is a node.\<close>

definition apart :: "addr set \<Rightarrow> (addr \<Rightarrow> addr list) \<Rightarrow> bool" where
  "apart H L \<longleftrightarrow>
    (\<forall>h\<in>H. set (L h) \<inter> H = {}) \<and>
    (\<forall>h\<in>H. \<forall>k\<in>H. h \<noteq> k \<longrightarrow> set (L h) \<inter> set (L k) = {})"

definition pool ::
  "(dlist_mem \<Rightarrow> addr \<Rightarrow> addr list \<Rightarrow> bool) \<Rightarrow> dlist_mem \<Rightarrow> addr set \<Rightarrow> (addr \<Rightarrow> addr list) \<Rightarrow> bool"
where
  "pool holds m H L \<longleftrightarrow> (\<forall>h\<in>H. holds m h (L h)) \<and> apart H L"

lemma apart_upd:
  assumes a: "apart H L" and ys: "set ys \<subseteq> N \<union> set (L h)"
    and N: "N \<inter> H = {}" "\<forall>k\<in>H. N \<inter> set (L k) = {}" and h: "h \<in> H"
  shows "apart H (L(h := ys))"
proof -
  have "set (L h) \<inter> H = {}" using a h by (simp add: apart_def)
  with ys N(1) have "set ys \<inter> H = {}" by blast
  moreover have "set ys \<inter> set (L k) = {}" if "k \<in> H" "k \<noteq> h" for k
  proof -
    have "set (L h) \<inter> set (L k) = {}" using a h that by (auto simp: apart_def)
    moreover have "N \<inter> set (L k) = {}" using N that by blast
    ultimately show ?thesis using ys by blast
  qed
  ultimately show ?thesis using a by (auto simp: apart_def)
qed

lemma apart_lists:
  "apart H L \<Longrightarrow> h \<in> H \<Longrightarrow> k \<in> H \<Longrightarrow> k \<noteq> h \<Longrightarrow>
    set (L h) \<inter> set (L k) = {} \<and> h \<notin> set (L k) \<and> k \<notin> set (L h)"
  unfolding apart_def by blast

locale freelist =
  fixes holds :: "dlist_mem \<Rightarrow> addr \<Rightarrow> addr list \<Rightarrow> bool"
    and init :: "addr \<Rightarrow> dlist_mem \<Rightarrow> dlist_mem"
    and is_empty :: "addr \<Rightarrow> dlist_mem \<Rightarrow> bool"
    and ins :: "addr \<Rightarrow> addr \<Rightarrow> dlist_mem \<Rightarrow> dlist_mem"
    and rem :: "addr \<Rightarrow> dlist_mem \<Rightarrow> (addr \<times> dlist_mem) option"
  assumes holds_proper: "holds m h xs \<Longrightarrow> distinct xs \<and> 0 \<notin> set xs"
    and holds_next: "holds m h xs \<Longrightarrow> x \<in> set xs \<Longrightarrow> snext m x \<in> insert 0 (set xs)"
    and holds_init: "holds (init h m) h []"
    and init_frame: "holds m k ys \<Longrightarrow> k \<noteq> h \<Longrightarrow> h \<notin> set ys \<Longrightarrow> holds (init h m) k ys"
    and init_next: "p \<noteq> h \<Longrightarrow> snext (init h m) p = snext m p"
    and empty_iff: "holds m h xs \<Longrightarrow> is_empty h m \<longleftrightarrow> xs = []"
    and holds_ins: "holds m h xs \<Longrightarrow> node \<noteq> 0 \<Longrightarrow> node \<noteq> h \<Longrightarrow> node \<notin> set xs \<Longrightarrow>
      \<exists>ys. holds (ins node h m) h ys \<and> mset ys = add_mset node (mset xs)"
    and ins_frame: "holds m h xs \<Longrightarrow> holds m k ys \<Longrightarrow> k \<noteq> h \<Longrightarrow> k \<noteq> node \<Longrightarrow> k \<notin> set xs \<Longrightarrow>
      set (node # h # xs) \<inter> set ys = {} \<Longrightarrow> holds (ins node h m) k ys"
    and ins_next: "holds m h xs \<Longrightarrow> p \<notin> set (node # h # xs) \<Longrightarrow>
      snext (ins node h m) p = snext m p"
    and holds_rem: "holds m h xs \<Longrightarrow> xs \<noteq> [] \<Longrightarrow>
      \<exists>x ys m'. rem h m = Some (x, m') \<and> holds m' h ys \<and> mset xs = add_mset x (mset ys)"
    and rem_frame: "rem h m = Some (x, m') \<Longrightarrow> holds m k ys \<Longrightarrow> k \<noteq> h \<Longrightarrow> h \<notin> set ys \<Longrightarrow>
      holds m' k ys"
    and rem_next: "rem h m = Some (x, m') \<Longrightarrow> p \<noteq> h \<Longrightarrow> snext m' p = snext m p"
    and write_frame: "holds m h xs \<Longrightarrow> p \<noteq> h \<Longrightarrow> p \<notin> set xs \<Longrightarrow> holds (set_next p v m) h xs"
begin

lemma pool_ins:
  assumes p: "pool holds m H L" and h: "h \<in> H" and nz: "node \<noteq> 0"
    and new: "node \<notin> H" "\<forall>k\<in>H. node \<notin> set (L k)"
  shows "\<exists>ys. pool holds (ins node h m) H (L(h := ys)) \<and> mset ys = add_mset node (mset (L h))"
proof -
  have hold: "holds m k (L k)" if "k \<in> H" for k using p that by (simp add: pool_def)
  have a: "apart H L" using p by (simp add: pool_def)
  from hold h nz new obtain ys where
    ys: "holds (ins node h m) h ys" "mset ys = add_mset node (mset (L h))"
    using holds_ins [of m h "L h" node] by auto
  from ys(2) have set: "set ys = insert node (set (L h))" by (metis set_mset_add_mset_insert set_mset_mset)
  have others: "holds (ins node h m) k (L k)" if "k \<in> H" "k \<noteq> h" for k
    using ins_frame [OF hold [OF h] hold [OF that(1)], of node] that apart_lists [OF a h that] new
    by auto
  have "apart H (L(h := ys))"
    by (rule apart_upd [OF a, where N = "{node}"]) (use set new h in auto)
  with ys others have "pool holds (ins node h m) H (L(h := ys))" by (auto simp: pool_def)
  with ys(2) show ?thesis by blast
qed

lemma pool_rem:
  assumes p: "pool holds m H L" and h: "h \<in> H" and ne: "L h \<noteq> []"
  shows "\<exists>x ys m'. rem h m = Some (x, m') \<and> pool holds m' H (L(h := ys)) \<and>
    mset (L h) = add_mset x (mset ys)"
proof -
  have hold: "holds m k (L k)" if "k \<in> H" for k using p that by (simp add: pool_def)
  have a: "apart H L" using p by (simp add: pool_def)
  from holds_rem [OF hold [OF h] ne] obtain x ys m' where
    r: "rem h m = Some (x, m')" "holds m' h ys" "mset (L h) = add_mset x (mset ys)" by blast
  from r(3) have set: "set (L h) = insert x (set ys)" by (metis set_mset_add_mset_insert set_mset_mset)
  have others: "holds m' k (L k)" if "k \<in> H" "k \<noteq> h" for k
    using rem_frame [OF r(1) hold [OF that(1)]] that apart_lists [OF a h that] by auto
  have "apart H (L(h := ys))"
    by (rule apart_upd [OF a, where N = "{}"]) (use set h in auto)
  with r others have "pool holds m' H (L(h := ys))" by (auto simp: pool_def)
  with r show ?thesis by blast
qed

lemma pool_write:
  "pool holds m H L \<Longrightarrow> p \<notin> H \<Longrightarrow> \<forall>k\<in>H. p \<notin> set (L k) \<Longrightarrow> pool holds (set_next p v m) H L"
  unfolding pool_def using write_frame by metis

text \<open>No node of a pool carries a value that is neither \<open>NULL\<close> nor a node: an object
  on a free list never looks allocated.\<close>

lemma pool_next:
  "pool holds m H L \<Longrightarrow> h \<in> H \<Longrightarrow> x \<in> set (L h) \<Longrightarrow> snext m x \<in> insert 0 (set (L h))"
  unfolding pool_def using holds_next by blast

end

locale fifo_freelist = freelist +
  assumes ins_tail: "holds m h xs \<Longrightarrow> node \<noteq> 0 \<Longrightarrow> node \<noteq> h \<Longrightarrow> node \<notin> set xs \<Longrightarrow>
      holds (ins node h m) h (xs @ [node])"
    and rem_head: "holds m h (x # xs) \<Longrightarrow> \<exists>m'. rem h m = Some (x, m') \<and> holds m' h xs"
begin

text \<open>Delayed reuse: a node inserted behind \<open>n\<close> others is not among the next \<open>n\<close> nodes
  removed, it is the one after them.\<close>

lemma ins_then_rem:
  assumes "holds m h (x # xs)" and "node \<noteq> 0" "node \<noteq> h" "node \<notin> set (x # xs)"
  shows "\<exists>m'. rem h (ins node h m) = Some (x, m') \<and> holds m' h (xs @ [node])"
  using ins_tail [OF assms] rem_head by simp

end

section \<open>The implementations\<close>

interpretation dll: fifo_freelist
  "\<lambda>m h xs. holds_dll m h xs \<and> h \<notin> set xs" initDLL isDLLEmpty insertDLLTail removeDLLHead
proof (unfold_locales, goal_cases)
  case (1 m h xs) then show ?case by (simp add: holds_dll_def)
next
  case (2 m h xs x) then show ?case using holds_dll_next by blast
next
  case (3 h m) show ?case by (simp add: initDLL_holds)
next
  case (4 m k ys h) then show ?case by (simp add: initDLL_def holds_dll_def)
next
  case (5 p h m) show ?case by (simp add: initDLL_def)
next
  case (6 m h xs) then show ?case by (simp add: isDLLEmpty_iff)
next
  case (7 m h xs node)
  then have "holds_dll (insertDLLTail node h m) h (xs @ [node])" by (simp add: insertDLLTail_holds)
  with 7 show ?case by (intro exI [of _ "xs @ [node]"]) auto
next
  case (8 m h xs k ys node)
  then have sep: "set (node # h # xs) \<inter> set ys = {}" and h: "holds_dll m h xs" by simp_all
  have "\<forall>y\<in>set ys. snext (insertDLLTail node h m) y = snext m y"
  proof (intro ballI insertDLLTail_next [OF h])
    fix y assume "y \<in> set ys"
    with sep have "y \<notin> set (node # h # xs)" by blast
    then show "y \<notin> set xs" and "y \<noteq> node" by simp_all
  qed
  with 8 show ?case using holds_dll_frame [of m k ys] by (simp add: insertDLLTail_other)
next
  case (9 m h xs p node)
  then show ?case by (auto intro!: insertDLLTail_next)
next
  case (10 m h xs)
  then obtain x ys where xs: "xs = x # ys" by (cases xs) auto
  with 10 obtain m' where "removeDLLHead h m = Some (x, m')" "holds_dll m' h ys"
    using removeDLLHead_holds [of m h x ys] by auto
  with xs 10 show ?case by (intro exI [of _ x] exI [of _ ys] exI [of _ m']) auto
next
  case (11 h m x m' k ys)
  then show ?case
    by (auto simp: removeDLLHead_def Let_def holds_dll_def split: if_splits)
next
  case (12 h m x m' p)
  then show ?case by (auto simp: removeDLLHead_def Let_def split: if_splits)
next
  case (13 m h xs p v)
  then have "\<forall>x\<in>set xs. snext (set_next p v m) x = snext m x" by auto
  with 13 show ?case using holds_dll_frame [of m h xs] by (simp add: set_next_def)
next
  case (14 m h xs node) then show ?case by (simp add: insertDLLTail_holds)
next
  case (15 m h x xs) then show ?case using removeDLLHead_holds [of m h x xs] by auto
qed

interpretation sll: freelist
  "\<lambda>m h xs. holds_sll (snext m) h xs" "\<lambda>h m. m\<lparr> snext := initSLL h (snext m) \<rparr>"
  "\<lambda>h m. isSLLEmpty h (snext m)" "\<lambda>node h m. m\<lparr> snext := insertSLLHead node h (snext m) \<rparr>"
  "\<lambda>h m. case removeSLLHead h (snext m) of None \<Rightarrow> None | Some (x, nx) \<Rightarrow> Some (x, m\<lparr> snext := nx \<rparr>)"
proof (unfold_locales, goal_cases)
  case (1 m h xs) then show ?case by (simp add: holds_sll_def)
next
  case (2 m h xs x) then show ?case using holds_sll_next by blast
next
  case (3 h m) show ?case by (simp add: initSLL_holds)
next
  case (4 m k ys h) then show ?case by (simp add: initSLL_def holds_sll_other)
next
  case (5 p h m) then show ?case by (simp add: initSLL_def)
next
  case (6 m h xs) then show ?case by (simp add: isSLLEmpty_iff)
next
  case (7 m h xs node)
  then have "holds_sll (insertSLLHead node h (snext m)) h (node # xs)" by (simp add: insertSLLHead_holds)
  then show ?case by (intro exI [of _ "node # xs"]) simp
next
  case (8 m h xs k ys node)
  then show ?case by (simp add: insertSLLHead_def Let_def holds_sll_other)
next
  case (9 m h xs p node)
  then show ?case by (simp add: insertSLLHead_def)
next
  case (10 m h xs)
  then obtain x ys where xs: "xs = x # ys" by (cases xs) auto
  with 10 removeSLLHead_holds [of "snext m" h x ys] show ?case
    by (intro exI [of _ x] exI [of _ ys] exI [of _ "m\<lparr>snext := (snext m)(h := snext m x)\<rparr>"]) simp
next
  case (11 h m x m' k ys)
  then show ?case
    by (auto simp: removeSLLHead_def Let_def holds_sll_other split: if_splits)
next
  case (12 h m x m' p)
  then show ?case by (auto simp: removeSLLHead_def Let_def split: if_splits)
next
  case (13 m h xs p v)
  then show ?case by (simp add: holds_sll_other)
qed

text \<open>The macros, for any build: each law is the one of the selected list.\<close>

interpretation fl: freelist
  "freelist_holds c" "FREELIST_INIT c" "IS_FREELIST_EMPTY c" "FREELIST_INSERT c" "FREELIST_REMOVE c"
  for c :: build
proof (cases "FIFO_FREELIST c")
  case True
  then have "freelist_holds c = (\<lambda>m h xs. holds_dll m h xs \<and> h \<notin> set xs)"
    "FREELIST_INIT c = initDLL" "IS_FREELIST_EMPTY c = isDLLEmpty"
    "FREELIST_INSERT c = insertDLLTail" "FREELIST_REMOVE c = removeDLLHead"
    by (auto simp: fun_eq_iff freelist_holds_def FREELIST_INIT_def IS_FREELIST_EMPTY_def
        FREELIST_INSERT_def FREELIST_REMOVE_def)
  then show "freelist (freelist_holds c) (FREELIST_INIT c) (IS_FREELIST_EMPTY c)
      (FREELIST_INSERT c) (FREELIST_REMOVE c)"
    using dll.freelist_axioms by simp
next
  case False
  then have "freelist_holds c = (\<lambda>m h xs. holds_sll (snext m) h xs)"
    "FREELIST_INIT c = (\<lambda>h m. m\<lparr> snext := initSLL h (snext m) \<rparr>)"
    "IS_FREELIST_EMPTY c = (\<lambda>h m. isSLLEmpty h (snext m))"
    "FREELIST_INSERT c = (\<lambda>node h m. m\<lparr> snext := insertSLLHead node h (snext m) \<rparr>)"
    "FREELIST_REMOVE c = (\<lambda>h m. case removeSLLHead h (snext m) of None \<Rightarrow> None
      | Some (x, nx) \<Rightarrow> Some (x, m\<lparr> snext := nx \<rparr>))"
    by (auto simp: fun_eq_iff freelist_holds_def FREELIST_INIT_def IS_FREELIST_EMPTY_def
        FREELIST_INSERT_def FREELIST_REMOVE_def)
  then show "freelist (freelist_holds c) (FREELIST_INIT c) (IS_FREELIST_EMPTY c)
      (FREELIST_INSERT c) (FREELIST_REMOVE c)"
    using sll.freelist_axioms by simp
qed

end
