(* ===== verification/BibopInit.thy ===== *)
theory BibopInit
  imports MM Freelist
begin

text \<open>
  The data of \<open>class BibopHeap\<close> and \<open>BibopHeap::initialize\<close> (\<open>bibopheap.hh\<close>, lines
  41-317): the geometry of the heap and of its shadow memory, one \<open>PerThreadBag\<close> per
  thread and size class, the guard pages at the end of the bags.

  A pointer to a \<open>PerThreadBag\<close> is its pair of array indices; an array of the class is a
  list.  The free-list headers live in the memory of \<open>Freelist\<close>: \<open>freelist_addr\<close> is the
  address of \<open>_threadBag[t][b].freelist[s]\<close> and \<open>cfreelist_addr\<close> the address of
  \<open>_threadBag[t][b].cfreelist\<close>.

  The \<open>assert\<close>s end an unoptimised build only (\<open>NDEBUG\<close>).  The lemmas give the closed form
  of every bag that the two loops of \<open>initialize\<close> set up.
\<close>

section \<open>State\<close>

record PerThreadBag =
  position :: "addr list"
  lastofCurBag :: "addr list"
  numObjects :: u32
  lastObjectIndex :: u32
  bagNum :: nat
  threadIndex :: nat
  classMask :: size_t
  classSize :: size_t
  shiftBits :: nat
  startOffset :: size_t
  startShadowMemOffset :: size_t
  nextHeapObjectOffset :: size_t
  nextShadowHeapObjectOffset :: size_t
  ncfree :: u32
  cflthreshold :: u32
  guardsize :: size_t
  guardoffset :: size_t

record geometry =
  heapBegin :: addr
  heapEnd :: addr
  heapMask :: size_t
  heapSizeShiftBits :: nat
  shadowMemBegin :: addr
  shadowMemEnd :: addr
  shadowMemSizePerHeap :: size_t
  shadowMemSizePerHeapCeil :: size_t
  shadowMemSizePerHeapCeilShiftBits :: nat
  shadowMemSizePerHeapMask :: size_t
  shadowObjectInfoSize :: size_t
  shadowObjectInfoSizeShiftBits :: nat
  numUsableBags :: nat
  lastUsableBag :: nat
  bibopBagSize :: size_t
  firstBagPower :: nat
  threadSize :: size_t
  threadShiftBits :: nat
  bagShiftBits :: nat
  bagMask :: size_t
  numObjectsPerHeap :: size_t
  numObjectsPerSubHeap :: size_t
  numBagsPerHeap :: size_t
  numBagsPerSubHeapMask :: size_t
  numBagsPerHeapShiftBits :: nat

text \<open>The whole heap: geometry, bags, the list memory, the bytes of the heap area, the
  external calls made and the state of the random number generator.  \<open>threadBagAddr\<close> is
  the address of the array \<open>_threadBag\<close>.\<close>

record 'r bibop =
  geom :: geometry
  threadBagAddr :: addr
  threadBag :: "PerThreadBag list list"
  lists :: dlist_mem
  bytes :: "addr \<Rightarrow> byte"
  calls :: trace
  rng :: 'r

text \<open>The object is built in a static buffer, so a bag that \<open>initialize\<close> leaves alone is
  all zeros.\<close>

definition zero_bag :: PerThreadBag where
  "zero_bag = \<lparr> position = replicate BIBOP_BAG_SET_SIZE 0,
     lastofCurBag = replicate BIBOP_BAG_SET_SIZE 0, numObjects = 0, lastObjectIndex = 0,
     bagNum = 0, threadIndex = 0, classMask = 0, classSize = 0, shiftBits = 0,
     startOffset = 0, startShadowMemOffset = 0, nextHeapObjectOffset = 0,
     nextShadowHeapObjectOffset = 0, ncfree = 0, cflthreshold = 0, guardsize = 0,
     guardoffset = 0 \<rparr>"

text \<open>\<open>sizeof(PerThreadBag)\<close> is 256 in every build (the members take 200 to 248 bytes and
  the class is aligned to the 64-byte cache line); the array \<open>freelist\<close> is the first
  member, and \<open>cfreelist\<close> follows at an offset that depends on the list type.\<close>

definition sizeof_PerThreadBag :: nat where "sizeof_PerThreadBag = 256"
definition sizeof_FREELIST_TYPE :: "build \<Rightarrow> nat" where
  "sizeof_FREELIST_TYPE c = (if FIFO_FREELIST c then 16 else 8)"

definition bag_addr :: "build \<Rightarrow> addr \<Rightarrow> nat \<Rightarrow> nat \<Rightarrow> addr" where
  "bag_addr c base t b = base + of_nat ((t * BIBOP_NUM_BAGS c + b) * sizeof_PerThreadBag)"

definition freelist_addr :: "build \<Rightarrow> addr \<Rightarrow> nat \<Rightarrow> nat \<Rightarrow> nat \<Rightarrow> addr" where
  "freelist_addr c base t b s = bag_addr c base t b + of_nat (s * sizeof_FREELIST_TYPE c)"

definition cfreelist_addr :: "build \<Rightarrow> addr \<Rightarrow> nat \<Rightarrow> nat \<Rightarrow> addr" where
  "cfreelist_addr c base t b = bag_addr c base t b +
     of_nat (BIBOP_BAG_SET_SIZE * sizeof_FREELIST_TYPE c + 16 + 32 + 32 + 16 + 7 * 8)"

section \<open>Guard pages\<close>

definition getLastOfBag :: "size_t \<Rightarrow> addr \<Rightarrow> size_t \<Rightarrow> size_t \<Rightarrow> addr" where
  "getLastOfBag bagSize start goff csize = start + bagSize - goff - csize"

definition setGuardPage :: "env \<Rightarrow> size_t \<Rightarrow> addr \<Rightarrow> size_t \<Rightarrow> size_t \<Rightarrow> trace \<Rightarrow> trace" where
  "setGuardPage env bagSize bagStartAddr gsize goff tr =
    (if gsize = 0 then tr
     else
       let guardaddr = bagStartAddr + bagSize;
           guardaddr1 = guardaddr - goff
       in snd (ext env (Mprotect guardaddr1 gsize) tr))"

text \<open>The guard of a bag (lines 214-232): its size and how far it reaches back from the
  end of the bag.  The count of unusable bags is 32-bit unsigned arithmetic.\<close>

definition bag_guard :: "build \<Rightarrow> size_t \<Rightarrow> size_t \<Rightarrow> bool \<Rightarrow> size_t \<Rightarrow> size_t \<times> size_t" where
  "bag_guard c bagSize lastUsableBagSize is_last csize =
    (if ENABLE_GUARDPAGE c then
       let gsize = (if csize > of_nat PAGESIZE then csize else of_nat PAGESIZE);
           goff = gsize
       in if is_last then
            let goff1 = (if bagSize = lastUsableBagSize then 0 else goff);
                gsize1 = (if bagSize = lastUsableBagSize then 0 else gsize);
                unusable = (of_nat (BIBOP_NUM_BAGS c) - of_nat (LOG2 lastUsableBagSize)
                  + of_nat (LOG2 (of_nat BIBOP_MIN_BLOCK_SIZE)) - 1 :: u32)
            in (gsize1 + ucast unusable * bagSize, goff1)
          else (gsize, goff)
     else (0, 0))"

definition bag_objects :: "build \<Rightarrow> size_t \<Rightarrow> size_t \<Rightarrow> size_t" where
  "bag_objects c bagSize csize =
    (let n = bagSize div csize
     in if ENABLE_GUARDPAGE c \<and> n > 1 then
          (if csize < PageSize then n - PageSize div csize else n - 1)
        else n)"

section \<open>The bags\<close>

text \<open>What the loops carry: \<open>offsetBag\<close>, \<open>offsetShadowMem\<close>, \<open>numCumObjects\<close>, and the
  memory and calls they change.\<close>

record init_acc =
  offsetBag :: size_t
  offsetShadowMem :: size_t
  numCumObjects :: size_t
  acc_lists :: dlist_mem
  acc_calls :: trace

record init_env =
  ie_build :: build
  ie_heapBegin :: addr
  ie_bagSize :: size_t
  ie_lastUsableBagSize :: size_t
  ie_lastUsableBag :: nat
  ie_infoSize :: size_t
  ie_threadBagAddr :: addr

text \<open>The record of one bag, from the loop variables (lines 197-267).  The field
  \<open>nextShadowHeapObjectOffset\<close> is set by the second loop.\<close>

definition make_bag :: "init_env \<Rightarrow> nat \<Rightarrow> nat \<Rightarrow> size_t \<Rightarrow> nat \<Rightarrow> size_t \<Rightarrow> size_t \<Rightarrow> PerThreadBag" where
  "make_bag ie threadNum bagN csize sbits offBag offShadow =
    (let c = ie_build ie; bagSize = ie_bagSize ie;
         (gsize, goff) = bag_guard c bagSize (ie_lastUsableBagSize ie)
            (bagN = ie_lastUsableBag ie) csize;
         heapSize = BIBOP_HEAP_SIZE c bagSize;
         pos = map (\<lambda>item. ie_heapBegin ie + offBag + of_nat item * heapSize) [0..<BIBOP_BAG_SET_SIZE];
         numBagObjects = bag_objects c bagSize csize
     in \<lparr> position = pos,
          lastofCurBag = map (\<lambda>p. getLastOfBag bagSize p goff csize) pos,
          numObjects = ucast numBagObjects,
          lastObjectIndex = ucast (numBagObjects - 1),
          bagNum = bagN,
          threadIndex = threadNum,
          classMask = csize - 1,
          classSize = csize,
          shiftBits = sbits,
          startOffset = offBag,
          startShadowMemOffset = offShadow,
          nextHeapObjectOffset = heapSize * (of_nat BIBOP_BAG_SET_SIZE - 1) +
            (heapSize - bagSize + csize + goff),
          nextShadowHeapObjectOffset = 0,
          ncfree = 0,
          cflthreshold = ucast (numBagObjects div of_nat CACHEDFREELIST_THRESHOLD_RATIO_BYBAG),
          guardsize = gsize,
          guardoffset = goff \<rparr>)"

text \<open>The effects of the same iteration: the free lists are emptied, and with
  \<open>ENABLE_GUARDPAGE\<close> every position gets its guard page.\<close>

fun init_lists :: "init_env \<Rightarrow> nat \<Rightarrow> nat \<Rightarrow> nat list \<Rightarrow> dlist_mem \<Rightarrow> dlist_mem" where
  "init_lists ie t b [] m = m"
| "init_lists ie t b (s # ss) m =
     init_lists ie t b ss
       (FREELIST_INIT (ie_build ie) (freelist_addr (ie_build ie) (ie_threadBagAddr ie) t b s) m)"

fun guard_positions :: "env \<Rightarrow> size_t \<Rightarrow> size_t \<Rightarrow> size_t \<Rightarrow> addr list \<Rightarrow> trace \<Rightarrow> trace" where
  "guard_positions env bagSize gsize goff [] tr = tr"
| "guard_positions env bagSize gsize goff (p # ps) tr =
     guard_positions env bagSize gsize goff ps (setGuardPage env bagSize p gsize goff tr)"

definition init_bag_effects :: "env \<Rightarrow> init_env \<Rightarrow> nat \<Rightarrow> nat \<Rightarrow> PerThreadBag \<Rightarrow> init_acc \<Rightarrow> init_acc" where
  "init_bag_effects env ie t b bag acc =
    (let c = ie_build ie;
         m = init_lists ie t b [0..<BIBOP_BAG_SET_SIZE] (acc_lists acc);
         m1 = m\<lparr> snext := initSLL (cfreelist_addr c (ie_threadBagAddr ie) t b) (snext m) \<rparr>;
         tr = (if ENABLE_GUARDPAGE c
               then guard_positions env (ie_bagSize ie) (guardsize bag) (guardoffset bag)
                      (position bag) (acc_calls acc)
               else acc_calls acc);
         n = bag_objects c (ie_bagSize ie) (classSize bag)
     in acc\<lparr> acc_lists := m1, acc_calls := tr,
          numCumObjects := numCumObjects acc + n,
          offsetBag := offsetBag acc + ie_bagSize ie,
          offsetShadowMem := offsetShadowMem acc + n * ie_infoSize ie \<rparr>)"

text \<open>The inner loop (\<open>bagNum\<close> from \<open>b\<close>, \<open>left\<close> iterations to go) and the outer loop over
  the threads.  The bags past \<open>_numUsableBags\<close> stay zero.\<close>

fun init_bags ::
  "env \<Rightarrow> init_env \<Rightarrow> nat \<Rightarrow> nat \<Rightarrow> nat \<Rightarrow> size_t \<Rightarrow> nat \<Rightarrow> init_acc \<Rightarrow> PerThreadBag list \<times> init_acc"
where
  "init_bags env ie t 0 b csize sbits acc = ([], acc)"
| "init_bags env ie t (Suc left) b csize sbits acc =
     (let bag = make_bag ie t b csize sbits (offsetBag acc) (offsetShadowMem acc);
          acc1 = init_bag_effects env ie t b bag acc;
          (bags, acc2) = init_bags env ie t left (Suc b) (csize * 2) (Suc sbits) acc1
      in (bag # bags, acc2))"

definition init_thread :: "env \<Rightarrow> init_env \<Rightarrow> nat \<Rightarrow> nat \<Rightarrow> init_acc \<Rightarrow> PerThreadBag list \<times> init_acc" where
  "init_thread env ie usable t acc =
    (let (bags, acc1) = init_bags env ie t usable 0 (of_nat BIBOP_MIN_BLOCK_SIZE)
            (LOG2 (of_nat BIBOP_MIN_BLOCK_SIZE)) acc;
         unused = BIBOP_NUM_BAGS (ie_build ie) - usable
     in (bags @ replicate unused zero_bag,
         acc1\<lparr> offsetBag := offsetBag acc1 + of_nat unused * ie_bagSize ie \<rparr>))"

fun init_threads :: "env \<Rightarrow> init_env \<Rightarrow> nat \<Rightarrow> nat \<Rightarrow> nat \<Rightarrow> init_acc \<Rightarrow> PerThreadBag list list \<times> init_acc" where
  "init_threads env ie usable 0 t acc = ([], acc)"
| "init_threads env ie usable (Suc left) t acc =
     (let (bags, acc1) = init_thread env ie usable t acc;
          (rest, acc2) = init_threads env ie usable left (Suc t) acc1
      in (bags # rest, acc2))"

text \<open>The second loop (lines 290-296).\<close>

definition set_shadow_step :: "size_t \<Rightarrow> nat \<Rightarrow> PerThreadBag \<Rightarrow> PerThreadBag" where
  "set_shadow_step ceil infoShift bag =
    bag\<lparr> nextShadowHeapObjectOffset := ceil * of_nat BIBOP_BAG_SET_SIZE -
          push_bit infoShift (ucast (numObjects bag - 1)) \<rparr>"

definition set_shadow_steps :: "size_t \<Rightarrow> nat \<Rightarrow> nat \<Rightarrow> PerThreadBag list \<Rightarrow> PerThreadBag list" where
  "set_shadow_steps ceil infoShift usable bags =
    map (set_shadow_step ceil infoShift) (take usable bags) @ drop usable bags"

section \<open>initialize\<close>

fun bit_count :: "nat \<Rightarrow> nat" where
  "bit_count n = (if n = 0 then 0 else n mod 2 + bit_count (n div 2))"

declare bit_count.simps [simp del]

text \<open>The bag size (lines 132-137); \<open>rnd\<close> is the value of \<open>getRandomNumber()\<close>, converted
  to unsigned by the remainder.\<close>

definition choose_bag_size :: "build \<Rightarrow> u32 \<Rightarrow> size_t" where
  "choose_bag_size c rnd =
    (case BIBOP_BAG_SIZE c of
       Some bs \<Rightarrow> bs
     | None \<Rightarrow>
         let randPower = rnd mod of_nat (LOG2 (of_nat (MAX_RANDOM_BAG_SIZE div MIN_RANDOM_BAG_SIZE)) + 1)
         in push_bit (unat randPower) (of_nat MIN_RANDOM_BAG_SIZE))"

definition bag_size_random :: "build \<Rightarrow> ('r \<Rightarrow> u32 \<times> 'r) \<Rightarrow> 'r \<Rightarrow> u32 \<times> 'r" where
  "bag_size_random c rnd rg = (case BIBOP_BAG_SIZE c of Some _ \<Rightarrow> (0, rg) | None \<Rightarrow> rnd rg)"

definition choose_usable_bags :: "build \<Rightarrow> size_t \<Rightarrow> size_t \<times> nat" where
  "choose_usable_bags c bagSize =
    (let lastUsableBagSize = (if bagSize > of_nat (LARGE_OBJECT_THRESHOLD c)
            then of_nat (LARGE_OBJECT_THRESHOLD c) else bagSize);
         n = LOG2 lastUsableBagSize - LOG2 (of_nat BIBOP_MIN_BLOCK_SIZE) + 1
     in (lastUsableBagSize, if n > BIBOP_NUM_BAGS c then BIBOP_NUM_BAGS c else n))"

definition init_asserts :: "build \<Rightarrow> size_t \<Rightarrow> bool" where
  "init_asserts c bagSize \<longleftrightarrow>
    NDEBUG c \<or>
    (BIBOP_HEAP_SIZE c bagSize \<noteq> 0 \<and>
     bit_count (sizeof_shadowObjectInfo c) = 1 \<and>
     bit_count BIBOP_BAG_SET_SIZE = 1 \<and>
     bagSize \<ge> of_nat (LARGE_OBJECT_THRESHOLD c))"

definition allocHeaps :: "env \<Rightarrow> size_t \<Rightarrow> trace \<Rightarrow> fg_error + (addr \<times> addr) \<times> trace" where
  "allocHeaps env heapSize tr =
    bindE (mmapAllocatePrivate env heapSize tr) (\<lambda>(p, tr1).
      Inr ((p, p + heapSize), snd (ext env (Madvise p heapSize) tr1)))"

definition allocShadowMem :: "env \<Rightarrow> size_t \<Rightarrow> trace \<Rightarrow> fg_error + (addr \<times> addr) \<times> trace" where
  "allocShadowMem env perHeap tr =
    (let total = of_nat BIBOP_NUM_HEAPS * perHeap
     in bindE (mmapAllocatePrivate env total tr) (\<lambda>(p, tr1).
          Inr ((p, p + total), snd (ext env (Madvise p total) tr1))))"

text \<open>The fields of the geometry that depend on the bag size only, and those set after the
  first loop (lines 279-287).  \<open>LOG2 (_shadowMemSizePerHeap)\<close> rounds up here: the bit length of
  the size minus one.\<close>

definition make_geometry :: "build \<Rightarrow> size_t \<Rightarrow> nat \<Rightarrow> addr \<times> addr \<Rightarrow> size_t \<Rightarrow> geometry" where
  "make_geometry c bagSize usable hp numCum =
    (let infoSize = of_nat (sizeof_shadowObjectInfo c);
         heapSize = BIBOP_HEAP_SIZE c bagSize;
         tSize = bagSize * of_nat (BIBOP_NUM_BAGS c);
         bagsPerHeap = of_nat (BIBOP_NUM_BAGS c * BIBOP_NUM_SUBHEAPS);
         perHeap = numCum * infoSize;
         ceilShift = 64 - builtin_clz (perHeap - 1);
         ceil = push_bit ceilShift 1
     in \<lparr> heapBegin = fst hp, heapEnd = snd hp,
          heapMask = heapSize - 1, heapSizeShiftBits = LOG2 heapSize,
          shadowMemBegin = 0, shadowMemEnd = 0,
          shadowMemSizePerHeap = perHeap, shadowMemSizePerHeapCeil = ceil,
          shadowMemSizePerHeapCeilShiftBits = ceilShift,
          shadowMemSizePerHeapMask = ceil - 1,
          shadowObjectInfoSize = infoSize, shadowObjectInfoSizeShiftBits = LOG2 infoSize,
          numUsableBags = usable, lastUsableBag = usable - 1,
          bibopBagSize = bagSize, firstBagPower = LOG2 (of_nat BIBOP_MIN_BLOCK_SIZE),
          threadSize = tSize, threadShiftBits = LOG2 tSize,
          bagShiftBits = LOG2 bagSize, bagMask = bagSize - 1,
          numObjectsPerHeap = numCum, numObjectsPerSubHeap = numCum div of_nat BIBOP_NUM_SUBHEAPS,
          numBagsPerHeap = bagsPerHeap, numBagsPerSubHeapMask = of_nat (BIBOP_NUM_BAGS c) - 1,
          numBagsPerHeapShiftBits = LOG2 bagsPerHeap \<rparr>)"

text \<open>\<open>initialize\<close>: \<open>st\<close> is the zeroed static object, with the memory, the calls so far and
  the generator of random numbers \<open>rnd\<close>.\<close>

definition initialize ::
  "env \<Rightarrow> build \<Rightarrow> ('r \<Rightarrow> u32 \<times> 'r) \<Rightarrow> 'r bibop \<Rightarrow> fg_error + addr \<times> 'r bibop"
where
  "initialize env c rnd st =
    (let (r, rg) = bag_size_random c rnd (rng st);
         bagSize = choose_bag_size c r;
         (lastUsableBagSize, usable) = choose_usable_bags c bagSize;
         totalHeapSize = of_nat BIBOP_NUM_HEAPS * BIBOP_HEAP_SIZE c bagSize
     in if \<not> init_asserts c bagSize then Inl Assert_failed
        else bindE (allocHeaps env totalHeapSize (calls st)) (\<lambda>(hp, tr1).
          let ie = \<lparr> ie_build = c, ie_heapBegin = fst hp, ie_bagSize = bagSize,
                ie_lastUsableBagSize = lastUsableBagSize, ie_lastUsableBag = usable - 1,
                ie_infoSize = of_nat (sizeof_shadowObjectInfo c),
                ie_threadBagAddr = threadBagAddr st \<rparr>;
              acc0 = \<lparr> offsetBag = 0, offsetShadowMem = 0, numCumObjects = 0,
                acc_lists = lists st, acc_calls = tr1 \<rparr>;
              (bags, acc) = init_threads env ie usable MAX_ALIVE_THREADS 0 acc0;
              g = make_geometry c bagSize usable hp (numCumObjects acc);
              bags1 = map (set_shadow_steps (shadowMemSizePerHeapCeil g)
                        (shadowObjectInfoSizeShiftBits g) usable) bags
          in bindE (allocShadowMem env (shadowMemSizePerHeap g) (acc_calls acc)) (\<lambda>(sp, tr2).
               Inr (fst hp,
                 st\<lparr> geom := g\<lparr> shadowMemBegin := fst sp, shadowMemEnd := snd sp \<rparr>,
                     threadBag := bags1, lists := acc_lists acc, calls := tr2, rng := rg \<rparr>))))"

end
