(* ===== verification/BibopGeometry.thy ===== *)
theory BibopGeometry
  imports BibopInit
begin

text \<open>
  The geometry as arithmetic on natural numbers.  For a bag size \<open>2^k\<close> the functions
  below give the number of usable bags, the objects and the guard of a bag, the place of a
  bag in its heap and in the shadow memory; the lemmas show that \<open>initialize\<close> computes
  exactly these numbers, in machine words and without overflow.
\<close>

section \<open>Sizes\<close>

definition large_shift :: "build \<Rightarrow> nat" where
  "large_shift c = (if MANYBAGS c then 22 else 19)"
definition bags_shift :: "build \<Rightarrow> nat" where
  "bags_shift c = (if MANYBAGS c then 5 else 4)"
definition usable_bags :: "build \<Rightarrow> nat" where
  "usable_bags c = large_shift c - 3"
definition info_shift :: "build \<Rightarrow> nat" where
  "info_shift c = (if DETECT_UAF_BO c then 5 else 3)"

text \<open>The bag sizes the code allows: at least the large-object threshold (the last
  assertion of \<open>initialize\<close>), at most 16 MB.\<close>

definition bag_shift_ok :: "build \<Rightarrow> nat \<Rightarrow> bool" where
  "bag_shift_ok c k \<longleftrightarrow> large_shift c \<le> k \<and> k \<le> 24"

definition guard_reach :: "build \<Rightarrow> nat \<Rightarrow> nat \<Rightarrow> nat" where
  "guard_reach c k b =
    (if ENABLE_GUARDPAGE c \<and> \<not> (b = usable_bags c - 1 \<and> k = large_shift c)
     then max (2 ^ (4 + b)) 4096 else 0)"

definition guard_len :: "build \<Rightarrow> nat \<Rightarrow> nat \<Rightarrow> nat" where
  "guard_len c k b =
    (if ENABLE_GUARDPAGE c
     then guard_reach c k b +
       (if b = usable_bags c - 1 then (BIBOP_NUM_BAGS c - usable_bags c) * 2 ^ k else 0)
     else 0)"

definition objects :: "build \<Rightarrow> nat \<Rightarrow> nat \<Rightarrow> nat" where
  "objects c k b = (2 ^ k - guard_reach c k b) div 2 ^ (4 + b)"

definition objects_below :: "build \<Rightarrow> nat \<Rightarrow> nat \<Rightarrow> nat" where
  "objects_below c k b = (\<Sum>i<b. objects c k i)"

definition objects_per_thread :: "build \<Rightarrow> nat \<Rightarrow> nat" where
  "objects_per_thread c k = objects_below c k (usable_bags c)"

definition shadow_per_heap :: "build \<Rightarrow> nat \<Rightarrow> nat" where
  "shadow_per_heap c k = MAX_ALIVE_THREADS * objects_per_thread c k * 2 ^ info_shift c"

definition ceil_shift :: "build \<Rightarrow> nat \<Rightarrow> nat" where
  "ceil_shift c k = bit_len (shadow_per_heap c k - 1)"

definition heap_shift :: "build \<Rightarrow> nat \<Rightarrow> nat" where
  "heap_shift c k = 7 + bags_shift c + k"

lemmas size_defs = large_shift_def bags_shift_def usable_bags_def info_shift_def bag_shift_ok_def

lemma usable_less_bags: "usable_bags c \<le> BIBOP_NUM_BAGS c" "0 < usable_bags c"
  by (simp_all add: size_defs BIBOP_NUM_BAGS_def)

lemma bags_power: "BIBOP_NUM_BAGS c = 2 ^ bags_shift c"
  by (simp add: BIBOP_NUM_BAGS_def bags_shift_def)

lemma threshold_power: "LARGE_OBJECT_THRESHOLD c = 2 ^ large_shift c"
  by (simp add: LARGE_OBJECT_THRESHOLD_def MIN_RANDOM_BAG_SIZE_def large_shift_def)

lemma info_power: "sizeof_shadowObjectInfo c = 2 ^ info_shift c"
  by (simp add: sizeof_shadowObjectInfo_def info_shift_def)

lemma class_le_bag: "bag_shift_ok c k \<Longrightarrow> b < usable_bags c \<Longrightarrow> 4 + b \<le> k"
  by (auto simp: size_defs)

text \<open>The usable part of a bag is a whole number of objects, at least one.\<close>

lemma guard_reach_cases:
  assumes k: "bag_shift_ok c k" and b: "b < usable_bags c"
  shows "guard_reach c k b = 0 \<or>
    (\<exists>e. guard_reach c k b = 2 ^ e \<and> 4 + b \<le> e \<and> 12 \<le> e \<and> e < k \<and> e \<le> 22)"
proof (cases "guard_reach c k b = 0")
  case False
  then have g: "guard_reach c k b = max (2 ^ (4 + b)) 4096"
    and last: "\<not> (b = usable_bags c - 1 \<and> k = large_shift c)"
    by (auto simp: guard_reach_def split: if_splits)
  let ?e = "max (4 + b) 12"
  have "guard_reach c k b = 2 ^ ?e"
  proof (cases "4 + b \<le> 12")
    case True
    then have "(2::nat) ^ (4 + b) \<le> 2 ^ 12" by (rule power_increasing) simp
    with True show ?thesis unfolding g by (simp add: max_def)
  next
    case False
    then have "(2::nat) ^ 12 \<le> 2 ^ (4 + b)" by (intro power_increasing) simp_all
    with False show ?thesis unfolding g by (simp add: max_def)
  qed
  moreover have "?e < k \<and> ?e \<le> 22" using k b last by (auto simp: size_defs split: if_splits)
  ultimately show ?thesis by (intro disjI2 exI [of _ ?e]) auto
qed simp

lemma guard_reach_dvd:
  assumes "bag_shift_ok c k" "b < usable_bags c"
  shows "2 ^ (4 + b) dvd guard_reach c k b"
  using guard_reach_cases [OF assms] by (auto intro: le_imp_power_dvd)

lemma guard_reach_less:
  assumes "bag_shift_ok c k" "b < usable_bags c"
  shows "guard_reach c k b + 2 ^ (4 + b) \<le> 2 ^ k"
  using guard_reach_cases [OF assms]
proof
  assume "guard_reach c k b = 0"
  then show ?thesis using class_le_bag [OF assms] by (simp add: power_increasing)
next
  assume "\<exists>e. guard_reach c k b = 2 ^ e \<and> 4 + b \<le> e \<and> 12 \<le> e \<and> e < k \<and> e \<le> 22"
  then obtain e where e: "guard_reach c k b = 2 ^ e" "4 + b \<le> e" "e < k" by blast
  then have "(2::nat) ^ (4 + b) \<le> 2 ^ e" by (intro power_increasing) simp_all
  moreover have "(2::nat) ^ Suc e \<le> 2 ^ k" using e by (intro power_increasing) simp_all
  ultimately show ?thesis unfolding e(1) power_Suc by linarith
qed

lemma objects_times_class:
  assumes "bag_shift_ok c k" "b < usable_bags c"
  shows "objects c k b * 2 ^ (4 + b) = 2 ^ k - guard_reach c k b"
proof -
  have "2 ^ (4 + b) dvd (2::nat) ^ k" using class_le_bag [OF assms] by (rule le_imp_power_dvd)
  then have "2 ^ (4 + b) dvd 2 ^ k - guard_reach c k b"
    using guard_reach_dvd [OF assms] by (rule dvd_diff_nat)
  then show ?thesis unfolding objects_def by (rule dvd_div_mult_self)
qed

lemma objects_pos:
  assumes "bag_shift_ok c k" "b < usable_bags c"
  shows "0 < objects c k b"
proof -
  have "2 ^ (4 + b) \<le> 2 ^ k - guard_reach c k b"
    using guard_reach_less [OF assms] by linarith
  then show ?thesis unfolding objects_def by (simp add: div_greater_zero_iff)
qed

lemma objects_le: "4 + b \<le> k \<Longrightarrow> objects c k b \<le> 2 ^ (k - 4 - b)"
proof -
  assume "4 + b \<le> k"
  then have "(2::nat) ^ k = 2 ^ (k - 4 - b) * 2 ^ (4 + b)" by (simp flip: power_add)
  then have "2 ^ k div 2 ^ (4 + b) = (2::nat) ^ (k - 4 - b)" by simp
  moreover have "objects c k b \<le> 2 ^ k div 2 ^ (4 + b)"
    unfolding objects_def by (rule div_le_mono) simp
  ultimately show ?thesis by simp
qed

lemma objects_below_le_aux:
  "b + 3 \<le> k \<Longrightarrow> objects_below c k b + 2 ^ (k - 3 - b) \<le> 2 ^ (k - 3)"
proof (induction b)
  case 0
  then show ?case by (simp add: objects_below_def)
next
  case (Suc b)
  then have "objects c k b \<le> 2 ^ (k - 4 - b)" by (intro objects_le) simp
  moreover have "(2::nat) ^ (k - 3 - b) = 2 * 2 ^ (k - 4 - b)"
  proof -
    have "k - 3 - b = Suc (k - 4 - b)" using Suc.prems by simp
    then show ?thesis by simp
  qed
  moreover have "k - 3 - Suc b = k - 4 - b" by simp
  ultimately show ?case using Suc by (simp add: objects_below_def)
qed

lemma objects_below_le: "b + 3 \<le> k \<Longrightarrow> objects_below c k b \<le> 2 ^ (k - 3)"
  using objects_below_le_aux [of b k c] by simp

lemma objects_below_mono: "a \<le> b \<Longrightarrow> objects_below c k a \<le> objects_below c k b"
  unfolding objects_below_def by (rule sum_mono2) auto

lemma objects_below_Suc: "objects_below c k (Suc b) = objects_below c k b + objects c k b"
  by (simp add: objects_below_def)

lemma objects_per_thread_le: "bag_shift_ok c k \<Longrightarrow> objects_per_thread c k \<le> 2 ^ 21"
proof -
  assume k: "bag_shift_ok c k"
  then have "objects_per_thread c k \<le> 2 ^ (k - 3)"
    unfolding objects_per_thread_def by (intro objects_below_le) (auto simp: size_defs)
  also have "\<dots> \<le> 2 ^ 21" using k by (intro power_increasing) (auto simp: size_defs)
  finally show ?thesis .
qed

lemma objects_per_thread_pos: "bag_shift_ok c k \<Longrightarrow> 0 < objects_per_thread c k"
proof -
  assume k: "bag_shift_ok c k"
  have "0 < objects c k 0" by (rule objects_pos [OF k]) (simp add: usable_less_bags)
  then have "0 < objects_below c k (Suc 0)" by (simp add: objects_below_def)
  then show ?thesis
    unfolding objects_per_thread_def using usable_less_bags(2) [of c]
    by (metis Suc_leI less_le_trans objects_below_mono)
qed

lemma shadow_per_heap_bounds:
  assumes k: "bag_shift_ok c k"
  shows "0 < shadow_per_heap c k" and "shadow_per_heap c k \<le> 2 ^ 33"
proof -
  show "0 < shadow_per_heap c k"
    using objects_per_thread_pos [OF k] by (simp add: shadow_per_heap_def MAX_ALIVE_THREADS_def)
  have "MAX_ALIVE_THREADS * objects_per_thread c k \<le> 2 ^ 7 * 2 ^ 21"
    using objects_per_thread_le [OF k] by (simp add: MAX_ALIVE_THREADS_def)
  moreover have "(2::nat) ^ info_shift c \<le> 2 ^ 5" by (simp add: info_shift_def)
  ultimately have "shadow_per_heap c k \<le> (2 ^ 7 * 2 ^ 21) * 2 ^ 5"
    unfolding shadow_per_heap_def by (rule mult_le_mono)
  then show "shadow_per_heap c k \<le> 2 ^ 33" by simp
qed

lemma ceil_shift_le: "bag_shift_ok c k \<Longrightarrow> ceil_shift c k \<le> 33"
  using shadow_per_heap_bounds [of c k] by (auto simp: ceil_shift_def bit_len_le_iff)

lemma shadow_per_heap_le_ceil: "shadow_per_heap c k \<le> 2 ^ ceil_shift c k"
  using bit_len_upper [of "shadow_per_heap c k - 1"] by (simp add: ceil_shift_def)

section \<open>The words that initialize computes\<close>

lemma shift_lt_64:
  assumes "bag_shift_ok c k"
  shows "k \<le> 24" "heap_shift c k \<le> 36" "large_shift c \<le> 24" "bags_shift c + k \<le> 29"
  using assms by (auto simp: size_defs heap_shift_def)

lemma power_lt_64: "n < 64 \<Longrightarrow> (2::nat) ^ n < 18446744073709551616"
  using power_strict_increasing [of n 64 "2::nat"] by simp

lemma bag_size_lt: "bag_shift_ok c k \<Longrightarrow> (2::nat) ^ k \<le> 2 ^ 24"
  using shift_lt_64(1) by (intro power_increasing) auto

lemma heap_size_word: "BIBOP_HEAP_SIZE c (of_nat (2 ^ k)) = of_nat (2 ^ heap_shift c k)"
proof -
  have "(2::nat) ^ heap_shift c k = BIBOP_NUM_BAGS c * 2 ^ k * 128"
    by (simp add: bags_power heap_shift_def power_add)
  then show ?thesis
    by (simp add: BIBOP_HEAP_SIZE_def BIBOP_SUBHEAP_SIZE_def BIBOP_NUM_SUBHEAPS_def
        MAX_ALIVE_THREADS_def mult_ac)
qed

lemma class_word_lt: "b < usable_bags c \<Longrightarrow> (2::nat) ^ (4 + b) \<le> 2 ^ 22"
  by (intro power_increasing) (auto simp: size_defs split: if_splits)

lemma max_of_nat_word:
  "a < 2 ^ 64 \<Longrightarrow> b < 2 ^ 64 \<Longrightarrow>
    (if (of_nat a :: size_t) > of_nat b then of_nat a else of_nat b) = of_nat (max a b)"
  by (simp add: of_nat_less_word_iff max_def)

lemma bag_guard_word:
  assumes k: "bag_shift_ok c k" and b: "b < usable_bags c"
  shows "bag_guard c (of_nat (2 ^ k)) (of_nat (2 ^ large_shift c)) (b = usable_bags c - 1)
      (of_nat (2 ^ (4 + b))) = (of_nat (guard_len c k b), of_nat (guard_reach c k b))"
proof -
  have "(2::nat) ^ (4 + b) < 2 ^ 64" using class_word_lt [OF b] by (rule le_less_trans) simp
  then have gs: "(if (of_nat (2 ^ (4 + b)) :: size_t) > of_nat PAGESIZE then of_nat (2 ^ (4 + b))
      else of_nat PAGESIZE) = (of_nat (max (2 ^ (4 + b)) 4096) :: size_t)"
    by (subst max_of_nat_word) (simp_all add: PAGESIZE_def)
  have same: "(of_nat (2 ^ k) :: size_t) = of_nat (2 ^ large_shift c) \<longleftrightarrow> k = large_shift c"
    using shift_lt_64 [OF k] by (subst of_nat_eq_word_iff) (simp_all add: power_lt_64)
  have log: "LOG2 (of_nat (2 ^ large_shift c)) = large_shift c"
    "LOG2 (of_nat BIBOP_MIN_BLOCK_SIZE) = 4"
    using LOG2_of_nat_power [of "large_shift c"] LOG2_of_nat_power [of 4] shift_lt_64 [OF k]
    by (auto simp: BIBOP_MIN_BLOCK_SIZE_def)
  have unused: "(of_nat (BIBOP_NUM_BAGS c) - of_nat (large_shift c) + of_nat 4 - 1 :: u32)
      = of_nat (BIBOP_NUM_BAGS c - usable_bags c)"
    by (simp add: BIBOP_NUM_BAGS_def usable_bags_def large_shift_def)
  have "ucast (of_nat (BIBOP_NUM_BAGS c - usable_bags c) :: u32)
      = (of_nat (BIBOP_NUM_BAGS c - usable_bags c) :: size_t)"
    by (rule ucast_of_nat_less) (simp add: BIBOP_NUM_BAGS_def size_defs)
  then show ?thesis
    unfolding bag_guard_def Let_def log unused gs same
    by (auto simp: guard_len_def guard_reach_def)
qed

lemma bag_objects_word:
  assumes k: "bag_shift_ok c k" and b: "b < usable_bags c"
  shows "bag_objects c (of_nat (2 ^ k)) (of_nat (2 ^ (4 + b))) = of_nat (objects c k b)"
proof -
  let ?n = "2 ^ (k - 4 - b) :: nat"
  have kb: "4 + b \<le> k" using class_le_bag [OF k b] .
  then have eq: "(2::nat) ^ k = ?n * 2 ^ (4 + b)" by (simp flip: power_add)
  have lt: "(2::nat) ^ (4 + b) < 2 ^ 64" "(2::nat) ^ k < 2 ^ 64"
    using class_word_lt [OF b] bag_size_lt [OF k] by (auto intro: le_less_trans)
  have n: "(of_nat (2 ^ k) :: size_t) div of_nat (2 ^ (4 + b)) = of_nat ?n"
    using lt eq by (subst of_nat_div_word) simp_all
  have nlt: "?n < 2 ^ 64" using kb shift_lt_64(1) [OF k] power_lt_64 [of "k - 4 - b"] by simp
  have one: "(of_nat ?n :: size_t) > 1 \<longleftrightarrow> ?n > 1"
    using of_nat_less_word_iff [of 1 ?n, where ?'a = 64] nlt by simp
  have page: "(of_nat (2 ^ (4 + b)) :: size_t) < PageSize \<longleftrightarrow> 2 ^ (4 + b) < (4096::nat)"
    using of_nat_less_word_iff [of "2 ^ (4 + b)" 4096, where ?'a = 64] lt by (simp add: PageSize_def)
  have "?n > 1 \<longleftrightarrow> k - 4 - b \<noteq> 0"
    using one_less_power [of "2::nat" "k - 4 - b"] by (cases "k - 4 - b = 0") simp_all
  then have last: "?n > 1 \<longleftrightarrow> \<not> (b = usable_bags c - 1 \<and> k = large_shift c)"
    using k b by (auto simp: size_defs split: if_splits)
  show ?thesis
  proof (cases "ENABLE_GUARDPAGE c \<and> ?n > 1")
    case False
    then have "guard_reach c k b = 0" using last by (auto simp: guard_reach_def)
    then have "objects c k b = ?n" using eq by (simp add: objects_def)
    with False show ?thesis unfolding bag_objects_def Let_def n one by auto
  next
    case True
    then have reach: "guard_reach c k b = max (2 ^ (4 + b)) 4096"
      using last by (auto simp: guard_reach_def)
    have obj: "objects c k b * 2 ^ (4 + b) + guard_reach c k b = ?n * 2 ^ (4 + b)"
      using objects_times_class [OF k b] guard_reach_less [OF k b] eq by simp
    show ?thesis
    proof (cases "2 ^ (4 + b) < (4096::nat)")
      case small: True
      have "b < 8"
      proof (rule ccontr)
        assume "\<not> b < 8"
        then have "(2::nat) ^ 12 \<le> 2 ^ (4 + b)" by (intro power_increasing) simp_all
        with small show False by simp
      qed
      then have q: "(4096::nat) = 2 ^ (8 - b) * 2 ^ (4 + b)" by (simp flip: power_add)
      have "(4096::nat) div 2 ^ (4 + b) = 2 ^ (8 - b)" by (subst q) simp
      then have "PageSize div of_nat (2 ^ (4 + b)) = of_nat (2 ^ (8 - b))"
        using of_nat_div_word [of 4096 "2 ^ (4 + b)", where ?'a = 64] lt by (simp add: PageSize_def)
      moreover have "objects c k b + 2 ^ (8 - b) = ?n"
      proof -
        have "(objects c k b + 2 ^ (8 - b)) * 2 ^ (4 + b) = ?n * 2 ^ (4 + b)"
          using obj small q by (simp add: reach max_def algebra_simps)
        then show ?thesis by simp
      qed
      ultimately show ?thesis
        using True small unfolding bag_objects_def Let_def n one page
        by (metis (no_types, lifting) add_diff_cancel_right' of_nat_add)
    next
      case False
      then have "(objects c k b + 1) * 2 ^ (4 + b) = ?n * 2 ^ (4 + b)"
        using obj by (simp add: reach max_def algebra_simps)
      then have "objects c k b + 1 = ?n" by (simp only: mult_cancel2) simp
      then have "(of_nat ?n :: size_t) - 1 = of_nat (objects c k b)"
        by (metis add_diff_cancel_right' of_nat_1 of_nat_add)
      then show ?thesis using True False unfolding bag_objects_def Let_def n one page by auto
    qed
  qed
qed

end
