(* ===== verification/BibopLayout.thy ===== *)
theory BibopLayout
  imports BibopGeometry
begin

text \<open>
  What \<open>initialize\<close> leaves behind.  \<open>bag_off\<close> and \<open>bag_shadow\<close> place a bag in its heap
  and its shadow slots in the heap's shadow area; \<open>fresh_bag\<close> is the record of a bag and
  \<open>the_geometry\<close> the record of the geometry, both written with natural numbers.  The
  loops compute these records (\<open>init_threads_closed\<close>), and \<open>initialize_ok\<close> says that
  \<open>initialize\<close> returns the heap they describe.
\<close>

section \<open>Closed forms\<close>

definition bag_off :: "build \<Rightarrow> nat \<Rightarrow> nat \<Rightarrow> nat \<Rightarrow> nat" where
  "bag_off c k t b = (t * 2 ^ bags_shift c + b) * 2 ^ k"

definition bag_shadow :: "build \<Rightarrow> nat \<Rightarrow> nat \<Rightarrow> nat \<Rightarrow> nat" where
  "bag_shadow c k t b = (t * objects_per_thread c k + objects_below c k b) * 2 ^ info_shift c"

definition last_obj :: "build \<Rightarrow> nat \<Rightarrow> nat \<Rightarrow> nat" where
  "last_obj c k b = (objects c k b - 1) * 2 ^ (4 + b)"

definition fresh_bag :: "build \<Rightarrow> nat \<Rightarrow> addr \<Rightarrow> nat \<Rightarrow> nat \<Rightarrow> PerThreadBag" where
  "fresh_bag c k hb t b = \<lparr>
     position = map (\<lambda>s. hb + of_nat (s * 2 ^ heap_shift c k + bag_off c k t b)) [0..<4],
     lastofCurBag = map (\<lambda>s. hb + of_nat (s * 2 ^ heap_shift c k + bag_off c k t b + last_obj c k b))
        [0..<4],
     numObjects = of_nat (objects c k b),
     lastObjectIndex = of_nat (objects c k b - 1),
     bagNum = b, threadIndex = t,
     classMask = of_nat (2 ^ (4 + b) - 1), classSize = of_nat (2 ^ (4 + b)), shiftBits = 4 + b,
     startOffset = of_nat (bag_off c k t b),
     startShadowMemOffset = of_nat (bag_shadow c k t b),
     nextHeapObjectOffset = of_nat (4 * 2 ^ heap_shift c k - last_obj c k b),
     nextShadowHeapObjectOffset =
       of_nat (4 * 2 ^ ceil_shift c k - (objects c k b - 1) * 2 ^ info_shift c),
     ncfree = 0, cflthreshold = of_nat (objects c k b div 10),
     guardsize = of_nat (guard_len c k b), guardoffset = of_nat (guard_reach c k b) \<rparr>"

definition the_ie :: "build \<Rightarrow> nat \<Rightarrow> addr \<Rightarrow> addr \<Rightarrow> init_env" where
  "the_ie c k hb base = \<lparr> ie_build = c, ie_heapBegin = hb, ie_bagSize = of_nat (2 ^ k),
     ie_lastUsableBagSize = of_nat (2 ^ large_shift c), ie_lastUsableBag = usable_bags c - 1,
     ie_infoSize = of_nat (2 ^ info_shift c), ie_threadBagAddr = base \<rparr>"

lemma the_ie_simps:
  "ie_build (the_ie c k hb base) = c"
  "ie_bagSize (the_ie c k hb base) = of_nat (2 ^ k)"
  by (simp_all add: the_ie_def)

definition loop_bag :: "build \<Rightarrow> nat \<Rightarrow> addr \<Rightarrow> addr \<Rightarrow> nat \<Rightarrow> nat \<Rightarrow> PerThreadBag" where
  "loop_bag c k hb base t b = make_bag (the_ie c k hb base) t b (of_nat (2 ^ (4 + b))) (4 + b)
     (of_nat (bag_off c k t b)) (of_nat (bag_shadow c k t b))"

section \<open>One bag\<close>

lemma last_obj_eq:
  assumes "bag_shift_ok c k" "b < usable_bags c"
  shows "last_obj c k b + guard_reach c k b + 2 ^ (4 + b) = 2 ^ k"
proof -
  have "last_obj c k b = 2 ^ k - guard_reach c k b - 2 ^ (4 + b)"
    using objects_times_class [OF assms] by (simp add: last_obj_def diff_mult_distrib)
  then show ?thesis using guard_reach_less [OF assms] by simp
qed

lemma last_obj_word:
  assumes "bag_shift_ok c k" "b < usable_bags c"
  shows "(of_nat (2 ^ k) - of_nat (guard_reach c k b) - of_nat (2 ^ (4 + b)) :: size_t)
    = of_nat (last_obj c k b)"
proof -
  have "(of_nat (2 ^ k) :: size_t) =
      of_nat (last_obj c k b) + of_nat (guard_reach c k b) + of_nat (2 ^ (4 + b))"
    using arg_cong [OF last_obj_eq [OF assms], where f = "of_nat :: nat \<Rightarrow> size_t"]
    by (simp only: of_nat_add)
  then show ?thesis by (simp only: add_diff_cancel_right' add_implies_diff algebra_simps)
qed

lemma objects_lt:
  assumes "bag_shift_ok c k" "b < usable_bags c"
  shows "objects c k b \<le> 2 ^ 20"
proof -
  have "objects c k b \<le> 2 ^ (k - 4 - b)" using class_le_bag [OF assms] by (rule objects_le)
  also have "\<dots> \<le> 2 ^ 20" using assms(1) by (intro power_increasing) (auto simp: size_defs)
  finally show ?thesis .
qed

lemma thread_slots_le:
  assumes "b < usable_bags c" "t < MAX_ALIVE_THREADS" "i \<le> objects c k b"
  shows "(t * objects_per_thread c k + objects_below c k b + i) * 2 ^ info_shift c
    \<le> shadow_per_heap c k"
proof -
  have "objects_below c k b + i \<le> objects_below c k (Suc b)"
    using assms by (simp add: objects_below_Suc)
  also have "\<dots> \<le> objects_per_thread c k"
    unfolding objects_per_thread_def using assms by (intro objects_below_mono) simp
  finally have "t * objects_per_thread c k + objects_below c k b + i
      \<le> Suc t * objects_per_thread c k" by simp
  also have "\<dots> \<le> MAX_ALIVE_THREADS * objects_per_thread c k"
    using assms by (intro mult_le_mono1) simp
  finally show ?thesis unfolding shadow_per_heap_def by (rule mult_le_mono1)
qed

lemma bag_slots_le_ceil:
  assumes "b < usable_bags c" "i \<le> objects c k b"
  shows "i * 2 ^ info_shift c \<le> 2 ^ ceil_shift c k"
proof -
  have "i * 2 ^ info_shift c \<le> (0 * objects_per_thread c k + objects_below c k b + i) * 2 ^ info_shift c"
    by (intro mult_le_mono1) simp
  also have "\<dots> \<le> shadow_per_heap c k"
    using assms by (intro thread_slots_le) (simp_all add: MAX_ALIVE_THREADS_def)
  also have "\<dots> \<le> 2 ^ ceil_shift c k" by (rule shadow_per_heap_le_ceil)
  finally show ?thesis .
qed

lemma loop_bag_eq:
  assumes k: "bag_shift_ok c k" and b: "b < usable_bags c"
  shows "set_shadow_step (of_nat (2 ^ ceil_shift c k)) (info_shift c) (loop_bag c k hb base t b)
    = fresh_bag c k hb t b"
proof -
  let ?n = "objects c k b" and ?hs = "2 ^ heap_shift c k :: nat"
  have n: "0 < ?n" "?n \<le> 2 ^ 20" using objects_pos [OF k b] objects_lt [OF k b] by auto
  have pred: "(of_nat ?n - 1 :: size_t) = of_nat (?n - 1)" "(of_nat ?n - 1 :: u32) = of_nat (?n - 1)"
    using n by (simp_all add: of_nat_diff)
  have mask: "(of_nat (2 ^ (4 + b)) - 1 :: size_t) = of_nat (2 ^ (4 + b) - 1)"
    by (simp add: of_nat_diff)
  have pos: "hb + of_nat (bag_off c k t b) + of_nat s * of_nat ?hs
      = hb + of_nat (s * ?hs + bag_off c k t b)" for s
    by (simp add: algebra_simps)
  have last: "hb + of_nat (s * ?hs + bag_off c k t b) + of_nat (2 ^ k) - of_nat (guard_reach c k b)
      - of_nat (2 ^ (4 + b)) = hb + of_nat (s * ?hs + bag_off c k t b + last_obj c k b)" for s
    unfolding of_nat_add last_obj_word [OF k b, symmetric] by (simp add: algebra_simps)
  have lo: "last_obj c k b \<le> 4 * ?hs"
  proof -
    have "last_obj c k b \<le> 2 ^ k" using last_obj_eq [OF k b] by linarith
    also have "\<dots> \<le> ?hs" by (intro power_increasing) (simp_all add: heap_shift_def)
    finally show ?thesis by simp
  qed
  have next_heap: "of_nat ?hs * (of_nat 4 - 1) + (of_nat ?hs - of_nat (2 ^ k) + of_nat (2 ^ (4 + b))
      + of_nat (guard_reach c k b)) = (of_nat (4 * ?hs - last_obj c k b) :: size_t)"
    unfolding of_nat_diff [OF lo] last_obj_word [OF k b, symmetric] by (simp add: algebra_simps)
  have sh: "(?n - 1) * 2 ^ info_shift c \<le> 4 * 2 ^ ceil_shift c k"
    using bag_slots_le_ceil [OF b, of "?n - 1" k] by linarith
  have step: "of_nat (2 ^ ceil_shift c k) * of_nat 4 - push_bit (info_shift c) (ucast (of_nat (?n - 1) :: u32))
      = (of_nat (4 * 2 ^ ceil_shift c k - (?n - 1) * 2 ^ info_shift c) :: size_t)"
  proof -
    have "(ucast (of_nat (?n - 1) :: u32) :: size_t) = of_nat (?n - 1)"
      using n by (intro ucast_of_nat_less) simp
    then show ?thesis unfolding of_nat_diff [OF sh] push_bit_of_nat_word
      by (simp only: push_bit_of_nat_word of_nat_mult mult.commute)
  qed
  have tenth: "(of_nat ?n :: size_t) div of_nat 10 = of_nat (?n div 10)"
    using n by (intro of_nat_div_word) auto
  have u32: "(ucast (of_nat ?n :: size_t) :: u32) = of_nat ?n"
    "(ucast (of_nat (?n - 1) :: size_t) :: u32) = of_nat (?n - 1)"
    "(ucast (of_nat (?n div 10) :: size_t) :: u32) = of_nat (?n div 10)"
    using n by (intro ucast_of_nat_less; simp)+
  show ?thesis
    unfolding set_shadow_step_def loop_bag_def make_bag_def the_ie_def fresh_bag_def Let_def
      init_env.simps bag_guard_word [OF k b] bag_objects_word [OF k b] heap_size_word prod.case
      PerThreadBag.simps BIBOP_BAG_SET_SIZE_def CACHEDFREELIST_THRESHOLD_RATIO_BYBAG_def
      pos next_heap mask tenth pred(1) getLastOfBag_def map_map comp_def last
    by (simp only: PerThreadBag.simps u32 pred step)
qed

section \<open>The effects of the loops\<close>

definition all_headers :: "build \<Rightarrow> addr \<Rightarrow> addr set" where
  "all_headers c base =
    {freelist_addr c base t b s | t b s. t < MAX_ALIVE_THREADS \<and> b < BIBOP_NUM_BAGS c \<and> s < BIBOP_BAG_SET_SIZE}
    \<union> {cfreelist_addr c base t b | t b. t < MAX_ALIVE_THREADS \<and> b < BIBOP_NUM_BAGS c}"

definition guard_call :: "build \<Rightarrow> nat \<Rightarrow> addr \<Rightarrow> nat \<Rightarrow> nat \<Rightarrow> nat \<Rightarrow> ext_call" where
  "guard_call c k hb h t b =
    Mprotect (hb + of_nat (h * 2 ^ heap_shift c k + bag_off c k t b + 2 ^ k - guard_reach c k b))
      (of_nat (guard_len c k b))"

definition bag_guards :: "build \<Rightarrow> nat \<Rightarrow> addr \<Rightarrow> nat \<Rightarrow> nat \<Rightarrow> ext_call set" where
  "bag_guards c k hb t b =
    (if guard_len c k b = 0 then {} else (\<lambda>h. guard_call c k hb h t b) ` {..<4})"

text \<open>From \<open>acc\<close> to \<open>acc'\<close> the bags \<open>X\<close> got their empty lists and guards, and nothing
  else changed.\<close>

definition effects :: "build \<Rightarrow> nat \<Rightarrow> addr \<Rightarrow> addr \<Rightarrow> (nat \<times> nat) set \<Rightarrow> init_acc \<Rightarrow> init_acc \<Rightarrow> bool" where
  "effects c k hb base X acc acc' \<longleftrightarrow>
    (\<forall>h. freelist_holds c (acc_lists acc) h [] \<longrightarrow> freelist_holds c (acc_lists acc') h []) \<and>
    (\<forall>p. snext (acc_lists acc) p = 0 \<longrightarrow> snext (acc_lists acc') p = 0) \<and>
    (\<forall>(t, b)\<in>X. \<forall>s<BIBOP_BAG_SET_SIZE. freelist_holds c (acc_lists acc') (freelist_addr c base t b s) []) \<and>
    (\<forall>(t, b)\<in>X. snext (acc_lists acc') (cfreelist_addr c base t b) = 0) \<and>
    (\<forall>p. p \<notin> all_headers c base \<longrightarrow> snext (acc_lists acc') p = snext (acc_lists acc) p) \<and>
    set (acc_calls acc') = set (acc_calls acc) \<union> (\<Union>(t, b)\<in>X. bag_guards c k hb t b)"

lemma effects_refl: "effects c k hb base {} acc acc"
  by (simp add: effects_def)

lemma effects_trans:
  "effects c k hb base X a1 a2 \<Longrightarrow> effects c k hb base Y a2 a3 \<Longrightarrow> effects c k hb base (X \<union> Y) a1 a3"
  unfolding effects_def by (simp only: UN_Un) (auto split: prod.splits)

lemma freelist_holds_empty:
  "freelist_holds c m h [] \<longleftrightarrow>
    (if FIFO_FREELIST c then dnext m h = 0 \<and> dprev m h = 0 else snext m h = 0)"
  by (auto simp: freelist_holds_def holds_dll_def holds_sll_def)

text \<open>Two memories such that the second only has more empty lists, and differs only at
  headers.\<close>

definition cleaner :: "build \<Rightarrow> addr set \<Rightarrow> dlist_mem \<Rightarrow> dlist_mem \<Rightarrow> bool" where
  "cleaner c H m m' \<longleftrightarrow>
    (\<forall>h. freelist_holds c m h [] \<longrightarrow> freelist_holds c m' h []) \<and>
    (\<forall>p. snext m p = 0 \<longrightarrow> snext m' p = 0) \<and>
    (\<forall>p. p \<notin> H \<longrightarrow> snext m' p = snext m p)"

lemma cleaner_refl: "cleaner c H m m"
  by (simp add: cleaner_def)

lemma cleaner_trans: "cleaner c H m1 m2 \<Longrightarrow> cleaner c H m2 m3 \<Longrightarrow> cleaner c H m1 m3"
  by (simp add: cleaner_def)

lemma cleaner_INIT: "h \<in> H \<Longrightarrow> cleaner c H m (FREELIST_INIT c h m)"
  by (auto simp: cleaner_def freelist_holds_empty FREELIST_INIT_def initDLL_def initSLL_def)

lemma cleaner_initSLL: "h \<in> H \<Longrightarrow> cleaner c H m (m\<lparr> snext := initSLL h (snext m) \<rparr>)"
  by (auto simp: cleaner_def freelist_holds_empty initSLL_def)

lemma FREELIST_INIT_holds: "freelist_holds c (FREELIST_INIT c h m) h []"
  by (simp add: freelist_holds_empty FREELIST_INIT_def initDLL_def initSLL_def)

lemma init_lists_cleaner:
  assumes "t < MAX_ALIVE_THREADS" "b < BIBOP_NUM_BAGS c" "set ss \<subseteq> {..<BIBOP_BAG_SET_SIZE}"
  shows "cleaner c (all_headers c base) m (init_lists (the_ie c k hb base) t b ss m) \<and>
    (\<forall>s\<in>set ss. freelist_holds c (init_lists (the_ie c k hb base) t b ss m)
      (freelist_addr c base t b s) [])"
  using assms(3)
proof (induction ss arbitrary: m)
  case Nil
  then show ?case by (simp add: cleaner_refl)
next
  case (Cons s ss)
  let ?h = "freelist_addr c base t b s"
  let ?m1 = "FREELIST_INIT c ?h m"
  have "?h \<in> all_headers c base" using Cons.prems assms(1,2) by (auto simp: all_headers_def)
  then have "cleaner c (all_headers c base) m ?m1" by (rule cleaner_INIT)
  moreover have "cleaner c (all_headers c base) ?m1 (init_lists (the_ie c k hb base) t b ss ?m1)"
    and "\<forall>s\<in>set ss. freelist_holds c (init_lists (the_ie c k hb base) t b ss ?m1)
      (freelist_addr c base t b s) []"
    using Cons by simp_all
  moreover have "freelist_holds c (init_lists (the_ie c k hb base) t b ss ?m1) ?h []"
    using calculation(2) FREELIST_INIT_holds by (simp add: cleaner_def)
  ultimately show ?case by (auto simp: the_ie_def intro: cleaner_trans)
qed

lemma guard_positions_calls:
  "set (guard_positions env B gsize goff ps tr) =
    set tr \<union> (if gsize = 0 then {} else (\<lambda>p. Mprotect (p + B - goff) gsize) ` set ps)"
  by (induction ps arbitrary: tr) (auto simp: setGuardPage_def ext_def Let_def)

lemma guard_len_lt:
  assumes "bag_shift_ok c k" "b < usable_bags c"
  shows "guard_len c k b < 2 ^ 30"
proof -
  have "guard_reach c k b \<le> 2 ^ 24"
    using guard_reach_less [OF assms] bag_size_lt [OF assms(1)] by linarith
  moreover have "(BIBOP_NUM_BAGS c - usable_bags c) * 2 ^ k \<le> 16 * 2 ^ 24"
    using bag_size_lt [OF assms(1)]
    by (intro mult_le_mono) (simp_all add: BIBOP_NUM_BAGS_def size_defs)
  moreover have "guard_len c k b \<le> guard_reach c k b + (BIBOP_NUM_BAGS c - usable_bags c) * 2 ^ k"
    by (simp add: guard_len_def)
  ultimately show ?thesis by simp
qed

lemma init_bag_effects_ok:
  assumes k: "bag_shift_ok c k" and b: "b < usable_bags c" and t: "t < MAX_ALIVE_THREADS"
  shows "effects c k hb base {(t, b)} acc
    (init_bag_effects env (the_ie c k hb base) t b (loop_bag c k hb base t b) acc)"
proof -
  let ?ie = "the_ie c k hb base" and ?acc = "init_bag_effects env (the_ie c k hb base) t b (loop_bag c k hb base t b) acc"
  let ?m = "init_lists ?ie t b [0..<BIBOP_BAG_SET_SIZE] (acc_lists acc)"
  let ?cf = "cfreelist_addr c base t b"
  have bn: "b < BIBOP_NUM_BAGS c" using b usable_less_bags(1) by (rule less_le_trans)
  have m1: "acc_lists ?acc = ?m\<lparr> snext := initSLL ?cf (snext ?m) \<rparr>"
    by (simp add: init_bag_effects_def the_ie_def Let_def)
  have cf: "?cf \<in> all_headers c base" using t bn by (auto simp: all_headers_def)
  have "set [0..<BIBOP_BAG_SET_SIZE] \<subseteq> {..<BIBOP_BAG_SET_SIZE}" by auto
  note il = init_lists_cleaner [OF t bn this, of base "acc_lists acc" k hb]
  have cl: "cleaner c (all_headers c base) (acc_lists acc) (acc_lists ?acc)"
    unfolding m1 by (rule cleaner_trans [OF conjunct1 [OF il] cleaner_initSLL [OF cf]])
  have fl: "\<forall>s<BIBOP_BAG_SET_SIZE. freelist_holds c (acc_lists ?acc) (freelist_addr c base t b s) []"
    unfolding m1 using il cleaner_initSLL [OF cf, of c ?m] by (auto simp: cleaner_def)
  have z: "snext (acc_lists ?acc) ?cf = 0" unfolding m1 by (simp add: initSLL_def)
  let ?bag = "set_shadow_step (of_nat (2 ^ ceil_shift c k)) (info_shift c) (loop_bag c k hb base t b)"
  have bag: "?bag = fresh_bag c k hb t b" using k b by (rule loop_bag_eq)
  have fields: "position (loop_bag c k hb base t b) = position (fresh_bag c k hb t b)"
    "guardsize (loop_bag c k hb base t b) = of_nat (guard_len c k b)"
    "guardoffset (loop_bag c k hb base t b) = of_nat (guard_reach c k b)"
    using arg_cong [OF bag, of position] arg_cong [OF bag, of guardsize] arg_cong [OF bag, of guardoffset]
    by (simp_all add: set_shadow_step_def fresh_bag_def)
  have gz: "(of_nat (guard_len c k b) :: size_t) = 0 \<longleftrightarrow> guard_len c k b = 0"
    using guard_len_lt [OF k b] of_nat_eq_word_iff [of "guard_len c k b" 0, where ?'a = 64] by simp
  have place: "hb + of_nat (s * 2 ^ heap_shift c k + bag_off c k t b) + of_nat (2 ^ k)
      - of_nat (guard_reach c k b)
      = hb + of_nat (s * 2 ^ heap_shift c k + bag_off c k t b + 2 ^ k - guard_reach c k b)" for s
  proof -
    have "guard_reach c k b \<le> s * 2 ^ heap_shift c k + bag_off c k t b + 2 ^ k"
      using guard_reach_less [OF k b] by linarith
    then show ?thesis by (simp add: of_nat_diff)
  qed
  have calls: "set (acc_calls ?acc) = set (acc_calls acc) \<union> bag_guards c k hb t b"
  proof (cases "ENABLE_GUARDPAGE c")
    case False
    then show ?thesis by (simp add: init_bag_effects_def the_ie_def Let_def bag_guards_def guard_len_def)
  next
    case True
    have "set (acc_calls ?acc) = set (acc_calls acc) \<union>
      (if guard_len c k b = 0 then {} else
        (\<lambda>p. Mprotect (p + of_nat (2 ^ k) - of_nat (guard_reach c k b)) (of_nat (guard_len c k b)))
          ` set (position (fresh_bag c k hb t b)))"
      using True by (simp add: init_bag_effects_def the_ie_def Let_def fields guard_positions_calls gz)
    then show ?thesis
      unfolding bag_guards_def guard_call_def place [symmetric]
      by (simp add: fresh_bag_def image_image lessThan_atLeast0)
  qed
  show ?thesis using cl fl z calls by (simp add: effects_def cleaner_def)
qed

section \<open>The loops\<close>

definition acc_at :: "build \<Rightarrow> nat \<Rightarrow> nat \<Rightarrow> nat \<Rightarrow> init_acc \<Rightarrow> bool" where
  "acc_at c k t b acc \<longleftrightarrow>
    offsetBag acc = of_nat (bag_off c k t b) \<and>
    offsetShadowMem acc = of_nat (bag_shadow c k t b) \<and>
    numCumObjects acc = of_nat (t * objects_per_thread c k + objects_below c k b)"

lemma acc_at_step:
  assumes k: "bag_shift_ok c k" and b: "b < usable_bags c" and a: "acc_at c k t b acc"
  shows "acc_at c k t (Suc b) (init_bag_effects env (the_ie c k hb base) t b (loop_bag c k hb base t b) acc)"
proof -
  have cs: "classSize (loop_bag c k hb base t b) = of_nat (2 ^ (4 + b))"
    by (simp add: loop_bag_def make_bag_def the_ie_def Let_def split: prod.split)
  have n: "bag_objects c (of_nat (2 ^ k)) (classSize (loop_bag c k hb base t b)) = of_nat (objects c k b)"
    unfolding cs by (rule bag_objects_word [OF k b])
  show ?thesis
    using a unfolding acc_at_def init_bag_effects_def the_ie_def Let_def
    by (simp add: n [simplified] bag_off_def bag_shadow_def objects_below_Suc algebra_simps)
qed

lemma init_bags_closed:
  assumes k: "bag_shift_ok c k" and t: "t < MAX_ALIVE_THREADS"
  shows "\<lbrakk>b + left \<le> usable_bags c; acc_at c k t b acc\<rbrakk> \<Longrightarrow>
    \<exists>acc'. init_bags env (the_ie c k hb base) t left b (of_nat (2 ^ (4 + b))) (4 + b) acc
        = (map (loop_bag c k hb base t) [b..<b + left], acc') \<and>
      acc_at c k t (b + left) acc' \<and> effects c k hb base ({t} \<times> {b..<b + left}) acc acc'"
proof (induction left arbitrary: b acc)
  case 0
  then show ?case by (simp add: effects_refl)
next
  case (Suc left)
  let ?bag = "loop_bag c k hb base t b"
  let ?acc = "init_bag_effects env (the_ie c k hb base) t b ?bag acc"
  have b: "b < usable_bags c" using Suc.prems by simp
  have bag: "make_bag (the_ie c k hb base) t b (of_nat (2 ^ (4 + b))) (4 + b) (offsetBag acc)
      (offsetShadowMem acc) = ?bag"
    using Suc.prems by (simp add: acc_at_def loop_bag_def)
  have "acc_at c k t (Suc b) ?acc" using acc_at_step [OF k b Suc.prems(2)] .
  then obtain acc' where
    r: "init_bags env (the_ie c k hb base) t left (Suc b) (of_nat (2 ^ (4 + Suc b))) (4 + Suc b) ?acc
        = (map (loop_bag c k hb base t) [Suc b..<Suc b + left], acc')"
      "acc_at c k t (Suc b + left) acc'" "effects c k hb base ({t} \<times> {Suc b..<Suc b + left}) ?acc acc'"
    using Suc.IH [of "Suc b" ?acc] Suc.prems(1) by fastforce
  have next_size: "of_nat (2 ^ (4 + b)) * 2 = (of_nat (2 ^ (4 + Suc b)) :: size_t)"
    "Suc (4 + b) = 4 + Suc b"
    by (simp_all add: power_add)
  have "effects c k hb base ({(t, b)} \<union> {t} \<times> {Suc b..<Suc b + left}) acc acc'"
    using init_bag_effects_ok [OF k b t] r(3) by (rule effects_trans)
  moreover have "{(t, b)} \<union> {t} \<times> {Suc b..<Suc b + left} = {t} \<times> {b..<b + Suc left}" by auto
  moreover have "[b..<b + Suc left] = b # [Suc b..<Suc b + left]" by (simp add: upt_conv_Cons)
  ultimately show ?case
    using r(1,2) unfolding init_bags.simps Let_def bag next_size r(1) by simp
qed

definition thread_row :: "build \<Rightarrow> nat \<Rightarrow> addr \<Rightarrow> addr \<Rightarrow> nat \<Rightarrow> PerThreadBag list" where
  "thread_row c k hb base t = map (loop_bag c k hb base t) [0..<usable_bags c]
    @ replicate (BIBOP_NUM_BAGS c - usable_bags c) zero_bag"

lemma init_thread_closed:
  assumes k: "bag_shift_ok c k" and t: "t < MAX_ALIVE_THREADS" and a: "acc_at c k t 0 acc"
  shows "\<exists>acc'. init_thread env (the_ie c k hb base) (usable_bags c) t acc
      = (thread_row c k hb base t, acc') \<and>
    acc_at c k (Suc t) 0 acc' \<and> effects c k hb base ({t} \<times> {..<usable_bags c}) acc acc'"
proof -
  let ?u = "usable_bags c"
  have start: "of_nat BIBOP_MIN_BLOCK_SIZE = (of_nat (2 ^ (4 + 0)) :: size_t)"
    "LOG2 (of_nat (2 ^ (4 + 0))) = 4 + 0"
    using LOG2_of_nat_power [of 4] by (simp_all add: BIBOP_MIN_BLOCK_SIZE_def)
  obtain acc1 where
    r: "init_bags env (the_ie c k hb base) t ?u 0 (of_nat (2 ^ (4 + 0))) (4 + 0) acc
        = (map (loop_bag c k hb base t) [0..<0 + ?u], acc1)"
      "acc_at c k t (0 + ?u) acc1" "effects c k hb base ({t} \<times> {0..<0 + ?u}) acc acc1"
    using init_bags_closed [OF k t, of 0 ?u acc env hb base] a by auto
  let ?acc2 = "acc1\<lparr> offsetBag := offsetBag acc1 + of_nat (BIBOP_NUM_BAGS c - ?u) * of_nat (2 ^ k) \<rparr>"
  have eq: "init_thread env (the_ie c k hb base) ?u t acc = (thread_row c k hb base t, ?acc2)"
    unfolding init_thread_def start r(1) Let_def prod.case thread_row_def the_ie_simps
    by (simp only: add_0)
  have "bag_off c k t ?u + (BIBOP_NUM_BAGS c - ?u) * 2 ^ k = bag_off c k (Suc t) 0"
  proof -
    have "bag_off c k t ?u + (BIBOP_NUM_BAGS c - ?u) * 2 ^ k
        = (t * 2 ^ bags_shift c + (?u + (BIBOP_NUM_BAGS c - ?u))) * 2 ^ k"
      by (simp add: bag_off_def add_mult_distrib)
    also have "?u + (BIBOP_NUM_BAGS c - ?u) = 2 ^ bags_shift c"
      using usable_less_bags(1) [of c] by (simp add: bags_power)
    finally show ?thesis by (simp add: bag_off_def add.commute)
  qed
  then have off: "(of_nat (bag_off c k t ?u) + of_nat (BIBOP_NUM_BAGS c - ?u) * of_nat (2 ^ k) :: size_t)
      = of_nat (bag_off c k (Suc t) 0)"
    by (simp only: of_nat_add of_nat_mult flip: of_nat_mult of_nat_add)
  have "acc_at c k (Suc t) 0 ?acc2"
    using r(2) off unfolding acc_at_def
    by (simp add: bag_shadow_def objects_per_thread_def objects_below_def add.commute)
  moreover have "effects c k hb base ({t} \<times> {..<?u}) acc ?acc2"
    using r(3) by (simp add: effects_def lessThan_atLeast0)
  ultimately show ?thesis using eq by blast
qed

lemma init_threads_closed:
  assumes k: "bag_shift_ok c k"
  shows "\<lbrakk>t + left \<le> MAX_ALIVE_THREADS; acc_at c k t 0 acc\<rbrakk> \<Longrightarrow>
    \<exists>acc'. init_threads env (the_ie c k hb base) (usable_bags c) left t acc
        = (map (thread_row c k hb base) [t..<t + left], acc') \<and>
      acc_at c k (t + left) 0 acc' \<and>
      effects c k hb base ({t..<t + left} \<times> {..<usable_bags c}) acc acc'"
proof (induction left arbitrary: t acc)
  case 0
  then show ?case by (simp add: effects_refl)
next
  case (Suc left)
  have t: "t < MAX_ALIVE_THREADS" using Suc.prems by simp
  obtain acc1 where r1: "init_thread env (the_ie c k hb base) (usable_bags c) t acc
      = (thread_row c k hb base t, acc1)" "acc_at c k (Suc t) 0 acc1"
      "effects c k hb base ({t} \<times> {..<usable_bags c}) acc acc1"
    using init_thread_closed [OF k t Suc.prems(2)] by blast
  obtain acc2 where
    r2: "init_threads env (the_ie c k hb base) (usable_bags c) left (Suc t) acc1
        = (map (thread_row c k hb base) [Suc t..<Suc t + left], acc2)"
      "acc_at c k (Suc t + left) 0 acc2"
      "effects c k hb base ({Suc t..<Suc t + left} \<times> {..<usable_bags c}) acc1 acc2"
    using Suc.IH [of "Suc t" acc1] Suc.prems r1(2) by auto
  have "{t} \<times> {..<usable_bags c} \<union> {Suc t..<Suc t + left} \<times> {..<usable_bags c}
      = {t..<t + Suc left} \<times> {..<usable_bags c}"
    by auto
  with effects_trans [OF r1(3) r2(3)]
  have "effects c k hb base ({t..<t + Suc left} \<times> {..<usable_bags c}) acc acc2" by simp
  moreover have "[t..<t + Suc left] = t # [Suc t..<Suc t + left]" by (simp add: upt_conv_Cons)
  ultimately show ?case using r1(1) r2(1,2) by simp
qed

section \<open>initialize\<close>

definition the_geometry :: "build \<Rightarrow> nat \<Rightarrow> addr \<Rightarrow> addr \<Rightarrow> geometry" where
  "the_geometry c k hb sb = \<lparr>
     heapBegin = hb, heapEnd = hb + of_nat (BIBOP_NUM_HEAPS * 2 ^ heap_shift c k),
     heapMask = mask (heap_shift c k), heapSizeShiftBits = heap_shift c k,
     shadowMemBegin = sb, shadowMemEnd = sb + of_nat (BIBOP_NUM_HEAPS * shadow_per_heap c k),
     shadowMemSizePerHeap = of_nat (shadow_per_heap c k),
     shadowMemSizePerHeapCeil = of_nat (2 ^ ceil_shift c k),
     shadowMemSizePerHeapCeilShiftBits = ceil_shift c k,
     shadowMemSizePerHeapMask = mask (ceil_shift c k),
     shadowObjectInfoSize = of_nat (2 ^ info_shift c),
     shadowObjectInfoSizeShiftBits = info_shift c,
     numUsableBags = usable_bags c, lastUsableBag = usable_bags c - 1,
     bibopBagSize = of_nat (2 ^ k), firstBagPower = 4,
     threadSize = of_nat (2 ^ (bags_shift c + k)), threadShiftBits = bags_shift c + k,
     bagShiftBits = k, bagMask = mask k,
     numObjectsPerHeap = of_nat (MAX_ALIVE_THREADS * objects_per_thread c k),
     numObjectsPerSubHeap = of_nat (objects_per_thread c k),
     numBagsPerHeap = of_nat (2 ^ (bags_shift c + 7)),
     numBagsPerSubHeapMask = mask (bags_shift c),
     numBagsPerHeapShiftBits = bags_shift c + 7 \<rparr>"

lemma of_nat_exp_mask: "(of_nat (2 ^ n) - 1 :: size_t) = mask n"
  by (simp add: mask_eq_exp_minus_1)

lemma make_geometry_eq:
  assumes k: "bag_shift_ok c k"
  shows "(make_geometry c (of_nat (2 ^ k)) (usable_bags c)
      (hb, hb + of_nat BIBOP_NUM_HEAPS * BIBOP_HEAP_SIZE c (of_nat (2 ^ k)))
      (of_nat (MAX_ALIVE_THREADS * objects_per_thread c k)))
        \<lparr> shadowMemBegin := sb,
          shadowMemEnd := sb + of_nat BIBOP_NUM_HEAPS * of_nat (shadow_per_heap c k) \<rparr>
    = the_geometry c k hb sb"
proof -
  note lt = shift_lt_64 [OF k]
  have per: "of_nat (MAX_ALIVE_THREADS * objects_per_thread c k) * of_nat (2 ^ info_shift c)
      = (of_nat (shadow_per_heap c k) :: size_t)"
    by (simp add: shadow_per_heap_def)
  have "(of_nat (shadow_per_heap c k) - 1 :: size_t) = of_nat (shadow_per_heap c k - 1)"
    using shadow_per_heap_bounds [OF k] by (simp add: of_nat_diff)
  moreover have "unat (of_nat (shadow_per_heap c k - 1) :: size_t) = shadow_per_heap c k - 1"
    using shadow_per_heap_bounds [OF k] by (intro unat_of_nat_less) simp
  ultimately have "builtin_clz (of_nat (shadow_per_heap c k) - 1 :: size_t) = 64 - ceil_shift c k"
    by (simp add: builtin_clz_def ceil_shift_def)
  then have ceil: "64 - builtin_clz (of_nat (shadow_per_heap c k) - 1 :: size_t) = ceil_shift c k"
    using ceil_shift_le [OF k] by simp
  have one: "push_bit (ceil_shift c k) (1 :: size_t) = of_nat (2 ^ ceil_shift c k)"
    using push_bit_of_nat_word [of "ceil_shift c k" 1, where ?'a = 64] by simp
  have th: "of_nat (2 ^ k) * of_nat (BIBOP_NUM_BAGS c) = (of_nat (2 ^ (bags_shift c + k)) :: size_t)"
    by (simp add: bags_power power_add mult.commute)
  have bph: "(of_nat (BIBOP_NUM_BAGS c * BIBOP_NUM_SUBHEAPS) :: size_t) = of_nat (2 ^ (bags_shift c + 7))"
    by (simp add: bags_power BIBOP_NUM_SUBHEAPS_def MAX_ALIVE_THREADS_def power_add)
  have sub: "(of_nat (MAX_ALIVE_THREADS * objects_per_thread c k) :: size_t) div of_nat BIBOP_NUM_SUBHEAPS
      = of_nat (objects_per_thread c k)"
    using objects_per_thread_le [OF k]
    by (subst of_nat_div_word) (simp_all add: BIBOP_NUM_SUBHEAPS_def MAX_ALIVE_THREADS_def)
  have logs: "LOG2 (of_nat (2 ^ heap_shift c k)) = heap_shift c k"
    "LOG2 (of_nat (2 ^ (bags_shift c + k))) = bags_shift c + k"
    "LOG2 (of_nat (2 ^ k)) = k" "LOG2 (of_nat (2 ^ (bags_shift c + 7))) = bags_shift c + 7"
    "LOG2 (of_nat (2 ^ info_shift c)) = info_shift c"
    using lt by (intro LOG2_of_nat_power; simp add: info_shift_def bags_shift_def)+
  have log16: "LOG2 (of_nat BIBOP_MIN_BLOCK_SIZE) = 4"
    using LOG2_of_nat_power [of 4] by (simp add: BIBOP_MIN_BLOCK_SIZE_def)
  have nb: "(of_nat (BIBOP_NUM_BAGS c) - 1 :: size_t) = mask (bags_shift c)"
    unfolding bags_power by (rule of_nat_exp_mask)
  show ?thesis
    unfolding make_geometry_def Let_def heap_size_word info_power per ceil one th bph sub nb
      logs log16 of_nat_exp_mask geometry.simps fst_conv snd_conv the_geometry_def
    by (simp only: of_nat_mult)
qed

text \<open>The heap as \<open>initialize\<close> leaves it: geometry, bags, empty free lists, guard pages.\<close>

definition fresh_row :: "build \<Rightarrow> nat \<Rightarrow> addr \<Rightarrow> nat \<Rightarrow> PerThreadBag list" where
  "fresh_row c k hb t = map (fresh_bag c k hb t) [0..<usable_bags c]
    @ replicate (BIBOP_NUM_BAGS c - usable_bags c) zero_bag"

definition initial_heap :: "build \<Rightarrow> nat \<Rightarrow> addr \<Rightarrow> addr \<Rightarrow> 'r bibop \<Rightarrow> 'r bibop \<Rightarrow> bool" where
  "initial_heap c k hb sb st st' \<longleftrightarrow>
    geom st' = the_geometry c k hb sb \<and>
    threadBagAddr st' = threadBagAddr st \<and>
    threadBag st' = map (fresh_row c k hb) [0..<MAX_ALIVE_THREADS] \<and>
    bytes st' = bytes st \<and>
    (\<forall>t<MAX_ALIVE_THREADS. \<forall>b<usable_bags c.
      (\<forall>s<BIBOP_BAG_SET_SIZE. freelist_holds c (lists st') (freelist_addr c (threadBagAddr st) t b s) []) \<and>
      snext (lists st') (cfreelist_addr c (threadBagAddr st) t b) = 0) \<and>
    (\<forall>p. p \<notin> all_headers c (threadBagAddr st) \<longrightarrow> snext (lists st') p = snext (lists st) p) \<and>
    {e \<in> set (calls st'). \<exists>p n. e = Mprotect p n} =
      {e \<in> set (calls st). \<exists>p n. e = Mprotect p n} \<union>
      (\<Union>t<MAX_ALIVE_THREADS. \<Union>b<usable_bags c. bag_guards c k hb t b)"

lemma choose_usable_bags_eq:
  assumes k: "bag_shift_ok c k"
  shows "choose_usable_bags c (of_nat (2 ^ k)) = (of_nat (2 ^ large_shift c), usable_bags c)"
proof -
  note lt = shift_lt_64 [OF k]
  have "(of_nat (2 ^ k) :: size_t) > of_nat (2 ^ large_shift c) \<longleftrightarrow> (2::nat) ^ k > 2 ^ large_shift c"
    using lt by (intro of_nat_less_word_iff) (simp_all add: power_lt_64)
  then have last: "(if of_nat (2 ^ k) > (of_nat (LARGE_OBJECT_THRESHOLD c) :: size_t)
      then of_nat (LARGE_OBJECT_THRESHOLD c) else of_nat (2 ^ k)) = (of_nat (2 ^ large_shift c) :: size_t)"
    using k unfolding threshold_power by (auto simp: bag_shift_ok_def)
  have "LOG2 (of_nat (2 ^ large_shift c)) = large_shift c" using lt by (intro LOG2_of_nat_power) simp
  moreover have "LOG2 (of_nat BIBOP_MIN_BLOCK_SIZE) = 4"
    using LOG2_of_nat_power [of 4] by (simp add: BIBOP_MIN_BLOCK_SIZE_def)
  moreover have "\<not> BIBOP_NUM_BAGS c < usable_bags c"
    using usable_less_bags(1) [of c] by simp
  moreover have "large_shift c - 4 + 1 = usable_bags c" by (simp add: size_defs)
  ultimately show ?thesis unfolding choose_usable_bags_def Let_def last by simp
qed

lemma init_asserts_ok:
  assumes k: "bag_shift_ok c k"
  shows "init_asserts c (of_nat (2 ^ k))"
proof -
  note lt = shift_lt_64 [OF k]
  have "(of_nat (2 ^ heap_shift c k) :: size_t) \<noteq> 0"
    using lt of_nat_eq_word_iff [of "2 ^ heap_shift c k" 0, where ?'a = 64] by (simp add: power_lt_64)
  moreover have "(of_nat (2 ^ k) :: size_t) \<ge> of_nat (2 ^ large_shift c)"
    using lt k of_nat_le_word_iff [of "2 ^ large_shift c" "2 ^ k", where ?'a = 64]
    by (simp add: power_lt_64 bag_shift_ok_def power_increasing)
  moreover have "bit_count 8 = 1" "bit_count 32 = 1" "bit_count 4 = 1"
    by (simp_all add: bit_count.simps)
  ultimately show ?thesis
    by (simp add: init_asserts_def heap_size_word [simplified] threshold_power sizeof_shadowObjectInfo_def
        BIBOP_BAG_SET_SIZE_def)
qed

text \<open>Every random number gives an allowed bag size, when the size is not fixed.\<close>

lemma choose_bag_size_random:
  assumes "BIBOP_BAG_SIZE c = None"
  shows "\<exists>k. bag_shift_ok c k \<and> choose_bag_size c r = of_nat (2 ^ k)"
proof -
  have "LOG2 (of_nat (MAX_RANDOM_BAG_SIZE div MIN_RANDOM_BAG_SIZE)) = 2"
    using LOG2_of_nat_power [of 2] by (simp add: MAX_RANDOM_BAG_SIZE_def MIN_RANDOM_BAG_SIZE_def)
  then have cb: "choose_bag_size c r = push_bit (unat (r mod 3)) (of_nat MIN_RANDOM_BAG_SIZE)"
    using assms by (simp add: choose_bag_size_def)
  have lt: "unat (r mod 3) < 3" by (simp add: unat_mod)
  let ?k = "22 + unat (r mod 3)"
  have "choose_bag_size c r = of_nat (MIN_RANDOM_BAG_SIZE * 2 ^ unat (r mod 3))"
    unfolding cb by (rule push_bit_of_nat_word)
  moreover have "MIN_RANDOM_BAG_SIZE * 2 ^ unat (r mod 3) = 2 ^ ?k"
    by (simp add: MIN_RANDOM_BAG_SIZE_def power_add)
  moreover have "bag_shift_ok c ?k" using lt by (auto simp: size_defs)
  ultimately show ?thesis by metis
qed

lemma effects_mprotects:
  assumes "effects c k hb base X a a'"
  shows "{e \<in> set (acc_calls a'). \<exists>p n. e = Mprotect p n} =
    {e \<in> set (acc_calls a). \<exists>p n. e = Mprotect p n} \<union> (\<Union>(t, b)\<in>X. bag_guards c k hb t b)"
proof -
  have "\<forall>e \<in> bag_guards c k hb t b. \<exists>p n. e = Mprotect p n" for t b
    by (auto simp: bag_guards_def guard_call_def)
  then have "{e \<in> (\<Union>(t, b)\<in>X. bag_guards c k hb t b). \<exists>p n. e = Mprotect p n}
      = (\<Union>(t, b)\<in>X. bag_guards c k hb t b)"
    by fastforce
  moreover have "set (acc_calls a') = set (acc_calls a) \<union> (\<Union>(t, b)\<in>X. bag_guards c k hb t b)"
    using assms by (simp add: effects_def)
  ultimately show ?thesis by blast
qed

lemma Union_product:
  "(\<Union>(t, b)\<in>{0..<n} \<times> {..<u}. f t b) = (\<Union>t<(n::nat). \<Union>b<u. f t b)"
  unfolding lessThan_atLeast0 by fast

lemma initialize_ok:
  assumes k: "bag_shift_ok c k"
    and size: "bag_size_random c rnd (rng st) = (r, rg)" "choose_bag_size c r = of_nat (2 ^ k)"
    and mapped: "\<And>sz tr. env (private_map sz # tr) \<noteq> MAP_FAILED"
  shows "\<exists>st' sb tr. initialize env c rnd st =
      Inr (env (private_map (of_nat BIBOP_NUM_HEAPS * of_nat (2 ^ heap_shift c k)) # calls st), st') \<and>
    sb = env (private_map (of_nat BIBOP_NUM_HEAPS * of_nat (shadow_per_heap c k)) # tr) \<and>
    initial_heap c k
      (env (private_map (of_nat BIBOP_NUM_HEAPS * of_nat (2 ^ heap_shift c k)) # calls st)) sb st st'"
proof -
  let ?total = "of_nat BIBOP_NUM_HEAPS * of_nat (2 ^ heap_shift c k) :: size_t"
  let ?hb = "env (private_map ?total # calls st)"
  let ?base = "threadBagAddr st"
  let ?tr1 = "Madvise ?hb ?total # private_map ?total # calls st"
  let ?acc0 = "\<lparr> offsetBag = 0, offsetShadowMem = 0, numCumObjects = 0, acc_lists = lists st,
      acc_calls = ?tr1 \<rparr>"
  have "acc_at c k 0 0 ?acc0" by (simp add: acc_at_def bag_off_def bag_shadow_def objects_below_def)
  then obtain acc where
    loop: "init_threads env (the_ie c k ?hb ?base) (usable_bags c) MAX_ALIVE_THREADS 0 ?acc0
        = (map (thread_row c k ?hb ?base) [0..<MAX_ALIVE_THREADS], acc)"
      "acc_at c k MAX_ALIVE_THREADS 0 acc"
      "effects c k ?hb ?base ({0..<MAX_ALIVE_THREADS} \<times> {..<usable_bags c}) ?acc0 acc"
    using init_threads_closed [OF k, of 0 MAX_ALIVE_THREADS ?acc0 env ?hb ?base] by auto
  have cum: "numCumObjects acc = of_nat (MAX_ALIVE_THREADS * objects_per_thread c k)"
    using loop(2) by (simp add: acc_at_def objects_below_def)
  let ?g = "make_geometry c (of_nat (2 ^ k)) (usable_bags c) (?hb, ?hb + ?total) (numCumObjects acc)"
  let ?stotal = "of_nat BIBOP_NUM_HEAPS * of_nat (shadow_per_heap c k) :: size_t"
  let ?sb = "env (private_map ?stotal # acc_calls acc)"
  have g: "?g\<lparr> shadowMemBegin := ?sb, shadowMemEnd := ?sb + ?stotal \<rparr> = the_geometry c k ?hb ?sb"
    using make_geometry_eq [OF k, where hb = ?hb and sb = ?sb] unfolding cum heap_size_word .
  have gf: "shadowMemSizePerHeap ?g = of_nat (shadow_per_heap c k)"
    "shadowMemSizePerHeapCeil ?g = of_nat (2 ^ ceil_shift c k)"
    "shadowObjectInfoSizeShiftBits ?g = info_shift c"
    using arg_cong [OF g, of shadowMemSizePerHeap] arg_cong [OF g, of shadowMemSizePerHeapCeil]
      arg_cong [OF g, of shadowObjectInfoSizeShiftBits]
    by (simp_all add: the_geometry_def)
  have rows: "map (set_shadow_steps (of_nat (2 ^ ceil_shift c k)) (info_shift c) (usable_bags c))
      (map (thread_row c k ?hb ?base) [0..<MAX_ALIVE_THREADS])
      = map (fresh_row c k ?hb) [0..<MAX_ALIVE_THREADS]"
    by (simp add: set_shadow_steps_def thread_row_def fresh_row_def loop_bag_eq [OF k, simplified])
  let ?st' = "st\<lparr> geom := the_geometry c k ?hb ?sb,
      threadBag := map (fresh_row c k ?hb) [0..<MAX_ALIVE_THREADS],
      lists := acc_lists acc, calls := Madvise ?sb ?stotal # private_map ?stotal # acc_calls acc,
      rng := rg \<rparr>"
  have ie: "\<lparr> ie_build = c, ie_heapBegin = ?hb, ie_bagSize = of_nat (2 ^ k),
      ie_lastUsableBagSize = of_nat (2 ^ large_shift c), ie_lastUsableBag = usable_bags c - 1,
      ie_infoSize = of_nat (sizeof_shadowObjectInfo c), ie_threadBagAddr = ?base \<rparr> = the_ie c k ?hb ?base"
    by (simp add: the_ie_def info_power)
  have run: "initialize env c rnd st = Inr (?hb, ?st')"
    unfolding initialize_def size prod.case Let_def choose_usable_bags_eq [OF k] heap_size_word
      allocHeaps_def allocShadowMem_def mmapAllocatePrivate_eq
    using mapped init_asserts_ok [OF k]
    by (simp add: Let_def ext_def ie loop(1) gf g rows del: of_nat_power of_nat_mult map_map One_nat_def)
  have fl: "\<forall>t<MAX_ALIVE_THREADS. \<forall>b<usable_bags c. (\<forall>s<BIBOP_BAG_SET_SIZE.
      freelist_holds c (acc_lists acc) (freelist_addr c ?base t b s) []) \<and>
      snext (acc_lists acc) (cfreelist_addr c ?base t b) = 0"
    and other: "\<forall>p. p \<notin> all_headers c ?base \<longrightarrow> snext (acc_lists acc) p = snext (lists st) p"
    using loop(3) by (simp_all add: effects_def)
  have mp0: "{e \<in> set (acc_calls ?acc0). \<exists>p n. e = Mprotect p n}
      = {e \<in> set (calls st). \<exists>p n. e = Mprotect p n}"
    by (auto simp: private_map_def)
  have "{e \<in> set (acc_calls acc). \<exists>p n. e = Mprotect p n} =
      {e \<in> set (calls st). \<exists>p n. e = Mprotect p n} \<union>
      (\<Union>t<MAX_ALIVE_THREADS. \<Union>b<usable_bags c. bag_guards c k ?hb t b)"
    using effects_mprotects [OF loop(3)] unfolding Union_product mp0 .
  moreover have "{e \<in> set (calls ?st'). \<exists>p n. e = Mprotect p n}
      = {e \<in> set (acc_calls acc). \<exists>p n. e = Mprotect p n}"
    by (auto simp: private_map_def)
  ultimately have "initial_heap c k ?hb ?sb st ?st'"
    using fl other by (simp add: initial_heap_def)
  with run show ?thesis by blast
qed

end
