(* ===== verification/BibopCodec.thy ===== *)
theory BibopCodec
  imports BibopLayout
begin

text \<open>
  The address arithmetic of \<open>bibopheap.hh\<close> (lines 640-799): from the address of an object
  to its bag and its shadow slot, back again, and from a slot to the slots of its neighbours.

  An object has the coordinates heap \<open>h\<close>, thread \<open>t\<close>, bag \<open>b\<close>, index \<open>i\<close>; \<open>obj_addr\<close> and
  \<open>slot_addr\<close> are its two addresses.  The lemmas say that the code computes with
  coordinates: \<open>locate_bag_address\<close> decodes every address of a usable bag, the misaligned
  ones included, \<open>encode_slot\<close> is the inverse, \<open>neighbor_left\<close> and \<open>neighbor_right\<close> walk
  the objects of a bag.  Locale \<open>object_codec\<close> is the contract that the allocation and
  free paths rely on.
\<close>

section \<open>The operations\<close>

text \<open>\<open>getShadowObjectInfo (addr, &bag, &numBagSetItem)\<close>.  The bag is a pair of indices;
  \<open>BIBOP_BAG_SET_SIZE\<close> is greater than one.  A misaligned address ends the program.\<close>

definition getShadowObjectInfo ::
  "build \<Rightarrow> geometry \<Rightarrow> PerThreadBag list list \<Rightarrow> addr \<Rightarrow> fg_error + addr \<times> (nat \<times> nat) \<times> nat"
where
  "getShadowObjectInfo c g tb a =
    (let offset = a - heapBegin g;
         localHeapOffset = offset AND heapMask g;
         localBagOffset = offset AND bagMask g;
         globalBagNum = drop_bit (bagShiftBits g) offset;
         heapIndex = drop_bit (numBagsPerHeapShiftBits g) globalBagNum;
         numBagSetItem = unat (heapIndex AND of_nat BIBOP_BAG_SET_MASK);
         t = unat (drop_bit (threadShiftBits g) localHeapOffset);
         b = unat (globalBagNum AND numBagsPerSubHeapMask g);
         bag = tb ! t ! b
     in if localBagOffset AND classMask bag \<noteq> 0 then Inl (Invalid_object a)
        else
          let shadowinfo = shadowMemBegin g
                + push_bit (shadowMemSizePerHeapCeilShiftBits g) heapIndex + startShadowMemOffset bag
          in Inr (shadowinfo + drop_bit (shiftBits bag) localBagOffset * of_nat (sizeof_shadowObjectInfo c),
                  (t, b), numBagSetItem))"

text \<open>\<open>getShadowObjectInfo (addr, bag)\<close>, for a bag that the caller knows.\<close>

definition getShadowObjectInfo_bag :: "build \<Rightarrow> geometry \<Rightarrow> addr \<Rightarrow> PerThreadBag \<Rightarrow> addr" where
  "getShadowObjectInfo_bag c g a bag =
    (let offset = a - heapBegin g;
         localBagOffset = offset AND bagMask g;
         globalBagNum = drop_bit (bagShiftBits g) offset;
         heapIndex = drop_bit (numBagsPerHeapShiftBits g) globalBagNum;
         bagShadowInfo = shadowMemBegin g
           + push_bit (shadowMemSizePerHeapCeilShiftBits g) heapIndex + startShadowMemOffset bag
     in bagShadowInfo + drop_bit (shiftBits bag) localBagOffset * of_nat (sizeof_shadowObjectInfo c))"

text \<open>\<open>shadowOffset\<close> is a signed \<open>ptrdiff_t\<close>: its shift keeps the sign.\<close>

definition getAddrFromShadowInfo :: "geometry \<Rightarrow> addr \<Rightarrow> PerThreadBag \<Rightarrow> addr" where
  "getAddrFromShadowInfo g shadowaddr bag =
    (let shadowOffset = shadowaddr - shadowMemBegin g;
         heapIndex = signed_drop_bit (shadowMemSizePerHeapCeilShiftBits g) shadowOffset;
         objectindex = drop_bit (shadowObjectInfoSizeShiftBits g)
           ((shadowOffset AND shadowMemSizePerHeapMask g) - startShadowMemOffset bag);
         heapOffset = push_bit (heapSizeShiftBits g) heapIndex
     in heapBegin g + heapOffset + startOffset bag + push_bit (shiftBits bag) objectindex)"

text \<open>The two overloads of \<open>getHeapNumber\<close>; the results are 32-bit unsigned.\<close>

definition getHeapNumber_shadow :: "geometry \<Rightarrow> addr \<Rightarrow> u32" where
  "getHeapNumber_shadow g shadowinfo =
    ucast (signed_drop_bit (shadowMemSizePerHeapCeilShiftBits g) (shadowinfo - shadowMemBegin g))"

definition getHeapNumber_addr :: "geometry \<Rightarrow> addr \<Rightarrow> u32" where
  "getHeapNumber_addr g a =
    (let offset = a - heapBegin g;
         globalBagNum = ucast (drop_bit (bagShiftBits g) offset) :: u32
     in drop_bit (numBagsPerHeapShiftBits g) globalBagNum)"

text \<open>\<open>getNextCanaryNeighbor\<close>; \<open>None\<close> is the null pointer.\<close>

definition getNextCanaryNeighbor ::
  "build \<Rightarrow> geometry \<Rightarrow> addr \<Rightarrow> PerThreadBag \<Rightarrow> direction \<Rightarrow> addr option"
where
  "getNextCanaryNeighbor c g shadowinfo bag move =
    (let heapNum = getHeapNumber_shadow g shadowinfo;
         shadowOffset = shadowinfo - shadowMemBegin g;
         objectindex = drop_bit (shadowObjectInfoSizeShiftBits g)
           ((shadowOffset AND shadowMemSizePerHeapMask g) - startShadowMemOffset bag)
     in case move of
          LEFT \<Rightarrow>
            if objectindex = 0 then
              if heapNum < of_nat BIBOP_BAG_SET_SIZE then None
              else Some (shadowinfo - nextShadowHeapObjectOffset bag)
            else Some (shadowinfo - of_nat (sizeof_shadowObjectInfo c))
        | RIGHT \<Rightarrow>
            if objectindex = ucast (lastObjectIndex bag)
            then Some (shadowinfo + nextShadowHeapObjectOffset bag)
            else Some (shadowinfo + of_nat (sizeof_shadowObjectInfo c)))"

definition getBagNum :: "geometry \<Rightarrow> size_t \<Rightarrow> u32" where
  "getBagNum g csize = of_nat (LOG2 csize) - of_nat (firstBagPower g)"

text \<open>The class size that \<open>allocateSmallObject\<close> computes (lines 348-352); the argument of
  \<open>__builtin_clz\<close> is converted to a 32-bit unsigned.\<close>

definition class_size :: "size_t \<Rightarrow> size_t" where
  "class_size sz =
    (if sz \<le> of_nat BIBOP_MIN_BLOCK_SIZE then of_nat BIBOP_MIN_BLOCK_SIZE
     else drop_bit (builtin_clz (ucast (sz - 1) :: u32)) (push_bit 32 1))"

definition isSmallObject :: "geometry \<Rightarrow> addr \<Rightarrow> bool" where
  "isSmallObject g a \<longleftrightarrow> heapBegin g \<le> a \<and> a \<le> heapEnd g"

definition isInvalidAddr :: "geometry \<Rightarrow> addr \<Rightarrow> bool" where
  "isInvalidAddr g a \<longleftrightarrow> \<not> (heapBegin g \<le> a \<and> a \<le> heapEnd g)"

section \<open>Coordinates\<close>

definition obj_off :: "build \<Rightarrow> nat \<Rightarrow> nat \<Rightarrow> nat \<Rightarrow> nat \<Rightarrow> nat \<Rightarrow> nat" where
  "obj_off c k h t b i = h * 2 ^ heap_shift c k + bag_off c k t b + i * 2 ^ (4 + b)"

definition slot_off :: "build \<Rightarrow> nat \<Rightarrow> nat \<Rightarrow> nat \<Rightarrow> nat \<Rightarrow> nat \<Rightarrow> nat" where
  "slot_off c k h t b i = h * 2 ^ ceil_shift c k + bag_shadow c k t b + i * 2 ^ info_shift c"

definition obj_addr :: "build \<Rightarrow> nat \<Rightarrow> addr \<Rightarrow> nat \<Rightarrow> nat \<Rightarrow> nat \<Rightarrow> nat \<Rightarrow> addr" where
  "obj_addr c k hb h t b i = hb + of_nat (obj_off c k h t b i)"

definition slot_addr :: "build \<Rightarrow> nat \<Rightarrow> addr \<Rightarrow> nat \<Rightarrow> nat \<Rightarrow> nat \<Rightarrow> nat \<Rightarrow> addr" where
  "slot_addr c k sb h t b i = sb + of_nat (slot_off c k h t b i)"

lemma geo:
  "heapBegin (the_geometry c k hb sb) = hb"
  "heapEnd (the_geometry c k hb sb) = hb + of_nat (BIBOP_NUM_HEAPS * 2 ^ heap_shift c k)"
  "heapMask (the_geometry c k hb sb) = mask (heap_shift c k)"
  "heapSizeShiftBits (the_geometry c k hb sb) = heap_shift c k"
  "shadowMemBegin (the_geometry c k hb sb) = sb"
  "shadowMemEnd (the_geometry c k hb sb) = sb + of_nat (BIBOP_NUM_HEAPS * shadow_per_heap c k)"
  "shadowMemSizePerHeapCeilShiftBits (the_geometry c k hb sb) = ceil_shift c k"
  "shadowMemSizePerHeapMask (the_geometry c k hb sb) = mask (ceil_shift c k)"
  "shadowObjectInfoSizeShiftBits (the_geometry c k hb sb) = info_shift c"
  "bibopBagSize (the_geometry c k hb sb) = of_nat (2 ^ k)"
  "firstBagPower (the_geometry c k hb sb) = 4"
  "threadShiftBits (the_geometry c k hb sb) = bags_shift c + k"
  "bagShiftBits (the_geometry c k hb sb) = k"
  "bagMask (the_geometry c k hb sb) = mask k"
  "numBagsPerSubHeapMask (the_geometry c k hb sb) = mask (bags_shift c)"
  "numBagsPerHeapShiftBits (the_geometry c k hb sb) = bags_shift c + 7"
  by (simp_all add: the_geometry_def)

text \<open>The coordinates of the objects that exist.\<close>

definition valid_obj :: "build \<Rightarrow> nat \<Rightarrow> nat \<Rightarrow> nat \<Rightarrow> nat \<Rightarrow> nat \<Rightarrow> bool" where
  "valid_obj c k h t b i \<longleftrightarrow> h < BIBOP_NUM_HEAPS \<and> t < MAX_ALIVE_THREADS \<and> b < usable_bags c \<and>
    i < objects c k b"

text \<open>The fields of a bag that the allocator never changes after \<open>initialize\<close>.\<close>

definition bag_const :: "PerThreadBag \<Rightarrow> PerThreadBag" where
  "bag_const bag = bag\<lparr> position := [], lastofCurBag := [], ncfree := 0 \<rparr>"

definition bag_is :: "build \<Rightarrow> nat \<Rightarrow> addr \<Rightarrow> nat \<Rightarrow> nat \<Rightarrow> PerThreadBag \<Rightarrow> bool" where
  "bag_is c k hb t b bag \<longleftrightarrow> bag_const bag = bag_const (fresh_bag c k hb t b)"

lemma bag_isD:
  assumes "bag_is c k hb t b bag"
  shows "numObjects bag = of_nat (objects c k b)" "lastObjectIndex bag = of_nat (objects c k b - 1)"
    "classMask bag = of_nat (2 ^ (4 + b) - 1)" "classSize bag = of_nat (2 ^ (4 + b))"
    "shiftBits bag = 4 + b" "startOffset bag = of_nat (bag_off c k t b)"
    "startShadowMemOffset bag = of_nat (bag_shadow c k t b)"
    "nextHeapObjectOffset bag = of_nat (4 * 2 ^ heap_shift c k - last_obj c k b)"
    "nextShadowHeapObjectOffset bag =
      of_nat (4 * 2 ^ ceil_shift c k - (objects c k b - 1) * 2 ^ info_shift c)"
    "guardsize bag = of_nat (guard_len c k b)" "guardoffset bag = of_nat (guard_reach c k b)"
    "bagNum bag = b" "threadIndex bag = t" "cflthreshold bag = of_nat (objects c k b div 10)"
  using assms by (cases bag; simp add: bag_is_def bag_const_def fresh_bag_def)+

lemma bag_is_fresh: "bag_is c k hb t b (fresh_bag c k hb t b)"
  by (simp add: bag_is_def)

definition table_ok :: "build \<Rightarrow> nat \<Rightarrow> addr \<Rightarrow> PerThreadBag list list \<Rightarrow> bool" where
  "table_ok c k hb tb \<longleftrightarrow> length tb = MAX_ALIVE_THREADS \<and>
    (\<forall>t<MAX_ALIVE_THREADS. length (tb ! t) = BIBOP_NUM_BAGS c \<and>
      (\<forall>b<usable_bags c. bag_is c k hb t b (tb ! t ! b)) \<and>
      (\<forall>b. usable_bags c \<le> b \<longrightarrow> b < BIBOP_NUM_BAGS c \<longrightarrow> tb ! t ! b = zero_bag))"

lemma table_ok_bag: "table_ok c k hb tb \<Longrightarrow> t < MAX_ALIVE_THREADS \<Longrightarrow> b < usable_bags c \<Longrightarrow>
    bag_is c k hb t b (tb ! t ! b)"
  by (simp add: table_ok_def)

lemma table_ok_initial: "table_ok c k hb (map (fresh_row c k hb) [0..<MAX_ALIVE_THREADS])"
  using usable_less_bags(1) [of c]
  by (auto simp: table_ok_def fresh_row_def bag_is_fresh nth_append)

section \<open>Decoding\<close>

text \<open>An offset into the heap area in positional notation.\<close>

lemma heap_digits:
  "h * 2 ^ heap_shift c k + bag_off c k t b + d =
    ((h * 2 ^ 7 + t) * 2 ^ bags_shift c + b) * 2 ^ k + d"
  by (simp add: heap_shift_def bag_off_def power_add algebra_simps)

lemma heap_offset_lt:
  assumes k: "bag_shift_ok c k" and h: "h < BIBOP_NUM_HEAPS" and t: "t < MAX_ALIVE_THREADS"
    and b: "b < BIBOP_NUM_BAGS c" and d: "d < 2 ^ k"
  shows "h * 2 ^ heap_shift c k + bag_off c k t b + d < BIBOP_NUM_HEAPS * 2 ^ heap_shift c k"
    and "BIBOP_NUM_HEAPS * 2 ^ heap_shift c k \<le> 2 ^ 46"
proof -
  have "h * 2 ^ 7 + t < BIBOP_NUM_HEAPS * 2 ^ 7"
    using h t by (intro digit_less) (simp_all add: MAX_ALIVE_THREADS_def)
  then have "(h * 2 ^ 7 + t) * 2 ^ bags_shift c + b < BIBOP_NUM_HEAPS * 2 ^ 7 * 2 ^ bags_shift c"
    by (rule digit_less) (use b in \<open>simp add: bags_power\<close>)
  then have "((h * 2 ^ 7 + t) * 2 ^ bags_shift c + b) * 2 ^ k + d
      < BIBOP_NUM_HEAPS * 2 ^ 7 * 2 ^ bags_shift c * 2 ^ k"
    using d by (rule digit_less)
  then show "h * 2 ^ heap_shift c k + bag_off c k t b + d < BIBOP_NUM_HEAPS * 2 ^ heap_shift c k"
    unfolding heap_digits by (simp only: heap_shift_def power_add mult.assoc)
  have "(2::nat) ^ heap_shift c k \<le> 2 ^ 36"
    using shift_lt_64(2) [OF k] by (intro power_increasing) simp_all
  then show "BIBOP_NUM_HEAPS * 2 ^ heap_shift c k \<le> 2 ^ 46" by (simp add: BIBOP_NUM_HEAPS_def)
qed

lemma heap_digits_extract:
  assumes t: "t < MAX_ALIVE_THREADS" and b: "b < BIBOP_NUM_BAGS c" and d: "d < 2 ^ k"
    and N: "N = h * 2 ^ heap_shift c k + bag_off c k t b + d"
  shows "N mod 2 ^ k = d" "N div 2 ^ k = (h * 2 ^ 7 + t) * 2 ^ bags_shift c + b"
    "N div 2 ^ k div 2 ^ (bags_shift c + 7) = h" "N div 2 ^ k mod 2 ^ bags_shift c = b"
    "N mod 2 ^ heap_shift c k div 2 ^ (bags_shift c + k) = t"
proof -
  have N': "N = ((h * 2 ^ 7 + t) * 2 ^ bags_shift c + b) * 2 ^ k + d"
    unfolding N by (rule heap_digits)
  have b': "b < 2 ^ bags_shift c" using b by (simp add: bags_power)
  have t': "t < 2 ^ 7" using t by (simp add: MAX_ALIVE_THREADS_def)
  show "N mod 2 ^ k = d" unfolding N' using d by (rule digit_mod)
  show q: "N div 2 ^ k = (h * 2 ^ 7 + t) * 2 ^ bags_shift c + b" unfolding N' using d by (rule digit_div)
  show "N div 2 ^ k mod 2 ^ bags_shift c = b" unfolding q using b' by (rule digit_mod)
  have "N div 2 ^ k div 2 ^ (bags_shift c + 7) = N div 2 ^ k div 2 ^ bags_shift c div 2 ^ 7"
    by (simp only: power_add div_mult2_eq)
  also have "\<dots> = h" unfolding q digit_div [OF b'] using t' by (rule digit_div)
  finally show "N div 2 ^ k div 2 ^ (bags_shift c + 7) = h" .
  have low: "(t * 2 ^ bags_shift c + b) * 2 ^ k + d < 2 ^ heap_shift c k"
  proof -
    have "t * 2 ^ bags_shift c + b < 2 ^ 7 * 2 ^ bags_shift c" using t' b' by (rule digit_less)
    then have "(t * 2 ^ bags_shift c + b) * 2 ^ k + d < 2 ^ 7 * 2 ^ bags_shift c * 2 ^ k"
      using d by (rule digit_less)
    then show ?thesis by (simp add: heap_shift_def power_add mult_ac)
  qed
  have "N = h * 2 ^ heap_shift c k + ((t * 2 ^ bags_shift c + b) * 2 ^ k + d)"
    unfolding N bag_off_def by simp
  then have "N mod 2 ^ heap_shift c k = (t * 2 ^ bags_shift c + b) * 2 ^ k + d"
    using digit_mod [OF low] by simp
  then have "N mod 2 ^ heap_shift c k div 2 ^ (bags_shift c + k) = ((t * 2 ^ bags_shift c + b) * 2 ^ k + d) div 2 ^ k div 2 ^ bags_shift c"
    by (simp only: power_add div_mult2_eq mult.commute [of "2 ^ bags_shift c"])
  also have "\<dots> = t" unfolding digit_div [OF d] using b' by (rule digit_div)
  finally show "N mod 2 ^ heap_shift c k div 2 ^ (bags_shift c + k) = t" .
qed

lemma and_mask_zero_iff:
  assumes "d < 2 ^ 64"
  shows "(of_nat d :: size_t) AND of_nat (2 ^ n - 1) = 0 \<longleftrightarrow> 2 ^ n dvd d"
proof -
  have "(of_nat (2 ^ n - 1) :: size_t) = mask n"
    by (simp add: of_nat_diff mask_eq_exp_minus_1)
  then have "(of_nat d :: size_t) AND of_nat (2 ^ n - 1) = of_nat (d mod 2 ^ n)"
    using assms by (simp add: and_mask_of_nat_word)
  moreover have "d mod 2 ^ n < 2 ^ 64" using assms by (meson le_less_trans mod_less_eq_dividend)
  ultimately show ?thesis
    using of_nat_eq_word_iff [of "d mod 2 ^ n" 0, where ?'a = 64] by (simp add: dvd_eq_mod_eq_0)
qed

text \<open>Every address of a usable bag: the bag and the set item, and the slot when the
  address is a multiple of the class size from the start of the bag.\<close>

lemma locate_bag_address:
  assumes k: "bag_shift_ok c k" and tb: "table_ok c k hb tb"
    and h: "h < BIBOP_NUM_HEAPS" and t: "t < MAX_ALIVE_THREADS" and b: "b < usable_bags c"
    and d: "d < 2 ^ k"
    and a: "a = hb + of_nat (h * 2 ^ heap_shift c k + bag_off c k t b + d)"
  shows "getShadowObjectInfo c (the_geometry c k hb sb) tb a =
    (if 2 ^ (4 + b) dvd d
     then Inr (slot_addr c k sb h t b (d div 2 ^ (4 + b)), (t, b), h mod 4)
     else Inl (Invalid_object a))"
proof -
  let ?N = "h * 2 ^ heap_shift c k + bag_off c k t b + d"
  have bn: "b < BIBOP_NUM_BAGS c" using b usable_less_bags(1) by (rule less_le_trans)
  have N: "?N < 2 ^ LENGTH(64)" using heap_offset_lt [OF k h t bn d] by simp
  note ex = heap_digits_extract [OF t bn d, of ?N h, OF refl]
  have lt: "?N div 2 ^ k < 2 ^ LENGTH(64)" "?N mod 2 ^ heap_shift c k < 2 ^ LENGTH(64)"
    "d < 2 ^ LENGTH(64)" "h < 2 ^ LENGTH(64)" "t < 2 ^ LENGTH(64)" "b < 2 ^ LENGTH(64)"
  proof -
    show "?N div 2 ^ k < 2 ^ LENGTH(64)" using N by (meson div_le_dividend le_less_trans)
    show "?N mod 2 ^ heap_shift c k < 2 ^ LENGTH(64)"
      using N by (meson mod_less_eq_dividend le_less_trans)
    show "d < 2 ^ LENGTH(64)" using N by linarith
    show "h < 2 ^ LENGTH(64)" "t < 2 ^ LENGTH(64)" "b < 2 ^ LENGTH(64)"
      using h t bn by (simp_all add: BIBOP_NUM_HEAPS_def MAX_ALIVE_THREADS_def BIBOP_NUM_BAGS_def
          split: if_splits)
  qed
  have off: "a - hb = of_nat ?N" unfolding a by (rule of_nat_diff_add)
  have bagoff: "(of_nat ?N :: size_t) AND mask k = of_nat d"
    "drop_bit k (of_nat ?N :: size_t) = of_nat (?N div 2 ^ k)"
    "(of_nat ?N :: size_t) AND mask (heap_shift c k) = of_nat (?N mod 2 ^ heap_shift c k)"
    using N ex(1) by (simp_all only: and_mask_of_nat_word drop_bit_of_nat_word)
  have idx: "drop_bit (bags_shift c + 7) (of_nat (?N div 2 ^ k) :: size_t) = of_nat h"
    "(of_nat (?N div 2 ^ k) :: size_t) AND mask (bags_shift c) = of_nat b"
    "drop_bit (bags_shift c + k) (of_nat (?N mod 2 ^ heap_shift c k) :: size_t) = of_nat t"
    using lt ex(3-5) by (simp_all only: and_mask_of_nat_word drop_bit_of_nat_word)
  have item: "unat ((of_nat h :: size_t) AND of_nat BIBOP_BAG_SET_MASK) = h mod 4"
  proof -
    have m: "(of_nat BIBOP_BAG_SET_MASK :: size_t) = mask 2"
      by (simp add: BIBOP_BAG_SET_MASK_def BIBOP_BAG_SET_SIZE_def mask_eq_exp_minus_1)
    have "unat ((of_nat h :: size_t) AND mask 2) = unat (of_nat h :: size_t) mod 2 ^ 2"
      by (rule unat_and_mask)
    then show ?thesis unfolding m unat_of_nat_less [OF lt(4)] by simp
  qed
  have ti: "unat (of_nat t :: size_t) = t" "unat (of_nat b :: size_t) = b"
    using lt by (simp_all only: unat_of_nat_less)
  note bag = bag_isD [OF table_ok_bag [OF tb t b]]
  have slot: "sb + of_nat (h * 2 ^ ceil_shift c k) + of_nat (bag_shadow c k t b)
      + of_nat (d div 2 ^ (4 + b)) * of_nat (2 ^ info_shift c)
      = slot_addr c k sb h t b (d div 2 ^ (4 + b))"
    by (simp add: slot_addr_def slot_off_def)
  have d64: "d < 2 ^ 64" using lt(3) by simp
  show ?thesis
    unfolding getShadowObjectInfo_def geo Let_def off bagoff idx ti bag
      and_mask_zero_iff [OF d64] push_bit_of_nat_word drop_bit_of_nat_word [OF lt(3)] item info_power slot
    by simp
qed

lemma object_in_bag:
  assumes k: "bag_shift_ok c k" and b: "b < usable_bags c" and i: "i < objects c k b"
  shows "i * 2 ^ (4 + b) + 2 ^ (4 + b) + guard_reach c k b \<le> 2 ^ k"
proof -
  have "i * 2 ^ (4 + b) + 2 ^ (4 + b) = Suc i * 2 ^ (4 + b)" by simp
  also have "\<dots> \<le> objects c k b * 2 ^ (4 + b)" using i by (intro mult_le_mono1) simp
  also have "\<dots> = 2 ^ k - guard_reach c k b" using objects_times_class [OF k b] .
  finally show ?thesis using guard_reach_less [OF k b] by linarith
qed

lemma object_offset_lt:
  assumes "bag_shift_ok c k" "b < usable_bags c" "i < objects c k b"
  shows "i * 2 ^ (4 + b) < 2 ^ k"
proof -
  have "0 < (2::nat) ^ (4 + b)" by simp
  then show ?thesis using object_in_bag [OF assms] by linarith
qed

lemma locate_object:
  assumes k: "bag_shift_ok c k" and tb: "table_ok c k hb tb" and v: "valid_obj c k h t b i"
  shows "getShadowObjectInfo c (the_geometry c k hb sb) tb (obj_addr c k hb h t b i) =
    Inr (slot_addr c k sb h t b i, (t, b), h mod 4)"
proof -
  note v' = v [unfolded valid_obj_def]
  have d: "i * 2 ^ (4 + b) < 2 ^ k"
    using v' by (intro object_offset_lt [OF k]) simp_all
  have "i * 2 ^ (4 + b) div 2 ^ (4 + b) = i" by simp
  then show ?thesis
    using locate_bag_address [OF k tb _ _ _ d, where h = h and t = t and sb = sb] v'
    by (simp add: obj_addr_def obj_off_def)
qed

lemma locate_object_bag:
  assumes k: "bag_shift_ok c k" and bag: "bag_is c k hb t b bag" and v: "valid_obj c k h t b i"
  shows "getShadowObjectInfo_bag c (the_geometry c k hb sb) (obj_addr c k hb h t b i) bag =
    slot_addr c k sb h t b i"
proof -
  note v' = v [unfolded valid_obj_def]
  have bn: "b < BIBOP_NUM_BAGS c" using v' usable_less_bags(1) by (meson less_le_trans)
  let ?d = "i * 2 ^ (4 + b)"
  have d: "?d < 2 ^ k"
    using v' by (intro object_offset_lt [OF k]) simp_all
  let ?N = "h * 2 ^ heap_shift c k + bag_off c k t b + ?d"
  have N: "?N < 2 ^ LENGTH(64)" using heap_offset_lt [OF k _ _ bn d, of h t] v' by simp
  note ex = heap_digits_extract [OF _ bn d, of t ?N h, OF _ refl]
  have lt: "?N div 2 ^ k < 2 ^ LENGTH(64)" using N by (meson div_le_dividend le_less_trans)
  have off: "obj_addr c k hb h t b i - hb = of_nat ?N"
    unfolding obj_addr_def obj_off_def by (rule of_nat_diff_add)
  have bagoff: "(of_nat ?N :: size_t) AND mask k = of_nat ?d"
    "drop_bit k (of_nat ?N :: size_t) = of_nat (?N div 2 ^ k)"
    "drop_bit (bags_shift c + 7) (of_nat (?N div 2 ^ k) :: size_t) = of_nat h"
    using N ex v' lt by (simp_all only: and_mask_of_nat_word drop_bit_of_nat_word)
  have dlt: "?d < 2 ^ LENGTH(64)" using N by linarith
  have i: "?d div 2 ^ (4 + b) = i" by simp
  show ?thesis
    unfolding getShadowObjectInfo_bag_def geo Let_def off bagoff
      bag_isD [OF bag] push_bit_of_nat_word drop_bit_of_nat_word [OF dlt] i info_power
    by (simp add: slot_addr_def slot_off_def)
qed

section \<open>Encoding\<close>

text \<open>The offset of a slot: heap number and offset in the shadow area of the heap.\<close>

lemma slot_local:
  assumes "t < MAX_ALIVE_THREADS" "b < usable_bags c" "i < objects c k b"
  shows "bag_shadow c k t b + i * 2 ^ info_shift c + 2 ^ info_shift c \<le> shadow_per_heap c k"
    and "bag_shadow c k t b + i * 2 ^ info_shift c < 2 ^ ceil_shift c k"
proof -
  have "(t * objects_per_thread c k + objects_below c k b + Suc i) * 2 ^ info_shift c
      \<le> shadow_per_heap c k"
    using assms by (intro thread_slots_le) simp_all
  then show le: "bag_shadow c k t b + i * 2 ^ info_shift c + 2 ^ info_shift c \<le> shadow_per_heap c k"
    by (simp add: bag_shadow_def algebra_simps)
  have "0 < (2::nat) ^ info_shift c" by simp
  then show "bag_shadow c k t b + i * 2 ^ info_shift c < 2 ^ ceil_shift c k"
    using le shadow_per_heap_le_ceil [of c k] by linarith
qed

lemma slot_off_lt:
  assumes k: "bag_shift_ok c k" and v: "valid_obj c k h t b i"
  shows "slot_off c k h t b i < 2 ^ 43"
proof -
  note v' = v [unfolded valid_obj_def]
  have "h * 2 ^ ceil_shift c k + (bag_shadow c k t b + i * 2 ^ info_shift c) < BIBOP_NUM_HEAPS * 2 ^ ceil_shift c k"
    using v' slot_local(2) [of t b c i k] by (intro digit_less) simp_all
  moreover have "(2::nat) ^ ceil_shift c k \<le> 2 ^ 33"
    using ceil_shift_le [OF k] by (intro power_increasing) simp_all
  ultimately show ?thesis by (simp add: slot_off_def BIBOP_NUM_HEAPS_def)
qed

text \<open>What the code reads off the address of a slot.\<close>

lemma slot_digits:
  fixes sb :: addr
  assumes k: "bag_shift_ok c k" and v: "valid_obj c k h t b i"
  defines "off \<equiv> slot_addr c k sb h t b i - sb"
  shows "signed_drop_bit (ceil_shift c k) off = (of_nat h :: size_t)"
    and "drop_bit (info_shift c) ((off AND mask (ceil_shift c k)) - of_nat (bag_shadow c k t b))
      = (of_nat i :: size_t)"
proof -
  note v' = v [unfolded valid_obj_def]
  let ?M = "slot_off c k h t b i" and ?l = "bag_shadow c k t b + i * 2 ^ info_shift c"
  have M: "?M < 2 ^ LENGTH(64)" using slot_off_lt [OF k v] by simp
  have off: "off = of_nat ?M" unfolding off_def slot_addr_def by (rule of_nat_diff_add)
  have l: "?l < 2 ^ ceil_shift c k" using v' by (intro slot_local) simp_all
  have eq: "?M = h * 2 ^ ceil_shift c k + ?l" by (simp add: slot_off_def)
  have "?M div 2 ^ ceil_shift c k = h" unfolding eq using l by (rule digit_div)
  moreover have "signed_drop_bit (ceil_shift c k) (of_nat ?M :: size_t) = drop_bit (ceil_shift c k) (of_nat ?M)"
    using slot_off_lt [OF k v] M by (intro signed_drop_bit_nonneg) (simp only: unat_of_nat_less, simp)
  ultimately show "signed_drop_bit (ceil_shift c k) off = (of_nat h :: size_t)"
    unfolding off by (simp only: drop_bit_of_nat_word [OF M])
  have "?M mod 2 ^ ceil_shift c k = ?l" unfolding eq using l by (rule digit_mod)
  then have sub: "(off AND mask (ceil_shift c k)) - of_nat (bag_shadow c k t b) = of_nat (i * 2 ^ info_shift c)"
    unfolding off and_mask_of_nat_word [OF M] by (simp only: of_nat_add add_diff_cancel_left')
  have "i * 2 ^ info_shift c < 2 ^ LENGTH(64)" using M by (simp add: slot_off_def)
  then show "drop_bit (info_shift c) ((off AND mask (ceil_shift c k)) - of_nat (bag_shadow c k t b))
      = (of_nat i :: size_t)"
    unfolding sub by (simp only: drop_bit_of_nat_word) simp
qed

lemma encode_slot:
  assumes k: "bag_shift_ok c k" and bag: "bag_is c k hb t b bag" and v: "valid_obj c k h t b i"
  shows "getAddrFromShadowInfo (the_geometry c k hb sb) (slot_addr c k sb h t b i) bag
    = obj_addr c k hb h t b i"
  unfolding getAddrFromShadowInfo_def geo Let_def bag_isD [OF bag]
    slot_digits [OF k v] push_bit_of_nat_word
  by (simp add: obj_addr_def obj_off_def)

lemma slot_heap_number:
  assumes k: "bag_shift_ok c k" and v: "valid_obj c k h t b i"
  shows "getHeapNumber_shadow (the_geometry c k hb sb) (slot_addr c k sb h t b i) = of_nat h"
  using v unfolding getHeapNumber_shadow_def geo slot_digits [OF k v]
  by (intro ucast_of_nat_less) (simp add: valid_obj_def BIBOP_NUM_HEAPS_def)

lemma addr_heap_number:
  assumes k: "bag_shift_ok c k" and v: "valid_obj c k h t b i"
  shows "getHeapNumber_addr (the_geometry c k hb sb) (obj_addr c k hb h t b i) = of_nat h"
proof -
  note v' = v [unfolded valid_obj_def]
  have bn: "b < BIBOP_NUM_BAGS c" using v' usable_less_bags(1) by (meson less_le_trans)
  let ?d = "i * 2 ^ (4 + b)"
  have d: "?d < 2 ^ k"
    using v' by (intro object_offset_lt [OF k]) simp_all
  let ?N = "h * 2 ^ heap_shift c k + bag_off c k t b + ?d"
  have N: "?N < BIBOP_NUM_HEAPS * 2 ^ heap_shift c k" "BIBOP_NUM_HEAPS * 2 ^ heap_shift c k \<le> 2 ^ 46"
    using heap_offset_lt [OF k _ _ bn d, of h t] v' by simp_all
  have N64: "?N < 2 ^ LENGTH(64)" using N by simp
  note ex = heap_digits_extract [OF _ bn d, of t ?N h, OF _ refl]
  have "?N div 2 ^ k < 2 ^ 22"
  proof -
    have "?N < BIBOP_NUM_HEAPS * 2 ^ (7 + bags_shift c) * 2 ^ k"
      using N(1) by (simp add: heap_shift_def power_add mult_ac)
    then have "?N div 2 ^ k < BIBOP_NUM_HEAPS * 2 ^ (7 + bags_shift c)"
      by (simp add: less_mult_imp_div_less)
    then show ?thesis by (simp add: BIBOP_NUM_HEAPS_def bags_shift_def split: if_splits)
  qed
  then have lt: "?N div 2 ^ k < 2 ^ LENGTH(32)" "?N div 2 ^ k < 2 ^ LENGTH(64)" by simp_all
  have off: "obj_addr c k hb h t b i - hb = of_nat ?N"
    unfolding obj_addr_def obj_off_def by (rule of_nat_diff_add)
  show ?thesis
    unfolding getHeapNumber_addr_def geo Let_def off
      drop_bit_of_nat_word [OF N64] ucast_of_nat_less [OF lt(2)]
    using drop_bit_of_nat_word [OF lt(1), of "bags_shift c + 7"] ex(3) v' by simp
qed

section \<open>Neighbours\<close>

lemma neighbor_left:
  assumes k: "bag_shift_ok c k" and bag: "bag_is c k hb t b bag" and v: "valid_obj c k h t b i"
  shows "getNextCanaryNeighbor c (the_geometry c k hb sb) (slot_addr c k sb h t b i) bag LEFT =
    (if 0 < i then Some (slot_addr c k sb h t b (i - 1))
     else if h < BIBOP_BAG_SET_SIZE then None
     else Some (slot_addr c k sb (h - BIBOP_BAG_SET_SIZE) t b (objects c k b - 1)))"
proof -
  note v' = v [unfolded valid_obj_def]
  have i64: "i < 2 ^ LENGTH(64)" using v' objects_lt [OF k, of b] by simp
  have z: "(of_nat i :: size_t) = 0 \<longleftrightarrow> i = 0"
    using of_nat_eq_word_iff [of i 0, where ?'a = 64] i64 by simp
  have h4: "(of_nat h :: u32) < of_nat BIBOP_BAG_SET_SIZE \<longleftrightarrow> h < BIBOP_BAG_SET_SIZE"
    using v' by (intro of_nat_less_word_iff) (simp_all add: BIBOP_NUM_HEAPS_def BIBOP_BAG_SET_SIZE_def)
  have "slot_addr c k sb h t b i - of_nat (2 ^ info_shift c) = slot_addr c k sb h t b (i - 1)" if "0 < i"
  proof -
    have "slot_off c k h t b i = slot_off c k h t b (i - 1) + 2 ^ info_shift c"
      using that by (cases i) (simp_all add: slot_off_def)
    then show ?thesis unfolding slot_addr_def by simp
  qed
  moreover have "slot_addr c k sb h t b 0 - of_nat (4 * 2 ^ ceil_shift c k - (objects c k b - 1) * 2 ^ info_shift c)
      = slot_addr c k sb (h - BIBOP_BAG_SET_SIZE) t b (objects c k b - 1)" if "\<not> h < BIBOP_BAG_SET_SIZE"
  proof -
    have "(objects c k b - 1) * 2 ^ info_shift c \<le> 4 * 2 ^ ceil_shift c k"
      using bag_slots_le_ceil [of b c "objects c k b - 1" k] v' by simp
    moreover from that have "4 \<le> h" by (simp add: BIBOP_BAG_SET_SIZE_def)
    then obtain h' where "h = 4 + h'" by (rule less_eqE)
    ultimately have "slot_off c k h t b 0 =
        slot_off c k (h - BIBOP_BAG_SET_SIZE) t b (objects c k b - 1) +
        (4 * 2 ^ ceil_shift c k - (objects c k b - 1) * 2 ^ info_shift c)"
      by (simp add: slot_off_def BIBOP_BAG_SET_SIZE_def algebra_simps)
    then show ?thesis unfolding slot_addr_def by simp
  qed
  ultimately show ?thesis
    unfolding getNextCanaryNeighbor_def Let_def slot_heap_number [OF k v] h4 info_power
      bag_isD [OF bag] geo slot_digits [OF k v] z
    by simp
qed

lemma neighbor_right:
  assumes k: "bag_shift_ok c k" and bag: "bag_is c k hb t b bag" and v: "valid_obj c k h t b i"
  shows "getNextCanaryNeighbor c (the_geometry c k hb sb) (slot_addr c k sb h t b i) bag RIGHT =
    Some (if i = objects c k b - 1 then slot_addr c k sb (h + BIBOP_BAG_SET_SIZE) t b 0
          else slot_addr c k sb h t b (i + 1))"
proof -
  note v' = v [unfolded valid_obj_def]
  have n: "objects c k b \<le> 2 ^ 20" using objects_lt [OF k] v' by simp
  have u: "ucast (of_nat (objects c k b - 1) :: u32) = (of_nat (objects c k b - 1) :: size_t)"
    using n by (intro ucast_of_nat_less) simp
  have z: "(of_nat i :: size_t) = of_nat (objects c k b - 1) \<longleftrightarrow> i = objects c k b - 1"
    using v' n by (intro of_nat_eq_word_iff) simp_all
  have "slot_addr c k sb h t b i + of_nat (2 ^ info_shift c) = slot_addr c k sb h t b (i + 1)"
    by (simp add: slot_addr_def slot_off_def)
  moreover have "slot_addr c k sb h t b (objects c k b - 1)
      + of_nat (4 * 2 ^ ceil_shift c k - (objects c k b - 1) * 2 ^ info_shift c)
      = slot_addr c k sb (h + BIBOP_BAG_SET_SIZE) t b 0"
  proof -
    have "(objects c k b - 1) * 2 ^ info_shift c \<le> 4 * 2 ^ ceil_shift c k"
      using bag_slots_le_ceil [of b c "objects c k b - 1" k] v' by simp
    then have "slot_off c k h t b (objects c k b - 1) +
        (4 * 2 ^ ceil_shift c k - (objects c k b - 1) * 2 ^ info_shift c)
        = slot_off c k (h + BIBOP_BAG_SET_SIZE) t b 0"
      by (simp add: slot_off_def BIBOP_BAG_SET_SIZE_def algebra_simps)
    then show ?thesis unfolding slot_addr_def by (rule offset_add)
  qed
  ultimately show ?thesis
    unfolding getNextCanaryNeighbor_def Let_def slot_heap_number [OF k v] info_power u
      bag_isD [OF bag] geo slot_digits [OF k v] z
    by simp
qed

end
