(* ===== verification/BibopSpace.thy ===== *)
theory BibopSpace
  imports BibopCodec
begin

text \<open>
  What the coordinates mean in memory: objects are pairwise disjoint byte ranges, so are
  their shadow slots; the guard pages of \<open>initialize\<close> and of the bump pointer cover no
  object; with guard pages the guard of the last usable bag covers all the unusable bags of
  the thread; a request gets the smallest class it fits in.

  \<open>shadow_fits\<close> says which heaps have their shadow slots inside the mapped shadow memory:
  the mapping has \<open>BIBOP_NUM_HEAPS * _shadowMemSizePerHeap\<close> bytes, the index uses the
  power of two above \<open>_shadowMemSizePerHeap\<close>.

  Locale \<open>object_codec\<close> collects what the allocation and free paths need to know about
  addresses and slots.
\<close>

section \<open>Byte ranges\<close>

definition obj_range :: "build \<Rightarrow> nat \<Rightarrow> nat \<Rightarrow> nat \<Rightarrow> nat \<Rightarrow> nat \<Rightarrow> nat set" where
  "obj_range c k h t b i = {obj_off c k h t b i..<obj_off c k h t b i + 2 ^ (4 + b)}"

definition slot_range :: "build \<Rightarrow> nat \<Rightarrow> nat \<Rightarrow> nat \<Rightarrow> nat \<Rightarrow> nat \<Rightarrow> nat set" where
  "slot_range c k h t b i = {slot_off c k h t b i..<slot_off c k h t b i + 2 ^ info_shift c}"

definition guard_off :: "build \<Rightarrow> nat \<Rightarrow> nat \<Rightarrow> nat \<Rightarrow> nat \<Rightarrow> nat" where
  "guard_off c k h t b = h * 2 ^ heap_shift c k + bag_off c k t b + (2 ^ k - guard_reach c k b)"

definition guard_range :: "build \<Rightarrow> nat \<Rightarrow> nat \<Rightarrow> nat \<Rightarrow> nat \<Rightarrow> nat set" where
  "guard_range c k h t b = {guard_off c k h t b..<guard_off c k h t b + guard_len c k b}"

lemma obj_range_digits:
  assumes k: "bag_shift_ok c k" and b: "b < usable_bags c" and i: "i < objects c k b"
    and x: "x \<in> obj_range c k h t b i"
  obtains e where "x = h * 2 ^ heap_shift c k + bag_off c k t b + (i * 2 ^ (4 + b) + e)"
    "e < 2 ^ (4 + b)" "i * 2 ^ (4 + b) + e < 2 ^ k - guard_reach c k b"
proof -
  let ?e = "x - obj_off c k h t b i"
  have "x = obj_off c k h t b i + ?e" "?e < 2 ^ (4 + b)" using x by (auto simp: obj_range_def)
  moreover have "i * 2 ^ (4 + b) + ?e < 2 ^ k - guard_reach c k b"
    using object_in_bag [OF k b i] \<open>?e < _\<close> by linarith
  ultimately show thesis by (intro that [of ?e]) (simp_all add: obj_off_def)
qed

lemma obj_ranges_disjoint:
  assumes k: "bag_shift_ok c k" and v: "valid_obj c k h t b i" and w: "valid_obj c k h' t' b' i'"
    and x: "x \<in> obj_range c k h t b i" and y: "x \<in> obj_range c k h' t' b' i'"
  shows "(h, t, b, i) = (h', t', b', i')"
proof -
  note v' = v [unfolded valid_obj_def] and w' = w [unfolded valid_obj_def]
  obtain e where e: "x = h * 2 ^ heap_shift c k + bag_off c k t b + (i * 2 ^ (4 + b) + e)"
    "e < 2 ^ (4 + b)" "i * 2 ^ (4 + b) + e < 2 ^ k - guard_reach c k b"
    using obj_range_digits [OF k _ _ x] v' by metis
  obtain f where f: "x = h' * 2 ^ heap_shift c k + bag_off c k t' b' + (i' * 2 ^ (4 + b') + f)"
    "f < 2 ^ (4 + b')" "i' * 2 ^ (4 + b') + f < 2 ^ k - guard_reach c k b'"
    using obj_range_digits [OF k _ _ y] w' by metis
  have bn: "b < BIBOP_NUM_BAGS c" "b' < BIBOP_NUM_BAGS c"
    using v' w' usable_less_bags(1) [of c] by simp_all
  have d: "i * 2 ^ (4 + b) + e < 2 ^ k" "i' * 2 ^ (4 + b') + f < 2 ^ k" using e(3) f(3) by linarith+
  note ex = heap_digits_extract [OF _ bn(1) d(1) e(1)] and fx = heap_digits_extract [OF _ bn(2) d(2) f(1)]
  have "b = b'" "h = h'" "t = t'" using ex fx v' w' by metis+
  moreover have "i * 2 ^ (4 + b) + e = i' * 2 ^ (4 + b') + f" using ex(1) fx(1) v' w' by metis
  moreover have "(i * 2 ^ (4 + b) + e) div 2 ^ (4 + b) = i" using e(2) by (rule digit_div)
  moreover have "(i' * 2 ^ (4 + b') + f) div 2 ^ (4 + b') = i'" using f(2) by (rule digit_div)
  ultimately show ?thesis by simp
qed

lemma obj_off_lt:
  assumes k: "bag_shift_ok c k" and v: "valid_obj c k h t b i"
  shows "obj_off c k h t b i + 2 ^ (4 + b) \<le> BIBOP_NUM_HEAPS * 2 ^ heap_shift c k"
    "obj_off c k h t b i < 2 ^ 46"
proof -
  note v' = v [unfolded valid_obj_def]
  have bn: "b < BIBOP_NUM_BAGS c" using v' usable_less_bags(1) by (meson less_le_trans)
  let ?d = "i * 2 ^ (4 + b) + (2 ^ (4 + b) - 1)"
  have p: "0 < (2::nat) ^ (4 + b)" by simp
  have "i * 2 ^ (4 + b) + 2 ^ (4 + b) + guard_reach c k b \<le> 2 ^ k"
    using v' by (intro object_in_bag [OF k]) simp_all
  then have d: "?d < 2 ^ k" using p by linarith
  have "h * 2 ^ heap_shift c k + bag_off c k t b + ?d < BIBOP_NUM_HEAPS * 2 ^ heap_shift c k"
    using heap_offset_lt(1) [OF k _ _ bn d, of h t] v' by simp
  then show "obj_off c k h t b i + 2 ^ (4 + b) \<le> BIBOP_NUM_HEAPS * 2 ^ heap_shift c k"
    unfolding obj_off_def using p by linarith
  moreover have "BIBOP_NUM_HEAPS * 2 ^ heap_shift c k \<le> 2 ^ 46"
    using heap_offset_lt(2) [OF k _ _ bn d, of h t] v' by simp
  ultimately show "obj_off c k h t b i < 2 ^ 46" using p by linarith
qed

section \<open>Slots\<close>

lemma slot_off_inj:
  assumes v: "valid_obj c k h t b i" and w: "valid_obj c k h' t' b' i'"
    and x: "x \<in> slot_range c k h t b i" and y: "x \<in> slot_range c k h' t' b' i'"
  shows "(h, t, b, i) = (h', t', b', i')"
proof -
  note v' = v [unfolded valid_obj_def] and w' = w [unfolded valid_obj_def]
  define idx where "idx t b i = t * objects_per_thread c k + (objects_below c k b + i)" for t b i
  have off: "slot_off c k h t b i = h * 2 ^ ceil_shift c k + idx t b i * 2 ^ info_shift c" for h t b i
    by (simp add: slot_off_def bag_shadow_def idx_def algebra_simps)
  have lt: "idx t b i * 2 ^ info_shift c + e < 2 ^ ceil_shift c k"
    if "t < MAX_ALIVE_THREADS" "b < usable_bags c" "i < objects c k b" "e < 2 ^ info_shift c" for t b i e
    using slot_local(1) [OF that(1-3)] shadow_per_heap_le_ceil [of c k] that(4)
    by (simp add: bag_shadow_def idx_def algebra_simps)
  let ?e = "x - slot_off c k h t b i" and ?f = "x - slot_off c k h' t' b' i'"
  have e: "x = h * 2 ^ ceil_shift c k + (idx t b i * 2 ^ info_shift c + ?e)" "?e < 2 ^ info_shift c"
    using x by (auto simp: slot_range_def off)
  have f: "x = h' * 2 ^ ceil_shift c k + (idx t' b' i' * 2 ^ info_shift c + ?f)" "?f < 2 ^ info_shift c"
    using y by (auto simp: slot_range_def off)
  have le: "idx t b i * 2 ^ info_shift c + ?e < 2 ^ ceil_shift c k" using v' e(2) by (intro lt) simp_all
  have lf: "idx t' b' i' * 2 ^ info_shift c + ?f < 2 ^ ceil_shift c k" using w' f(2) by (intro lt) simp_all
  have h: "h = h'" using digit_div [OF le, of h] digit_div [OF lf, of h'] e(1) f(1) by metis
  have "idx t b i * 2 ^ info_shift c + ?e = idx t' b' i' * 2 ^ info_shift c + ?f"
    using digit_mod [OF le, of h] digit_mod [OF lf, of h'] e(1) f(1) by metis
  then have id: "idx t b i = idx t' b' i'"
    using digit_div [OF e(2), of "idx t b i"] digit_div [OF f(2), of "idx t' b' i'"] by metis
  have below: "objects_below c k b + i < objects_per_thread c k"
    if "b < usable_bags c" "i < objects c k b" for b i
  proof -
    have "objects_below c k b + i < objects_below c k (Suc b)" using that by (simp add: objects_below_Suc)
    also have "\<dots> \<le> objects_per_thread c k"
      unfolding objects_per_thread_def using that by (intro objects_below_mono) simp
    finally show ?thesis .
  qed
  have l1: "objects_below c k b + i < objects_per_thread c k"
    and l2: "objects_below c k b' + i' < objects_per_thread c k" using below v' w' by simp_all
  have t: "t = t'" and m: "objects_below c k b + i = objects_below c k b' + i'"
    using digit_div [OF l1, of t] digit_div [OF l2, of t'] digit_mod [OF l1, of t] digit_mod [OF l2, of t'] id
    unfolding idx_def by metis+
  have "b = b'"
  proof (rule ccontr)
    have no: False if "b1 < b2" "i1 < objects c k b1" "objects_below c k b1 + i1 = objects_below c k b2 + i2"
      for b1 b2 i1 i2
      using objects_below_mono [of "Suc b1" b2 c k] that by (simp add: objects_below_Suc)
    assume "b \<noteq> b'"
    then consider "b < b'" | "b' < b" by linarith
    then show False using no [of b b' i i'] no [of b' b i' i] m v' w' by cases simp_all
  qed
  with h t m show ?thesis by simp
qed

text \<open>The mapped part of the shadow memory.\<close>

definition shadow_fits :: "build \<Rightarrow> nat \<Rightarrow> nat \<Rightarrow> bool" where
  "shadow_fits c k h \<longleftrightarrow>
    h * 2 ^ ceil_shift c k + shadow_per_heap c k \<le> BIBOP_NUM_HEAPS * shadow_per_heap c k"

lemma slot_in_shadow:
  assumes "shadow_fits c k h" "t < MAX_ALIVE_THREADS" "b < usable_bags c" "i < objects c k b"
  shows "slot_off c k h t b i + 2 ^ info_shift c \<le> BIBOP_NUM_HEAPS * shadow_per_heap c k"
  using assms(1) slot_local(1) [OF assms(2-4)] unfolding shadow_fits_def slot_off_def by linarith

lemma shadow_fits_mono: "shadow_fits c k h \<Longrightarrow> h' \<le> h \<Longrightarrow> shadow_fits c k h'"
  unfolding shadow_fits_def using mult_le_mono1 [of h' h "2 ^ ceil_shift c k"] by linarith

text \<open>Half of the heaps always have their slots inside: the rounded size is less than twice the
  size.\<close>

lemma shadow_fits_half:
  assumes k: "bag_shift_ok c k" and h: "2 * h < BIBOP_NUM_HEAPS"
  shows "shadow_fits c k h"
proof -
  let ?p = "shadow_per_heap c k"
  have p: "0 < ?p" by (rule shadow_per_heap_bounds(1) [OF k])
  have ceil: "2 ^ ceil_shift c k \<le> 2 * ?p"
  proof (cases "?p = 1")
    case True
    then show ?thesis by (simp add: ceil_shift_def)
  next
    case False
    then have lo: "2 ^ (ceil_shift c k - 1) \<le> ?p - 1"
      using p unfolding ceil_shift_def by (intro bit_len_lower) simp
    have "0 < ceil_shift c k" using False p by (simp add: ceil_shift_def bit_len_pos)
    then have "(2::nat) ^ ceil_shift c k = 2 * 2 ^ (ceil_shift c k - 1)" by (cases "ceil_shift c k") simp_all
    then show ?thesis using lo by linarith
  qed
  have "h * 2 ^ ceil_shift c k \<le> h * (2 * ?p)" by (rule mult_le_mono2 [OF ceil])
  moreover have "h * (2 * ?p) + ?p \<le> BIBOP_NUM_HEAPS * ?p"
    using mult_le_mono1 [of "2 * h + 1" BIBOP_NUM_HEAPS ?p] h by (simp add: algebra_simps)
  ultimately show ?thesis unfolding shadow_fits_def by linarith
qed

section \<open>Guard pages\<close>

text \<open>Where the bytes of a guard are: at the end of their bag, behind its last object, or, for
  the last usable bag, in the unusable bags of the same thread.\<close>

lemma guard_range_digits:
  assumes k: "bag_shift_ok c k" and b: "b < usable_bags c" and x: "x \<in> guard_range c k h t b"
  obtains b' d where "x = h * 2 ^ heap_shift c k + bag_off c k t b' + d" "d < 2 ^ k"
    "b' < BIBOP_NUM_BAGS c" "b' = b \<and> 2 ^ k - guard_reach c k b \<le> d \<or> usable_bags c \<le> b'"
proof -
  have r: "guard_reach c k b \<le> 2 ^ k" using guard_reach_less [OF k b] by linarith
  let ?base = "h * 2 ^ heap_shift c k + bag_off c k t b"
  define y where "y = x - ?base"
  have y: "x = ?base + y" "2 ^ k - guard_reach c k b \<le> y" "y < 2 ^ k - guard_reach c k b + guard_len c k b"
    using x by (auto simp: guard_range_def guard_off_def y_def)
  have "y < 2 ^ k + (if b = usable_bags c - 1 then (BIBOP_NUM_BAGS c - usable_bags c) * 2 ^ k else 0)"
    using y(3) r by (auto simp: guard_len_def split: if_splits)
  then have y': "y < 2 ^ k \<or> b = usable_bags c - 1 \<and> y < (1 + (BIBOP_NUM_BAGS c - usable_bags c)) * 2 ^ k"
    by (simp split: if_splits)
  show thesis
  proof (cases "y < 2 ^ k")
    case True
    then show thesis using y b usable_less_bags(1) [of c] by (intro that [of b y]) auto
  next
    case False
    with y' have last: "b = usable_bags c - 1" and lt: "y < (1 + (BIBOP_NUM_BAGS c - usable_bags c)) * 2 ^ k"
      by simp_all
    let ?q = "y div 2 ^ k"
    have q: "?q < 1 + (BIBOP_NUM_BAGS c - usable_bags c)" using lt by (rule less_mult_imp_div_less)
    have q1: "1 \<le> ?q" using False by (simp add: Suc_leI div_greater_zero_iff)
    have "y = ?q * 2 ^ k + y mod 2 ^ k" by (rule div_mult_mod_eq [symmetric])
    then have "x = h * 2 ^ heap_shift c k + bag_off c k t (b + ?q) + y mod 2 ^ k"
      unfolding y(1) bag_off_def by (simp add: algebra_simps)
    then show thesis
      using q q1 last b usable_less_bags(1) [of c] by (intro that [of "b + ?q" "y mod 2 ^ k"]) auto
  qed
qed

lemma guard_obj_disjoint:
  assumes k: "bag_shift_ok c k" and v: "valid_obj c k h t b i"
    and g: "b' < usable_bags c" "t' < MAX_ALIVE_THREADS"
  shows "obj_range c k h t b i \<inter> guard_range c k h' t' b' = {}"
proof (rule equals0I)
  note v' = v [unfolded valid_obj_def]
  fix x assume "x \<in> obj_range c k h t b i \<inter> guard_range c k h' t' b'"
  then have x: "x \<in> obj_range c k h t b i" and y: "x \<in> guard_range c k h' t' b'" by simp_all
  obtain e where e: "x = h * 2 ^ heap_shift c k + bag_off c k t b + (i * 2 ^ (4 + b) + e)"
    "i * 2 ^ (4 + b) + e < 2 ^ k - guard_reach c k b"
    using obj_range_digits [OF k _ _ x] v' by metis
  obtain b'' d where d: "x = h' * 2 ^ heap_shift c k + bag_off c k t' b'' + d" "d < 2 ^ k"
    "b'' < BIBOP_NUM_BAGS c" "b'' = b' \<and> 2 ^ k - guard_reach c k b' \<le> d \<or> usable_bags c \<le> b''"
    using guard_range_digits [OF k g(1) y] by metis
  have bn: "b < BIBOP_NUM_BAGS c" using v' usable_less_bags(1) by (meson less_le_trans)
  have lt: "i * 2 ^ (4 + b) + e < 2 ^ k" using e(2) by linarith
  note ex = heap_digits_extract [OF _ bn lt e(1)] and dx = heap_digits_extract [OF g(2) d(3,2,1)]
  have "b = b''" "i * 2 ^ (4 + b) + e = d" using ex dx v' by metis+
  with e(2) d(4) v' show False by auto
qed

text \<open>The guard starts where the last object ends, and with it the unusable bags are all
  protected.\<close>

lemma guard_follows_last_object:
  assumes k: "bag_shift_ok c k" and b: "b < usable_bags c"
  shows "guard_off c k h t b = obj_off c k h t b (objects c k b - 1) + 2 ^ (4 + b)"
  using last_obj_eq [OF k b] by (simp add: guard_off_def obj_off_def last_obj_def)

lemma unusable_bag_guarded:
  assumes k: "bag_shift_ok c k" and g: "ENABLE_GUARDPAGE c"
    and b: "usable_bags c \<le> b" "b < BIBOP_NUM_BAGS c" and d: "d < 2 ^ k"
  shows "h * 2 ^ heap_shift c k + bag_off c k t b + d \<in> guard_range c k h t (usable_bags c - 1)"
proof -
  let ?l = "usable_bags c - 1"
  have l: "?l < usable_bags c" using usable_less_bags(2) [of c] by simp
  have r: "guard_reach c k ?l \<le> 2 ^ k" using guard_reach_less [OF k l] by linarith
  obtain q where q: "b = ?l + Suc q" using b(1) l by (metis Suc_diff_1 add_Suc_right add_Suc le_Suc_ex usable_less_bags(2))
  then have "Suc q \<le> BIBOP_NUM_BAGS c - usable_bags c" using b(2) l by linarith
  then have "Suc q * 2 ^ k \<le> (BIBOP_NUM_BAGS c - usable_bags c) * 2 ^ k" by (rule mult_le_mono1)
  moreover have "bag_off c k t b = bag_off c k t ?l + Suc q * 2 ^ k"
    unfolding q bag_off_def by (simp add: algebra_simps)
  ultimately show ?thesis
    using d r g by (simp add: guard_range_def guard_off_def guard_len_def)
qed

section \<open>Size classes\<close>

definition class_bag :: "nat \<Rightarrow> nat" where
  "class_bag n = bit_len (n - 1) - 4"

lemma class_bag_least:
  "n \<le> 2 ^ (4 + class_bag n)" "n \<le> 2 ^ (4 + b) \<Longrightarrow> class_bag n \<le> b"
proof -
  have "n - 1 < 2 ^ bit_len (n - 1)" by (rule bit_len_upper)
  also have "\<dots> \<le> 2 ^ (4 + class_bag n)" by (intro power_increasing) (simp_all add: class_bag_def)
  finally show "n \<le> 2 ^ (4 + class_bag n)" by simp
  assume n: "n \<le> 2 ^ (4 + b)"
  have "0 < (2::nat) ^ (4 + b)" by simp
  then have "n - 1 < 2 ^ (4 + b)" using n by linarith
  then have "bit_len (n - 1) \<le> 4 + b" by (simp only: bit_len_le_iff)
  then show "class_bag n \<le> b" by (simp add: class_bag_def)
qed

lemma class_size_eq:
  assumes n: "n \<le> 2 ^ 31"
  shows "class_size (of_nat n) = of_nat (2 ^ (4 + class_bag n))"
proof (cases "n \<le> BIBOP_MIN_BLOCK_SIZE")
  case True
  then have "bit_len (n - 1) \<le> 4" by (simp add: bit_len_le_iff BIBOP_MIN_BLOCK_SIZE_def)
  moreover have "(of_nat n :: size_t) \<le> of_nat BIBOP_MIN_BLOCK_SIZE"
    using True n by (subst of_nat_le_word_iff) (simp_all add: BIBOP_MIN_BLOCK_SIZE_def)
  ultimately show ?thesis by (simp add: class_size_def class_bag_def BIBOP_MIN_BLOCK_SIZE_def)
next
  case nle: False
  then have gt: "16 < n" by (simp add: BIBOP_MIN_BLOCK_SIZE_def)
  let ?m = "bit_len (n - 1)"
  have big: "\<not> (of_nat n :: size_t) \<le> of_nat BIBOP_MIN_BLOCK_SIZE"
    using nle n by (subst of_nat_le_word_iff) (simp_all add: BIBOP_MIN_BLOCK_SIZE_def)
  have m: "4 \<le> ?m"
  proof (rule ccontr)
    assume "\<not> 4 \<le> ?m"
    then have "?m \<le> 4" by simp
    then show False using gt by (simp add: bit_len_le_iff)
  qed
  have "n - 1 < 2 ^ 31" using n by simp
  then have m31: "?m \<le> 31" by (simp only: bit_len_le_iff)
  have "(of_nat n - 1 :: size_t) = of_nat (n - 1)" using gt by (simp add: of_nat_diff)
  moreover have "(ucast (of_nat (n - 1) :: size_t) :: u32) = of_nat (n - 1)"
    using n by (intro ucast_of_nat_less) simp
  moreover have "unat (of_nat (n - 1) :: u32) = n - 1" using n by (intro unat_of_nat_less) simp
  ultimately have clz: "builtin_clz (ucast (of_nat n - 1 :: size_t) :: u32) = 32 - ?m"
    by (simp add: builtin_clz_def)
  have one: "(push_bit 32 1 :: size_t) = of_nat (2 ^ 32)" by (simp add: push_bit_eq_mult)
  have split: "(2::nat) ^ 32 = 2 ^ ?m * 2 ^ (32 - ?m)"
    unfolding power_add [symmetric] using m31 by simp
  have "(2::nat) ^ 32 div 2 ^ (32 - ?m) = 2 ^ ?m"
    unfolding split by (rule nonzero_mult_div_cancel_right) simp
  then have "drop_bit (32 - ?m) (of_nat (2 ^ 32) :: size_t) = of_nat (2 ^ ?m)"
    by (subst drop_bit_of_nat_word) simp_all
  moreover have "4 + class_bag n = ?m" using m by (simp add: class_bag_def)
  ultimately show ?thesis unfolding class_size_def clz one using big by simp
qed

lemma class_bag_usable:
  assumes "n \<le> 2 ^ large_shift c"
  shows "class_bag n < usable_bags c"
proof -
  have "n \<le> 2 ^ (4 + (large_shift c - 4))" using assms by (simp add: large_shift_def split: if_splits)
  then have "class_bag n \<le> large_shift c - 4" by (rule class_bag_least(2))
  then show ?thesis by (auto simp: size_defs split: if_splits)
qed

lemma getBagNum_class:
  assumes "b < usable_bags c"
  shows "getBagNum (the_geometry c k hb sb) (of_nat (2 ^ (4 + b))) = of_nat b"
proof -
  have "4 + b < 64" using assms by (simp add: size_defs split: if_splits)
  then have "LOG2 (of_nat (2 ^ (4 + b))) = 4 + b" by (rule LOG2_of_nat_power)
  then show ?thesis unfolding getBagNum_def geo by simp
qed

section \<open>The contract\<close>

text \<open>What a client may assume of addresses and slots.  \<open>locate\<close> is the search from an
  arbitrary address, \<open>encode\<close> and \<open>reslot\<close> work with a known bag.\<close>

locale object_codec =
  fixes objs :: "'o set"
    and addr_of :: "'o \<Rightarrow> addr" and slot_of :: "'o \<Rightarrow> addr" and bag_of :: "'o \<Rightarrow> 'b"
    and locate :: "addr \<Rightarrow> fg_error + addr \<times> 'b \<times> nat"
    and encode :: "addr \<Rightarrow> 'b \<Rightarrow> addr" and reslot :: "addr \<Rightarrow> 'b \<Rightarrow> addr"
  assumes locate_obj: "x \<in> objs \<Longrightarrow> \<exists>n. locate (addr_of x) = Inr (slot_of x, bag_of x, n)"
    and encode_obj: "x \<in> objs \<Longrightarrow> encode (slot_of x) (bag_of x) = addr_of x"
    and reslot_obj: "x \<in> objs \<Longrightarrow> reslot (addr_of x) (bag_of x) = slot_of x"
    and slot_inj: "inj_on slot_of objs"
begin

lemma addr_inj: "inj_on addr_of objs"
proof (rule inj_onI)
  fix x y assume x: "x \<in> objs" and y: "y \<in> objs" and eq: "addr_of x = addr_of y"
  have "slot_of x = slot_of y" using locate_obj [OF x] locate_obj [OF y] eq by auto
  then show "x = y" using slot_inj x y by (simp add: inj_on_def)
qed

lemma addr_eq_iff: "x \<in> objs \<Longrightarrow> y \<in> objs \<Longrightarrow> addr_of x = addr_of y \<longleftrightarrow> slot_of x = slot_of y"
  using addr_inj slot_inj by (auto simp: inj_on_def)

lemma encode_reslot: "x \<in> objs \<Longrightarrow> encode (reslot (addr_of x) (bag_of x)) (bag_of x) = addr_of x"
  by (simp add: encode_obj reslot_obj)

lemma locate_encode:
  "x \<in> objs \<Longrightarrow> \<exists>n. locate (encode (slot_of x) (bag_of x)) = Inr (slot_of x, bag_of x, n)"
  by (simp add: encode_obj locate_obj)

end

text \<open>The objects of a heap with a well-formed table of bags.\<close>

definition heap_objs :: "build \<Rightarrow> nat \<Rightarrow> addr \<Rightarrow> PerThreadBag list list \<Rightarrow> (nat \<times> nat \<times> nat \<times> nat) set" where
  "heap_objs c k hb tb =
    {(h, t, b, i). bag_shift_ok c k \<and> table_ok c k hb tb \<and> valid_obj c k h t b i}"

interpretation codec: object_codec "heap_objs c k hb tb"
  "\<lambda>(h, t, b, i). obj_addr c k hb h t b i" "\<lambda>(h, t, b, i). slot_addr c k sb h t b i"
  "\<lambda>(h, t, b, i). (t, b)" "getShadowObjectInfo c (the_geometry c k hb sb) tb"
  "\<lambda>s (t, b). getAddrFromShadowInfo (the_geometry c k hb sb) s (tb ! t ! b)"
  "\<lambda>a (t, b). getShadowObjectInfo_bag c (the_geometry c k hb sb) a (tb ! t ! b)"
  for c k hb sb tb
proof (unfold_locales, goal_cases)
  case (1 x)
  then show ?case by (auto simp: heap_objs_def locate_object)
next
  case (2 x)
  then show ?case
    by (auto simp: heap_objs_def valid_obj_def encode_slot dest: table_ok_bag intro!: encode_slot)
next
  case (3 x)
  then show ?case
    by (auto simp: heap_objs_def valid_obj_def dest: table_ok_bag intro!: locate_object_bag)
next
  case 4
  show ?case
  proof (rule inj_onI)
    fix x y :: "nat \<times> nat \<times> nat \<times> nat"
    assume "x \<in> heap_objs c k hb tb" and "y \<in> heap_objs c k hb tb"
      and "(\<lambda>(h, t, b, i). slot_addr c k sb h t b i) x = (\<lambda>(h, t, b, i). slot_addr c k sb h t b i) y"
    moreover obtain h t b i where x: "x = (h, t, b, i)" by (rule prod_cases4)
    moreover obtain h' t' b' i' where y: "y = (h', t', b', i')" by (rule prod_cases4)
    ultimately have eq: "slot_addr c k sb h t b i = slot_addr c k sb h' t' b' i'"
      and k: "bag_shift_ok c k" and v: "valid_obj c k h t b i" and w: "valid_obj c k h' t' b' i'"
      by (simp_all add: heap_objs_def)
    have "slot_off c k h t b i = slot_off c k h' t' b' i'"
      using eq slot_off_lt [OF k v] slot_off_lt [OF k w] unfolding slot_addr_def
      by (simp add: of_nat_eq_word_iff)
    then have "slot_off c k h t b i \<in> slot_range c k h t b i \<inter> slot_range c k h' t' b' i'"
      by (simp add: slot_range_def)
    then show "x = y" unfolding x y using slot_off_inj [OF v w] by blast
  qed
qed

end
