(* ===== verification/BibopHeap.thy ===== *)
theory BibopHeap
  imports BibopSpace
begin

text \<open>
  The operations of \<open>class BibopHeap\<close> (\<open>bibopheap.hh\<close>, lines 319-638 and 801-807):
  allocation from a free list or by the bump pointer, random guard pages, freeing with the
  canary checks, the size queries.

  The thread index is an argument; the entry points compute it with \<open>getThreadIndex\<close>.
  The spin locks guard the free lists and have no other effect; here the operations run one
  at a time.  A load or store outside the mapped heap, outside the mapped shadow memory, or on a
  page that a successful \<open>mprotect\<close> closed is \<open>Fault\<close>: the hardware signals it, or the program
  reads memory that is not the allocator's.
\<close>

section \<open>Memory\<close>

text \<open>\<open>x\<close> is on a page with \<open>PROT_NONE\<close>: some earlier \<open>mprotect\<close> that returned 0 covers it.
  The heap is never mapped again.\<close>

fun protected :: "env \<Rightarrow> trace \<Rightarrow> addr \<Rightarrow> bool" where
  "protected env [] x = False"
| "protected env (e # tr) x =
    ((case e of Mprotect p n \<Rightarrow> env (e # tr) = 0 \<and> x - p < n | _ \<Rightarrow> False) \<or> protected env tr x)"

definition heap_access :: "env \<Rightarrow> 'r bibop \<Rightarrow> addr \<Rightarrow> bool" where
  "heap_access env st x \<longleftrightarrow>
    x - heapBegin (geom st) < heapEnd (geom st) - heapBegin (geom st) \<and> \<not> protected env (calls st) x"

definition shadow_access :: "'r bibop \<Rightarrow> addr \<Rightarrow> bool" where
  "shadow_access st s \<longleftrightarrow>
    s - shadowMemBegin (geom st) < shadowMemEnd (geom st) - shadowMemBegin (geom st)"

definition load_byte :: "env \<Rightarrow> addr \<Rightarrow> 'r bibop \<Rightarrow> fg_error + byte" where
  "load_byte env x st = (if heap_access env st x then Inr (bytes st x) else Inl (Fault x))"

definition store_byte :: "env \<Rightarrow> addr \<Rightarrow> byte \<Rightarrow> 'r bibop \<Rightarrow> fg_error + 'r bibop" where
  "store_byte env x v st =
    (if heap_access env st x then Inr (st\<lparr> bytes := (bytes st)(x := v) \<rparr>) else Inl (Fault x))"

definition load_slot :: "addr \<Rightarrow> 'r bibop \<Rightarrow> fg_error + addr" where
  "load_slot s st = (if shadow_access st s then Inr (snext (lists st) s) else Inl (Fault s))"

definition store_slot :: "addr \<Rightarrow> addr \<Rightarrow> 'r bibop \<Rightarrow> fg_error + 'r bibop" where
  "store_slot s v st =
    (if shadow_access st s then Inr (st\<lparr> lists := set_next s v (lists st) \<rparr>) else Inl (Fault s))"

text \<open>\<open>memset (addr, 0, n)\<close>, byte by byte.\<close>

fun zero_bytes :: "env \<Rightarrow> addr \<Rightarrow> nat \<Rightarrow> 'r bibop \<Rightarrow> fg_error + 'r bibop" where
  "zero_bytes env x 0 st = Inr st"
| "zero_bytes env x (Suc n) st = bindE (store_byte env x 0 st) (zero_bytes env (x + 1) n)"

section \<open>Bags\<close>

definition get_bag :: "'r bibop \<Rightarrow> nat \<Rightarrow> nat \<Rightarrow> PerThreadBag" where
  "get_bag st t b = threadBag st ! t ! b"

definition set_bag :: "nat \<Rightarrow> nat \<Rightarrow> PerThreadBag \<Rightarrow> 'r bibop \<Rightarrow> 'r bibop" where
  "set_bag t b bag st = st\<lparr> threadBag := (threadBag st)[t := (threadBag st ! t)[b := bag]] \<rparr>"

definition set_position :: "nat \<Rightarrow> addr \<Rightarrow> PerThreadBag \<Rightarrow> PerThreadBag" where
  "set_position item p bag = bag\<lparr> position := (position bag)[item := p] \<rparr>"

definition set_last :: "nat \<Rightarrow> addr \<Rightarrow> PerThreadBag \<Rightarrow> PerThreadBag" where
  "set_last item p bag = bag\<lparr> lastofCurBag := (lastofCurBag bag)[item := p] \<rparr>"

definition incrementBumpPointer :: "env \<Rightarrow> build \<Rightarrow> nat \<Rightarrow> nat \<Rightarrow> nat \<Rightarrow> 'r bibop \<Rightarrow> 'r bibop" where
  "incrementBumpPointer env c t b item st =
    (let bag = get_bag st t b; pos = position bag ! item
     in if pos < lastofCurBag bag ! item
        then set_bag t b (set_position item (pos + classSize bag) bag) st
        else
          let pos1 = pos + nextHeapObjectOffset bag;
              goff = (if ENABLE_GUARDPAGE c then guardoffset bag else 0);
              tr = (if ENABLE_GUARDPAGE c
                    then setGuardPage env (bibopBagSize (geom st)) pos1 (guardsize bag) goff (calls st)
                    else calls st);
              last1 = getLastOfBag (bibopBagSize (geom st)) pos1 goff (classSize bag)
          in set_bag t b (set_last item last1 (set_position item pos1 bag)) (st\<lparr> calls := tr \<rparr>))"

definition draw :: "('r \<Rightarrow> u32 \<times> 'r) \<Rightarrow> 'r bibop \<Rightarrow> u32 \<times> 'r bibop" where
  "draw rnd st = (let (r, rg) = rnd (rng st) in (r, st\<lparr> rng := rg \<rparr>))"

definition tryRandomGuardPage ::
  "env \<Rightarrow> build \<Rightarrow> ('r \<Rightarrow> u32 \<times> 'r) \<Rightarrow> nat \<Rightarrow> nat \<Rightarrow> nat \<Rightarrow> 'r bibop \<Rightarrow> bool \<times> 'r bibop"
where
  "tryRandomGuardPage env c rnd t b item st =
    (let bag = get_bag st t b; savedPosition = position bag ! item; csize = classSize bag;
         (r, st1) = draw rnd st
     in if below_RANDOM_GUARD_RAND_CUTOFF c r then
          let (guardSize, bag1) =
                (if csize < PageSize then
                   let numObjectsPerPageLessOne = ucast (PageSize div csize - 1) :: u32
                   in (PageSize,
                       set_position item (savedPosition + ucast numObjectsPerPageLessOne * csize) bag)
                 else (csize, bag));
              st2 = set_bag t b bag1 st1;
              st3 = st2\<lparr> calls := snd (ext env (Mprotect savedPosition guardSize) (calls st2)) \<rparr>
          in (True, incrementBumpPointer env c t b item st3)
        else (False, st1))"

section \<open>Allocation\<close>

text \<open>The branch of the bump pointer (lines 385-398).\<close>

definition bump_allocate ::
  "env \<Rightarrow> build \<Rightarrow> ('r \<Rightarrow> u32 \<times> 'r) \<Rightarrow> nat \<Rightarrow> nat \<Rightarrow> nat \<Rightarrow> 'r bibop \<Rightarrow> addr \<times> 'r bibop"
where
  "bump_allocate env c rnd t b item st =
    (let ptr = position (get_bag st t b) ! item;
         st1 = incrementBumpPointer env c t b item st
     in if RANDOM_GUARD c \<and> position (get_bag st1 t b) ! item AND PageMask = 0
        then (ptr, snd (tryRandomGuardPage env c rnd t b item st1))
        else (ptr, st1))"

text \<open>The choice between the free list and the bump pointer (lines 366-399).\<close>

definition pick_object ::
  "env \<Rightarrow> build \<Rightarrow> ('r \<Rightarrow> u32 \<times> 'r) \<Rightarrow> nat \<Rightarrow> nat \<Rightarrow> 'r bibop \<Rightarrow> fg_error + addr \<times> 'r bibop"
where
  "pick_object env c rnd t b st =
    (let (randNum, st1) = draw rnd st;
         numBagSetItem = unat (randNum AND of_nat BIBOP_BAG_SET_MASK);
         useBumpPointer = (randNum AND of_nat BIBOP_BAG_SET_RANDOMIZER_MASK = 0);
         hdr = freelist_addr c (threadBagAddr st1) t b numBagSetItem
     in if \<not> IS_FREELIST_EMPTY c hdr (lists st1) \<and> \<not> useBumpPointer
        then case FREELIST_REMOVE c hdr (lists st1) of
               None \<Rightarrow> Inl (Fault 0)
             | Some (shadowinfo, m) \<Rightarrow>
                 Inr (getAddrFromShadowInfo (geom st1) shadowinfo (get_bag st1 t b), st1\<lparr> lists := m \<rparr>)
        else Inr (bump_allocate env c rnd t b numBagSetItem st1))"

text \<open>The end of \<open>allocateSmallObject\<close> (lines 401-416): the canary and the mark.\<close>

definition mark_allocated :: "env \<Rightarrow> build \<Rightarrow> nat \<Rightarrow> nat \<Rightarrow> addr \<Rightarrow> 'r bibop \<Rightarrow> fg_error + addr \<times> 'r bibop" where
  "mark_allocated env c t b ptr st =
    (let bag = get_bag st t b; shadowinfo = getShadowObjectInfo_bag c (geom st) ptr bag
     in bindE (if USE_CANARY c then store_byte env (ptr + classSize bag - 1) CANARY_SENTINEL st else Inr st)
          (\<lambda>st1. bindE (store_slot shadowinfo ALLOC_SENTINEL st1) (\<lambda>st2. Inr (ptr, st2))))"

definition allocateSmallObject ::
  "env \<Rightarrow> build \<Rightarrow> ('r \<Rightarrow> u32 \<times> 'r) \<Rightarrow> nat \<Rightarrow> size_t \<Rightarrow> 'r bibop \<Rightarrow> fg_error + addr \<times> 'r bibop"
where
  "allocateSmallObject env c rnd t sz st =
    (let sz1 = (if USE_CANARY c then sz + 1 else sz);
         b = unat (getBagNum (geom st) (class_size sz1))
     in bindE (pick_object env c rnd t b st) (\<lambda>(ptr, st1). mark_allocated env c t b ptr st1))"

section \<open>Freeing\<close>

definition isObjectFree :: "addr \<Rightarrow> bool" where
  "isObjectFree nxt \<longleftrightarrow> nxt \<noteq> ALLOC_SENTINEL"

text \<open>The inner loop over the neighbours in one direction (lines 538-555), \<open>n\<close> of them.\<close>

fun check_neighbors ::
  "env \<Rightarrow> build \<Rightarrow> 'r bibop \<Rightarrow> PerThreadBag \<Rightarrow> direction \<Rightarrow> nat \<Rightarrow> addr \<Rightarrow> fg_error + unit"
where
  "check_neighbors env c st bag move 0 canaryShadow = Inr ()"
| "check_neighbors env c st bag move (Suc n) canaryShadow =
    (case getNextCanaryNeighbor c (geom st) canaryShadow bag move of
       None \<Rightarrow> Inr ()
     | Some s \<Rightarrow>
         let neighborAddr = getAddrFromShadowInfo (geom st) s bag;
             canary = neighborAddr + classSize bag - 1
         in bindE (load_slot s st) (\<lambda>nxt.
              if isObjectFree nxt then check_neighbors env c st bag move n s
              else bindE (load_byte env canary st) (\<lambda>v.
                if v \<noteq> CANARY_SENTINEL then Inl (Neighbor_canary_broken neighborAddr)
                else check_neighbors env c st bag move n s)))"

definition check_canaries ::
  "env \<Rightarrow> build \<Rightarrow> 'r bibop \<Rightarrow> PerThreadBag \<Rightarrow> addr \<Rightarrow> addr \<Rightarrow> fg_error + unit"
where
  "check_canaries env c st bag a shadowinfo =
    (if USE_CANARY c then
       bindE (load_byte env (a + classSize bag - 1) st) (\<lambda>v.
         if v \<noteq> CANARY_SENTINEL then Inl (Canary_broken a)
         else bindE (check_neighbors env c st bag LEFT NUM_MORE_CANARIES_TO_CHECK shadowinfo) (\<lambda>_.
                check_neighbors env c st bag RIGHT NUM_MORE_CANARIES_TO_CHECK shadowinfo))
     else Inr ())"

definition destroyObject :: "env \<Rightarrow> addr \<Rightarrow> size_t \<Rightarrow> 'r bibop \<Rightarrow> fg_error + 'r bibop" where
  "destroyObject env a csize st =
    (if csize \<le> of_nat TWO_KILOBYTES then zero_bytes env a (unat csize) st else Inr st)"

text \<open>\<open>realFreeCurrentList\<close>, compiled with \<open>CFREELIST\<close> only.\<close>

definition realFreeCurrentList :: "build \<Rightarrow> nat \<Rightarrow> nat \<Rightarrow> nat \<Rightarrow> 'r bibop \<Rightarrow> fg_error + 'r bibop" where
  "realFreeCurrentList c t b item st =
    (let cf = cfreelist_addr c (threadBagAddr st) t b
     in case FREELIST_MERGE c cf (freelist_addr c (threadBagAddr st) t b item) (lists st) of
          None \<Rightarrow> Inl (Fault 0)
        | Some m \<Rightarrow>
            Inr ((set_bag t b ((get_bag st t b)\<lparr> ncfree := 0 \<rparr>) st)
                  \<lparr> lists := m\<lparr> snext := initSLL cf (snext m) \<rparr> \<rparr>))"

text \<open>The slot of the object goes to a free list (lines 563-597).  With \<open>CFREELIST\<close> another
  thread's object goes to the cached list of the bag first.\<close>

definition release_slot ::
  "build \<Rightarrow> nat \<Rightarrow> nat \<Rightarrow> nat \<Rightarrow> nat \<Rightarrow> addr \<Rightarrow> 'r bibop \<Rightarrow> fg_error + 'r bibop"
where
  "release_slot c ti t b item shadowinfo st =
    (let hdr = freelist_addr c (threadBagAddr st) t b item;
         st_own = st\<lparr> lists := FREELIST_INSERT c shadowinfo hdr (lists st) \<rparr>
     in if CFREELIST c then
          if threadIndex (get_bag st t b) = ti then Inr st_own
          else
            let cf = cfreelist_addr c (threadBagAddr st) t b;
                m = (lists st)\<lparr> snext := insertSLLHead shadowinfo cf (snext (lists st)) \<rparr>;
                bag = (get_bag st t b)\<lparr> ncfree := ncfree (get_bag st t b) + 1 \<rparr>;
                st1 = (set_bag t b bag st)\<lparr> lists := m \<rparr>
            in if sint (ncfree bag) > sint (cflthreshold bag) then realFreeCurrentList c t b item st1
               else Inr st1
        else Inr st_own)"

definition freeSmallObject :: "env \<Rightarrow> build \<Rightarrow> nat \<Rightarrow> addr \<Rightarrow> 'r bibop \<Rightarrow> fg_error + 'r bibop" where
  "freeSmallObject env c ti a st =
    bindE (getShadowObjectInfo c (geom st) (threadBag st) a) (\<lambda>(shadowinfo, (t, b), item).
      bindE (load_slot shadowinfo st) (\<lambda>nxt.
        if isObjectFree nxt then Inl (Double_free a)
        else
          let bag = get_bag st t b;
              objectSizeWoCanary = (if USE_CANARY c then classSize bag - 1 else classSize bag)
          in bindE (check_canaries env c st bag a shadowinfo) (\<lambda>_.
             bindE (if DESTROY_ON_FREE c then destroyObject env a objectSizeWoCanary st else Inr st)
               (\<lambda>st1. release_slot c ti t b item shadowinfo st1))))"

section \<open>Sizes\<close>

definition getUsableSize :: "build \<Rightarrow> addr \<Rightarrow> 'r bibop \<Rightarrow> fg_error + size_t" where
  "getUsableSize c a st =
    bindE (getShadowObjectInfo c (geom st) (threadBag st) a) (\<lambda>(_, (t, b), _).
      Inr (if USE_CANARY c then classSize (get_bag st t b) - 1 else classSize (get_bag st t b)))"

definition getObjectSize :: "build \<Rightarrow> addr \<Rightarrow> 'r bibop \<Rightarrow> fg_error + size_t" where
  "getObjectSize c a st =
    (if isInvalidAddr (geom st) a then Inr (- 1) else getUsableSize c a st)"

end
