(* ===== verification/BibopSeq.thy ===== *)
theory BibopSeq
  imports BibopHeap
begin

text \<open>
  A bag set item is one infinite sequence of objects.  Thread \<open>t\<close>, bag \<open>b\<close> and item \<open>s\<close> own
  the bag in the heaps \<open>s\<close>, \<open>s + 4\<close>, \<open>s + 8\<close>, ...; numbering their objects in this order,
  the bump pointer of the item is one number (\<open>bump_at\<close>), \<open>incrementBumpPointer\<close> adds one
  (\<open>incrementBumpPointer_ok\<close>), a random guard page skips the objects of one page
  (\<open>tryRandomGuardPage_ok\<close>), and the canary neighbours are the numbers before and after
  (\<open>seq_neighbor_left\<close>, \<open>seq_neighbor_right\<close>).
\<close>

section \<open>The numbering\<close>

definition seq_heap :: "build \<Rightarrow> nat \<Rightarrow> nat \<Rightarrow> nat \<Rightarrow> nat \<Rightarrow> nat" where
  "seq_heap c k b s n = n div objects c k b * 4 + s"

definition seq_idx :: "build \<Rightarrow> nat \<Rightarrow> nat \<Rightarrow> nat \<Rightarrow> nat" where
  "seq_idx c k b n = n mod objects c k b"

definition seq_addr :: "build \<Rightarrow> nat \<Rightarrow> addr \<Rightarrow> nat \<Rightarrow> nat \<Rightarrow> nat \<Rightarrow> nat \<Rightarrow> addr" where
  "seq_addr c k hb t b s n = obj_addr c k hb (seq_heap c k b s n) t b (seq_idx c k b n)"

definition seq_slot :: "build \<Rightarrow> nat \<Rightarrow> addr \<Rightarrow> nat \<Rightarrow> nat \<Rightarrow> nat \<Rightarrow> nat \<Rightarrow> addr" where
  "seq_slot c k sb t b s n = slot_addr c k sb (seq_heap c k b s n) t b (seq_idx c k b n)"

text \<open>The last object of the heap that the \<open>n\<close>-th object is in.\<close>

definition seq_last :: "build \<Rightarrow> nat \<Rightarrow> addr \<Rightarrow> nat \<Rightarrow> nat \<Rightarrow> nat \<Rightarrow> nat \<Rightarrow> addr" where
  "seq_last c k hb t b s n = obj_addr c k hb (seq_heap c k b s n) t b (objects c k b - 1)"

text \<open>The number of an object of heap \<open>h\<close> with index \<open>i\<close>, in the sequence of item \<open>h mod 4\<close>.\<close>

definition seq_num :: "build \<Rightarrow> nat \<Rightarrow> nat \<Rightarrow> nat \<Rightarrow> nat \<Rightarrow> nat" where
  "seq_num c k b h i = h div 4 * objects c k b + i"

text \<open>The \<open>n\<close>-th object is in a heap that exists and whose shadow slots are mapped.\<close>

definition in_room :: "build \<Rightarrow> nat \<Rightarrow> nat \<Rightarrow> nat \<Rightarrow> nat \<Rightarrow> bool" where
  "in_room c k b s n \<longleftrightarrow> seq_heap c k b s n < BIBOP_NUM_HEAPS \<and> shadow_fits c k (seq_heap c k b s n)"

lemma in_room_mono: "in_room c k b s n \<Longrightarrow> m \<le> n \<Longrightarrow> in_room c k b s m"
proof -
  assume r: "in_room c k b s n" and m: "m \<le> n"
  have "m div objects c k b \<le> n div objects c k b" using m by (rule div_le_mono)
  then have "seq_heap c k b s m \<le> seq_heap c k b s n" by (simp add: seq_heap_def)
  then show ?thesis using r shadow_fits_mono unfolding in_room_def by (meson le_less_trans)
qed

lemma seq_valid:
  assumes k: "bag_shift_ok c k" and t: "t < MAX_ALIVE_THREADS" and b: "b < usable_bags c"
    and r: "in_room c k b s n"
  shows "valid_obj c k (seq_heap c k b s n) t b (seq_idx c k b n)"
  using r t b objects_pos [OF k b] by (simp add: valid_obj_def in_room_def seq_idx_def)

lemma seq_num_inverse:
  assumes "s < 4" "0 < objects c k b"
  shows "seq_num c k b (seq_heap c k b s n) (seq_idx c k b n) = n"
proof -
  have "seq_heap c k b s n div 4 = n div objects c k b"
    unfolding seq_heap_def using assms(1) by (rule digit_div)
  then show ?thesis by (simp add: seq_num_def seq_idx_def)
qed

lemma seq_of_num:
  assumes "i < objects c k b"
  shows "seq_heap c k b (h mod 4) (seq_num c k b h i) = h" "seq_idx c k b (seq_num c k b h i) = i"
  using assms by (simp_all add: seq_heap_def seq_idx_def seq_num_def digit_div)

lemma seq_item:
  assumes "s < 4"
  shows "seq_heap c k b s n mod 4 = s"
  unfolding seq_heap_def using assms by (rule digit_mod)

lemma seq_coord_inj:
  assumes "s < 4" "s' < 4" "0 < objects c k b"
    and h: "seq_heap c k b s n = seq_heap c k b s' m" and i: "seq_idx c k b n = seq_idx c k b m"
  shows "s = s' \<and> n = m"
proof -
  have "s = s'" by (rule trans [OF seq_item [OF assms(1), of c k b n, unfolded h, symmetric]
        seq_item [OF assms(2)]])
  moreover have "n = m"
    by (rule trans [OF seq_num_inverse [OF assms(1,3), of n, unfolded h i, symmetric]
        seq_num_inverse [OF assms(2,3)]])
  ultimately show ?thesis ..
qed

lemma seq_slot_inj:
  assumes k: "bag_shift_ok c k" and t: "t < MAX_ALIVE_THREADS" "t' < MAX_ALIVE_THREADS"
    and b: "b < usable_bags c" "b' < usable_bags c" and s: "s < 4" "s' < 4"
    and r: "in_room c k b s n" "in_room c k b' s' n'"
    and eq: "seq_slot c k sb t b s n = seq_slot c k sb t' b' s' n'"
  shows "(t, b, s, n) = (t', b', s', n')"
proof -
  let ?h = "seq_heap c k b s n" and ?i = "seq_idx c k b n"
  let ?h' = "seq_heap c k b' s' n'" and ?i' = "seq_idx c k b' n'"
  have v: "valid_obj c k ?h t b ?i" and w: "valid_obj c k ?h' t' b' ?i'"
    using seq_valid k t b r by simp_all
  have "slot_off c k ?h t b ?i = slot_off c k ?h' t' b' ?i'"
    using eq slot_off_lt [OF k v] slot_off_lt [OF k w] unfolding seq_slot_def slot_addr_def
    by (simp add: of_nat_eq_word_iff)
  then have "slot_off c k ?h t b ?i \<in> slot_range c k ?h t b ?i \<inter> slot_range c k ?h' t' b' ?i'"
    by (simp add: slot_range_def)
  then have e: "?h = ?h' \<and> t = t' \<and> b = b' \<and> ?i = ?i'" using slot_off_inj [OF v w] by blast
  then have tb: "t' = t" "b' = b" by simp_all
  have "s = s' \<and> n = n'"
    by (rule seq_coord_inj [OF s objects_pos [OF k b(1)]]) (use e tb in simp_all)
  then show ?thesis using e by simp
qed

section \<open>One step\<close>

lemma seq_Suc_same:
  assumes "n mod objects c k b < objects c k b - 1"
  shows "seq_heap c k b s (Suc n) = seq_heap c k b s n" "seq_idx c k b (Suc n) = Suc (seq_idx c k b n)"
proof -
  let ?o = "objects c k b"
  have n: "Suc n = n div ?o * ?o + Suc (n mod ?o)" by simp
  have lt: "Suc (n mod ?o) < ?o" using assms by linarith
  have "Suc n div ?o = n div ?o" by (subst n) (rule digit_div [OF lt])
  then show "seq_heap c k b s (Suc n) = seq_heap c k b s n" by (simp add: seq_heap_def)
  have "Suc n mod ?o = Suc (n mod ?o)" by (subst n) (rule digit_mod [OF lt])
  then show "seq_idx c k b (Suc n) = Suc (seq_idx c k b n)" by (simp add: seq_idx_def)
qed

lemma seq_Suc_next:
  assumes "\<not> n mod objects c k b < objects c k b - 1" "0 < objects c k b"
  shows "seq_heap c k b s (Suc n) = seq_heap c k b s n + 4" "seq_idx c k b (Suc n) = 0"
    "seq_idx c k b n = objects c k b - 1"
proof -
  let ?o = "objects c k b"
  have m: "n mod ?o = ?o - 1" using assms mod_less_divisor [of ?o n] by linarith
  then have "Suc n = n div ?o * ?o + ?o"
    using div_mult_mod_eq [of n ?o] assms(2) by linarith
  then have n: "Suc n = Suc (n div ?o) * ?o" by simp
  have "Suc n div ?o = Suc (n div ?o)" by (subst n) (rule nonzero_mult_div_cancel_right, use assms in simp)
  then show "seq_heap c k b s (Suc n) = seq_heap c k b s n + 4" by (simp add: seq_heap_def)
  show "seq_idx c k b (Suc n) = 0" unfolding seq_idx_def by (subst n) simp
  show "seq_idx c k b n = ?o - 1" using m by (simp add: seq_idx_def)
qed

lemma seq_addr_Suc:
  assumes k: "bag_shift_ok c k" and b: "b < usable_bags c"
  shows "seq_addr c k hb t b s (Suc n) =
    (if n mod objects c k b < objects c k b - 1 then seq_addr c k hb t b s n + of_nat (2 ^ (4 + b))
     else seq_addr c k hb t b s n + of_nat (4 * 2 ^ heap_shift c k - last_obj c k b))"
proof (cases "n mod objects c k b < objects c k b - 1")
  case True
  then show ?thesis unfolding seq_addr_def seq_Suc_same [OF True]
    by (simp add: obj_addr_def obj_off_def algebra_simps)
next
  case False
  have "last_obj c k b \<le> 2 ^ k" using last_obj_eq [OF k b] by linarith
  also have "(2::nat) ^ k \<le> 2 ^ heap_shift c k" by (intro power_increasing) (simp_all add: heap_shift_def)
  finally have "last_obj c k b \<le> 4 * 2 ^ heap_shift c k" by simp
  then have "obj_off c k h t b (objects c k b - 1) + (4 * 2 ^ heap_shift c k - last_obj c k b)
      = obj_off c k (h + 4) t b 0" for h
    by (simp add: obj_off_def last_obj_def algebra_simps)
  then have "obj_addr c k hb h t b (objects c k b - 1) + of_nat (4 * 2 ^ heap_shift c k - last_obj c k b)
      = obj_addr c k hb (h + 4) t b 0" for h
    unfolding obj_addr_def by (rule offset_add)
  then show ?thesis using False
    unfolding seq_addr_def seq_Suc_next [OF False objects_pos [OF k b]] by simp
qed

section \<open>The bump pointer\<close>

text \<open>The heap area does not wrap around the address space and starts on a page.\<close>

definition heap_placed :: "build \<Rightarrow> nat \<Rightarrow> addr \<Rightarrow> bool" where
  "heap_placed c k hb \<longleftrightarrow>
    unat hb + BIBOP_NUM_HEAPS * 2 ^ heap_shift c k < 2 ^ 64 \<and> unat hb mod 4096 = 0"

definition bump_at :: "build \<Rightarrow> nat \<Rightarrow> addr \<Rightarrow> nat \<Rightarrow> nat \<Rightarrow> nat \<Rightarrow> nat \<Rightarrow> PerThreadBag \<Rightarrow> bool" where
  "bump_at c k hb t b s n bag \<longleftrightarrow>
    position bag ! s = seq_addr c k hb t b s n \<and> lastofCurBag bag ! s = seq_last c k hb t b s n"

lemma unat_obj_addr:
  assumes k: "bag_shift_ok c k" and p: "heap_placed c k hb" and v: "valid_obj c k h t b i"
  shows "unat (obj_addr c k hb h t b i) = unat hb + obj_off c k h t b i"
proof -
  have "obj_off c k h t b i < 2 ^ LENGTH(64)" using obj_off_lt(2) [OF k v] by simp
  then have o: "unat (of_nat (obj_off c k h t b i) :: size_t) = obj_off c k h t b i" by (rule unat_of_nat_less)
  have "0 < (2::nat) ^ (4 + b)" by simp
  then have "unat hb + obj_off c k h t b i < 2 ^ 64"
    using obj_off_lt(1) [OF k v] p unfolding heap_placed_def by linarith
  then show ?thesis unfolding obj_addr_def by (subst unat_add_less) (simp_all add: o)
qed

lemma position_less_last:
  assumes k: "bag_shift_ok c k" and p: "heap_placed c k hb" and t: "t < MAX_ALIVE_THREADS"
    and b: "b < usable_bags c" and r: "in_room c k b s n"
  shows "seq_addr c k hb t b s n < seq_last c k hb t b s n \<longleftrightarrow>
    n mod objects c k b < objects c k b - 1"
proof -
  have o: "0 < objects c k b" by (rule objects_pos [OF k b])
  note v = seq_valid [OF k t b r]
  have w: "valid_obj c k (seq_heap c k b s n) t b (objects c k b - 1)"
    using v o by (simp add: valid_obj_def)
  show ?thesis
    unfolding seq_addr_def seq_last_def word_less_nat_alt unat_obj_addr [OF k p v] unat_obj_addr [OF k p w]
    by (simp add: obj_off_def seq_idx_def)
qed

definition bumped :: "build \<Rightarrow> nat \<Rightarrow> addr \<Rightarrow> nat \<Rightarrow> nat \<Rightarrow> nat \<Rightarrow> nat \<Rightarrow> PerThreadBag \<Rightarrow> PerThreadBag" where
  "bumped c k hb t b s n bag =
    set_last s (seq_last c k hb t b s n) (set_position s (seq_addr c k hb t b s n) bag)"

lemma bumped_is: "bag_is c k hb t b bag \<Longrightarrow> bag_is c k hb t b (bumped c k hb t b s n bag)"
  by (simp add: bag_is_def bag_const_def bumped_def set_last_def set_position_def)

lemma bumped_at:
  "length (position bag) = 4 \<Longrightarrow> length (lastofCurBag bag) = 4 \<Longrightarrow> s < 4 \<Longrightarrow>
    bump_at c k hb t b s n (bumped c k hb t b s n bag)"
  by (simp add: bump_at_def bumped_def set_last_def set_position_def)

lemma bumped_other:
  "s' \<noteq> s \<Longrightarrow> bump_at c k hb t b s' m (bumped c k hb t b s n bag) = bump_at c k hb t b s' m bag"
  by (simp add: bump_at_def bumped_def set_last_def set_position_def)

lemma bumped_length:
  "length (position (bumped c k hb t b s n bag)) = length (position bag)"
  "length (lastofCurBag (bumped c k hb t b s n bag)) = length (lastofCurBag bag)"
  by (simp_all add: bumped_def set_last_def set_position_def)

text \<open>The guard that a step to object \<open>n\<close> sets up: the one of its heap, when the object is the
  first of its bag.\<close>

definition step_guard :: "build \<Rightarrow> nat \<Rightarrow> addr \<Rightarrow> nat \<Rightarrow> nat \<Rightarrow> nat \<Rightarrow> nat \<Rightarrow> trace" where
  "step_guard c k hb t b s n =
    (if seq_idx c k b n = 0 \<and> guard_len c k b \<noteq> 0 then [guard_call c k hb (seq_heap c k b s n) t b] else [])"

lemma last_of_new_bag:
  assumes k: "bag_shift_ok c k" and b: "b < usable_bags c"
  shows "getLastOfBag (of_nat (2 ^ k)) (obj_addr c k hb h t b 0) (of_nat (guard_reach c k b))
    (of_nat (2 ^ (4 + b))) = obj_addr c k hb h t b (objects c k b - 1)"
proof -
  have off: "obj_off c k h t b (objects c k b - 1) = obj_off c k h t b 0 + last_obj c k b"
    by (simp add: obj_off_def last_obj_def)
  show ?thesis
    unfolding getLastOfBag_def obj_addr_def off of_nat_add last_obj_word [OF k b, symmetric]
    by (simp add: algebra_simps)
qed

lemma guard_of_new_bag:
  assumes k: "bag_shift_ok c k" and b: "b < usable_bags c"
  shows "setGuardPage env (of_nat (2 ^ k)) (obj_addr c k hb h t b 0) (of_nat (guard_len c k b))
      (of_nat (guard_reach c k b)) tr = (if guard_len c k b = 0 then tr else guard_call c k hb h t b # tr)"
proof -
  have gz: "(of_nat (guard_len c k b) :: size_t) = 0 \<longleftrightarrow> guard_len c k b = 0"
    using guard_len_lt [OF k b] of_nat_eq_word_iff [of "guard_len c k b" 0, where ?'a = 64] by simp
  have r: "guard_reach c k b \<le> 2 ^ k" using guard_reach_less [OF k b] by linarith
  then have off: "h * 2 ^ heap_shift c k + bag_off c k t b + 2 ^ k
      = obj_off c k h t b 0 + (2 ^ k - guard_reach c k b) + guard_reach c k b"
    by (simp add: obj_off_def)
  have "obj_addr c k hb h t b 0 + of_nat (2 ^ k) - of_nat (guard_reach c k b) =
      hb + of_nat (h * 2 ^ heap_shift c k + bag_off c k t b + 2 ^ k - guard_reach c k b)"
    using r by (simp add: obj_addr_def obj_off_def of_nat_diff)
  then show ?thesis
    unfolding setGuardPage_def gz Let_def guard_call_def by (simp add: ext_def)
qed

text \<open>One step of the bump pointer is one step in the sequence.\<close>

lemma incrementBumpPointer_ok:
  assumes k: "bag_shift_ok c k" and p: "heap_placed c k hb" and t: "t < MAX_ALIVE_THREADS"
    and b: "b < usable_bags c" and r: "in_room c k b s n"
    and g: "geom st = the_geometry c k hb sb" and bag: "bag_is c k hb t b (get_bag st t b)"
    and at: "bump_at c k hb t b s n (get_bag st t b)"
    and len: "length (position (get_bag st t b)) = 4" "length (lastofCurBag (get_bag st t b)) = 4" "s < 4"
  shows "incrementBumpPointer env c t b s st =
    (set_bag t b (bumped c k hb t b s (Suc n) (get_bag st t b)) st)
      \<lparr> calls := step_guard c k hb t b s (Suc n) @ calls st \<rparr>"
proof -
  let ?bag = "get_bag st t b"
  have pos: "position ?bag ! s = seq_addr c k hb t b s n" and last: "lastofCurBag ?bag ! s = seq_last c k hb t b s n"
    using at by (simp_all add: bump_at_def)
  note o = objects_pos [OF k b] and less = position_less_last [OF k p t b r]
  show ?thesis
  proof (cases "n mod objects c k b < objects c k b - 1")
    case True
    have "seq_last c k hb t b s (Suc n) = lastofCurBag ?bag ! s"
      unfolding last seq_last_def seq_Suc_same [OF True] ..
    then have "bumped c k hb t b s (Suc n) ?bag
        = set_position s (seq_addr c k hb t b s n + of_nat (2 ^ (4 + b))) ?bag"
      unfolding bumped_def set_last_def set_position_def seq_addr_Suc [OF k b]
      using True by (cases ?bag) simp
    moreover have "step_guard c k hb t b s (Suc n) = []"
      unfolding step_guard_def seq_Suc_same [OF True] by simp
    ultimately show ?thesis
      unfolding incrementBumpPointer_def Let_def pos last less bag_isD [OF bag]
      using True by (simp add: set_bag_def)
  next
    case False
    note nx = seq_Suc_next [OF False o]
    have pos1: "seq_addr c k hb t b s n + of_nat (4 * 2 ^ heap_shift c k - last_obj c k b)
        = seq_addr c k hb t b s (Suc n)"
      unfolding seq_addr_Suc [OF k b] using False by simp
    have first: "seq_addr c k hb t b s (Suc n) = obj_addr c k hb (seq_heap c k b s (Suc n)) t b 0"
      unfolding seq_addr_def nx(2) ..
    have goff: "(if ENABLE_GUARDPAGE c then guardoffset ?bag else 0) = of_nat (guard_reach c k b)"
      unfolding bag_isD [OF bag] by (simp add: guard_reach_def)
    have gcall: "(if ENABLE_GUARDPAGE c then setGuardPage env (of_nat (2 ^ k))
          (seq_addr c k hb t b s (Suc n)) (guardsize ?bag) (of_nat (guard_reach c k b)) (calls st)
        else calls st) = step_guard c k hb t b s (Suc n) @ calls st"
      unfolding bag_isD [OF bag] first guard_of_new_bag [OF k b] step_guard_def nx
      by (simp add: guard_len_def)
    have lst: "getLastOfBag (of_nat (2 ^ k)) (seq_addr c k hb t b s (Suc n)) (of_nat (guard_reach c k b))
        (of_nat (2 ^ (4 + b))) = seq_last c k hb t b s (Suc n)"
      unfolding first last_of_new_bag [OF k b] seq_last_def ..
    show ?thesis
      unfolding incrementBumpPointer_def Let_def pos last less goff g geo bag_isD(8,4) [OF bag] pos1 gcall lst
      using False by (simp add: bumped_def set_bag_def)
  qed
qed

section \<open>Random guard pages\<close>

text \<open>A random guard closes one page of small objects, or one large object.\<close>

definition page_objs :: "nat \<Rightarrow> nat" where
  "page_objs b = (if 4 + b < 12 then 2 ^ (12 - (4 + b)) else 1)"

definition random_guard :: "build \<Rightarrow> nat \<Rightarrow> addr \<Rightarrow> nat \<Rightarrow> nat \<Rightarrow> nat \<Rightarrow> nat \<Rightarrow> ext_call" where
  "random_guard c k hb t b s n = Mprotect (seq_addr c k hb t b s n) (of_nat (page_objs b * 2 ^ (4 + b)))"

lemma page_objs_pos: "0 < page_objs b" by (simp add: page_objs_def)

lemma page_objs_le: "page_objs b \<le> 256"
proof (cases "4 + b < 12")
  case True
  then have "(2::nat) ^ (12 - (4 + b)) \<le> 2 ^ 8" by (intro power_increasing) simp_all
  then show ?thesis by (simp add: page_objs_def)
qed (simp add: page_objs_def)

lemma page_objs_page: "4 + b < 12 \<Longrightarrow> page_objs b * 2 ^ (4 + b) = 4096"
proof -
  assume b: "4 + b < 12"
  then have "page_objs b * 2 ^ (4 + b) = 2 ^ (12 - (4 + b) + (4 + b))"
    unfolding power_add by (simp add: page_objs_def)
  also have "12 - (4 + b) + (4 + b) = 12" using b by simp
  finally show ?thesis by simp
qed

lemma bag_shift_ge: "bag_shift_ok c k \<Longrightarrow> 19 \<le> k"
  by (auto simp: size_defs split: if_splits)

lemma dvd_page: "12 \<le> e \<Longrightarrow> (4096::nat) dvd 2 ^ e"
  using le_imp_power_dvd [of 12 e "2::nat"] by simp

lemma page_aligned_iff:
  assumes k: "bag_shift_ok c k" and p: "heap_placed c k hb" and v: "valid_obj c k h t b i"
  shows "obj_addr c k hb h t b i AND PageMask = 0 \<longleftrightarrow> 4096 dvd i * 2 ^ (4 + b)"
proof -
  have "PageMask = (mask 12 :: size_t)" by (simp add: PageMask_def PageSize_def mask_eq_exp_minus_1)
  then have "obj_addr c k hb h t b i AND PageMask = 0 \<longleftrightarrow> unat (obj_addr c k hb h t b i AND mask 12) = 0"
    by (simp add: unat_eq_zero)
  also have "\<dots> \<longleftrightarrow> 4096 dvd unat hb + obj_off c k h t b i"
    unfolding unat_and_mask unat_obj_addr [OF k p v] by (simp add: dvd_eq_mod_eq_0)
  also have "\<dots> \<longleftrightarrow> 4096 dvd i * 2 ^ (4 + b)"
  proof -
    have k12: "12 \<le> k" "12 \<le> heap_shift c k" using bag_shift_ge [OF k] by (simp_all add: heap_shift_def)
    have "4096 dvd unat hb" using p by (simp add: heap_placed_def dvd_eq_mod_eq_0)
    moreover have "4096 dvd h * 2 ^ heap_shift c k + bag_off c k t b"
      unfolding bag_off_def by (intro dvd_add dvd_mult dvd_page k12)
    ultimately show ?thesis by (simp add: obj_off_def dvd_add_right_iff)
  qed
  finally show ?thesis .
qed

text \<open>The page that starts at an object holds objects of the same bag only.\<close>

lemma page_in_bag:
  assumes k: "bag_shift_ok c k" and b: "b < usable_bags c" and i: "i < objects c k b"
    and al: "4096 dvd i * 2 ^ (4 + b)"
  shows "i + page_objs b \<le> objects c k b"
proof (cases "4 + b < 12")
  case True
  note pg = page_objs_page [OF True]
  have cancel: "page_objs b dvd j" if "4096 dvd j * 2 ^ (4 + b)" for j
    using that unfolding pg [symmetric] by (simp add: dvd_times_right_cancel_iff)
  have "4096 dvd (2::nat) ^ k" using bag_shift_ge [OF k] by (intro dvd_page) simp
  moreover have "4096 dvd guard_reach c k b"
    using guard_reach_cases [OF k b] by (auto intro: dvd_page)
  ultimately have "4096 dvd objects c k b * 2 ^ (4 + b)"
    unfolding objects_times_class [OF k b] by (rule dvd_diff_nat)
  then obtain q where q: "objects c k b = page_objs b * q" using cancel by blast
  obtain j where j: "i = page_objs b * j" using cancel [OF al] by blast
  have "j < q" using i unfolding q j by simp
  then have "page_objs b * Suc j \<le> page_objs b * q" by (intro mult_le_mono2) simp
  then show ?thesis unfolding q j by simp
next
  case False
  then show ?thesis using i by (simp add: page_objs_def)
qed

lemma seq_ahead:
  assumes "n mod objects c k b + j < objects c k b"
  shows "seq_heap c k b s (n + j) = seq_heap c k b s n" "seq_idx c k b (n + j) = seq_idx c k b n + j"
proof -
  let ?o = "objects c k b"
  have n: "n + j = n div ?o * ?o + (n mod ?o + j)" by simp
  have "(n + j) div ?o = n div ?o" by (subst n) (rule digit_div [OF assms])
  then show "seq_heap c k b s (n + j) = seq_heap c k b s n" by (simp add: seq_heap_def)
  have "(n + j) mod ?o = n mod ?o + j" by (subst n) (rule digit_mod [OF assms])
  then show "seq_idx c k b (n + j) = seq_idx c k b n + j" by (simp add: seq_idx_def)
qed

lemma set_bag_set_bag: "set_bag t b y (set_bag t b x st) = set_bag t b y st"
  by (cases "t < length (threadBag st)") (simp_all add: set_bag_def list_update_beyond)

lemma get_set_bag:
  "t < length (threadBag st) \<Longrightarrow> b < length (threadBag st ! t) \<Longrightarrow> get_bag (set_bag t b x st) t b = x"
  by (simp add: get_bag_def set_bag_def)

lemma get_set_bag_other:
  "(t', b') \<noteq> (t, b) \<Longrightarrow> get_bag (set_bag t b x st) t' b' = get_bag st t' b'"
  by (cases "t < length (threadBag st)")
    (auto simp: get_bag_def set_bag_def nth_list_update list_update_beyond)

lemma get_bag_calls: "get_bag (st\<lparr> calls := tr \<rparr>) t b = get_bag st t b"
  "get_bag (st\<lparr> rng := rg \<rparr>) t b = get_bag st t b"
  by (simp_all add: get_bag_def)

lemma set_bag_calls: "set_bag t b x (st\<lparr> calls := tr \<rparr>) = (set_bag t b x st)\<lparr> calls := tr \<rparr>"
  "set_bag t b x (st\<lparr> rng := rg \<rparr>) = (set_bag t b x st)\<lparr> rng := rg \<rparr>"
  by (simp_all add: set_bag_def)

lemma tryRandomGuardPage_ok:
  assumes k: "bag_shift_ok c k" and p: "heap_placed c k hb" and t: "t < MAX_ALIVE_THREADS"
    and b: "b < usable_bags c" and r: "in_room c k b s n"
    and g: "geom st = the_geometry c k hb sb" and bag: "bag_is c k hb t b (get_bag st t b)"
    and at: "bump_at c k hb t b s n (get_bag st t b)"
    and len: "length (position (get_bag st t b)) = 4" "length (lastofCurBag (get_bag st t b)) = 4" "s < 4"
    and tb: "t < length (threadBag st)" "b < length (threadBag st ! t)"
    and al: "position (get_bag st t b) ! s AND PageMask = 0"
    and rnd: "rnd (rng st) = (v, rg)"
  shows "tryRandomGuardPage env c rnd t b s st =
    (if below_RANDOM_GUARD_RAND_CUTOFF c v
     then (True, (set_bag t b (bumped c k hb t b s (n + page_objs b) (get_bag st t b)) st)
       \<lparr> calls := step_guard c k hb t b s (n + page_objs b) @ random_guard c k hb t b s n # calls st, rng := rg \<rparr>)
     else (False, st\<lparr> rng := rg \<rparr>))"
proof -
  let ?bag = "get_bag st t b" and ?m = "page_objs b"
  have pos: "position ?bag ! s = seq_addr c k hb t b s n" and last: "lastofCurBag ?bag ! s = seq_last c k hb t b s n"
    using at by (simp_all add: bump_at_def)
  have "4096 dvd seq_idx c k b n * 2 ^ (4 + b)"
    using al page_aligned_iff [OF k p seq_valid [OF k t b r]] unfolding pos seq_addr_def by simp
  then have fits: "n mod objects c k b + ?m \<le> objects c k b"
    using page_in_bag [OF k b] objects_pos [OF k b] by (simp add: seq_idx_def)
  have "n mod objects c k b + (?m - 1) < objects c k b" using fits page_objs_pos [of b] by linarith
  note ah = seq_ahead [OF this]
  let ?bag1 = "set_position s (seq_addr c k hb t b s (n + (?m - 1))) ?bag"
  have room1: "in_room c k b s (n + (?m - 1))" using r unfolding in_room_def ah .
  have cs64: "(2::nat) ^ (4 + b) < 2 ^ LENGTH(64)" using class_word_lt [OF b] by (rule le_less_trans) simp
  have small: "(of_nat (2 ^ (4 + b)) :: size_t) < PageSize \<longleftrightarrow> 4 + b < 12"
  proof -
    have "(of_nat (2 ^ (4 + b)) :: size_t) < of_nat (2 ^ 12) \<longleftrightarrow> (2::nat) ^ (4 + b) < 2 ^ 12"
      using cs64 by (intro of_nat_less_word_iff) simp_all
    also have "\<dots> \<longleftrightarrow> 4 + b < 12" by (rule power_strict_increasing_iff) simp
    finally show ?thesis by (simp add: PageSize_def)
  qed
  have body: "(if classSize ?bag < PageSize then
      let numObjectsPerPageLessOne = ucast (PageSize div classSize ?bag - 1) :: u32
      in (PageSize, set_position s (seq_addr c k hb t b s n + ucast numObjectsPerPageLessOne * classSize ?bag) ?bag)
      else (classSize ?bag, ?bag)) = (of_nat (?m * 2 ^ (4 + b)), ?bag1)"
  proof (cases "4 + b < 12")
    case True
    have m: "(4096::nat) div 2 ^ (4 + b) = ?m"
      unfolding page_objs_page [OF True, symmetric] by simp
    have "PageSize div of_nat (2 ^ (4 + b)) = (of_nat (4096 div 2 ^ (4 + b)) :: size_t)"
      unfolding PageSize_def using of_nat_div_word [of 4096 "2 ^ (4 + b)", where ?'a = 64] cs64 by simp
    then have "PageSize div of_nat (2 ^ (4 + b)) - 1 = (of_nat (?m - 1) :: size_t)"
      unfolding m using page_objs_pos [of b] by (simp add: of_nat_diff)
    moreover have "ucast (of_nat (?m - 1) :: size_t) = (of_nat (?m - 1) :: u32)"
      "ucast (of_nat (?m - 1) :: u32) = (of_nat (?m - 1) :: size_t)"
      using page_objs_le [of b] by (intro ucast_of_nat_less; simp)+
    moreover have "seq_addr c k hb t b s n + of_nat (?m - 1) * of_nat (2 ^ (4 + b))
        = seq_addr c k hb t b s (n + (?m - 1))"
      unfolding seq_addr_def ah obj_addr_def obj_off_def add_mult_distrib of_nat_add of_nat_mult
      by (simp only: add.assoc)
    ultimately show ?thesis
      using True unfolding bag_isD(4) [OF bag] small page_objs_page [OF True] Let_def
      by (simp add: PageSize_def del: of_nat_power of_nat_diff)
  next
    case False
    then have "?m = 1" by (simp add: page_objs_def)
    moreover have "?bag1 = ?bag"
      unfolding \<open>?m = 1\<close> set_position_def using pos len by (cases ?bag) (simp add: list_update_same_conv)
    ultimately show ?thesis using False unfolding bag_isD(4) [OF bag] small by simp
  qed
  let ?st2 = "(set_bag t b ?bag1 st)\<lparr> calls := random_guard c k hb t b s n # calls st, rng := rg \<rparr>"
  have gb: "get_bag ?st2 t b = ?bag1" using tb by (simp add: get_bag_def set_bag_def)
  have bag1: "bag_is c k hb t b ?bag1"
    using bag by (simp add: bag_is_def bag_const_def set_position_def)
  have at1: "bump_at c k hb t b s (n + (?m - 1)) ?bag1"
    using len last unfolding bump_at_def seq_last_def ah by (simp add: set_position_def)
  have g2: "geom ?st2 = the_geometry c k hb sb" using g by (simp add: set_bag_def)
  have len1: "length (position ?bag1) = 4" "length (lastofCurBag ?bag1) = 4"
    using len by (simp_all add: set_position_def)
  note inc1 = incrementBumpPointer_ok [OF k p t b room1 g2, unfolded gb, OF bag1 at1 len1 len(3), of env]
  have "incrementBumpPointer env c t b s ?st2 =
    (set_bag t b (bumped c k hb t b s (Suc (n + (?m - 1))) ?bag1) ?st2)
      \<lparr> calls := step_guard c k hb t b s (Suc (n + (?m - 1))) @ calls ?st2 \<rparr>"
    by (rule inc1)
  moreover have "Suc (n + (?m - 1)) = n + ?m" using page_objs_pos [of b] by simp
  moreover have "bumped c k hb t b s (n + ?m) ?bag1 = bumped c k hb t b s (n + ?m) ?bag"
    by (simp add: bumped_def set_last_def set_position_def)
  ultimately have inc: "incrementBumpPointer env c t b s ?st2 =
    (set_bag t b (bumped c k hb t b s (n + ?m) ?bag) st)
      \<lparr> calls := step_guard c k hb t b s (n + ?m) @ random_guard c k hb t b s n # calls st, rng := rg \<rparr>"
    by (simp add: set_bag_calls set_bag_set_bag)
  have "(set_bag t b ?bag1 (st\<lparr> rng := rg \<rparr>))
      \<lparr> calls := snd (ext env (Mprotect (seq_addr c k hb t b s n) (of_nat (?m * 2 ^ (4 + b))))
          (calls (set_bag t b ?bag1 (st\<lparr> rng := rg \<rparr>)))) \<rparr> = ?st2"
    by (simp add: set_bag_def ext_def random_guard_def)
  then show ?thesis
    unfolding tryRandomGuardPage_def draw_def rnd Let_def prod.case pos body [unfolded Let_def]
    using inc by simp
qed

section \<open>Neighbours in the sequence\<close>

lemma seq_neighbor_left:
  assumes k: "bag_shift_ok c k" and bag: "bag_is c k hb t b bag" and t: "t < MAX_ALIVE_THREADS"
    and b: "b < usable_bags c" and s: "s < 4" and r: "in_room c k b s n"
  shows "getNextCanaryNeighbor c (the_geometry c k hb sb) (seq_slot c k sb t b s n) bag LEFT =
    (if n = 0 then None else Some (seq_slot c k sb t b s (n - 1)))"
proof -
  let ?o = "objects c k b"
  have o: "0 < ?o" by (rule objects_pos [OF k b])
  note nb = neighbor_left [OF k bag seq_valid [OF k t b r], of sb]
  show ?thesis
  proof (cases n)
    case 0
    then show ?thesis using nb s unfolding seq_slot_def by (simp add: seq_idx_def seq_heap_def BIBOP_BAG_SET_SIZE_def)
  next
    case (Suc m)
    show ?thesis
    proof (cases "m mod ?o < ?o - 1")
      case True
      then show ?thesis using nb unfolding seq_slot_def Suc seq_Suc_same [OF True] by simp
    next
      case False
      then show ?thesis using nb unfolding seq_slot_def Suc seq_Suc_next [OF False o]
        by (simp add: BIBOP_BAG_SET_SIZE_def seq_Suc_next(3) [OF False o, simplified])
    qed
  qed
qed

lemma seq_neighbor_right:
  assumes k: "bag_shift_ok c k" and bag: "bag_is c k hb t b bag" and t: "t < MAX_ALIVE_THREADS"
    and b: "b < usable_bags c" and r: "in_room c k b s n"
  shows "getNextCanaryNeighbor c (the_geometry c k hb sb) (seq_slot c k sb t b s n) bag RIGHT =
    Some (seq_slot c k sb t b s (Suc n))"
proof -
  let ?o = "objects c k b"
  have o: "0 < ?o" by (rule objects_pos [OF k b])
  note nb = neighbor_right [OF k bag seq_valid [OF k t b r], of sb]
  show ?thesis
  proof (cases "n mod ?o < ?o - 1")
    case True
    then show ?thesis using nb unfolding seq_slot_def seq_Suc_same [OF True] by (simp add: seq_idx_def)
  next
    case False
    then show ?thesis using nb unfolding seq_slot_def seq_Suc_next [OF False o]
      by (simp add: BIBOP_BAG_SET_SIZE_def)
  qed
qed

end
