(* ===== verification/BibopInv.thy ===== *)
theory BibopInv
  imports BibopSeq
begin

text \<open>
  The invariant of the small-object heap.  It relates the state to three ghost values: for
  every item the number \<open>N t b s\<close> its bump pointer has reached, for every free-list header
  the list \<open>L\<close> of its nodes, and the set \<open>S\<close> of objects given up to random guard pages.

  \<open>live\<close> is the abstract state: the objects whose shadow slot carries the allocation mark.
  The lemmas say that no byte of an object outside \<open>S\<close> is on a guard page
  (\<open>object_accessible\<close>) and that \<open>initialize\<close> establishes the invariant with nothing live
  (\<open>initial_heap_inv\<close>).
\<close>

section \<open>Addresses\<close>

definition item_ok :: "build \<Rightarrow> nat \<Rightarrow> nat \<Rightarrow> nat \<Rightarrow> bool" where
  "item_ok c t b s \<longleftrightarrow> t < MAX_ALIVE_THREADS \<and> b < usable_bags c \<and> s < BIBOP_BAG_SET_SIZE"

definition pool_headers :: "build \<Rightarrow> addr \<Rightarrow> addr set" where
  "pool_headers c base = {freelist_addr c base t b s | t b s. item_ok c t b s}"

text \<open>Where the operating system and the linker put things: the three areas do not wrap around
  and the static object does not overlap the shadow memory.\<close>

definition placed :: "build \<Rightarrow> nat \<Rightarrow> addr \<Rightarrow> addr \<Rightarrow> addr \<Rightarrow> bool" where
  "placed c k hb sb base \<longleftrightarrow> heap_placed c k hb \<and> 1 < unat sb \<and>
    unat sb + BIBOP_NUM_HEAPS * shadow_per_heap c k < 2 ^ 64 \<and> unat base + 2 ^ 20 < 2 ^ 64 \<and>
    (unat base + 2 ^ 20 \<le> unat sb \<or> unat sb + BIBOP_NUM_HEAPS * shadow_per_heap c k \<le> unat base)"

lemma header_offset:
  assumes "item_ok c t b s"
  shows "(t * BIBOP_NUM_BAGS c + b) * 256 + s * sizeof_FREELIST_TYPE c < 2 ^ 20"
    "s * sizeof_FREELIST_TYPE c < 256" "b < BIBOP_NUM_BAGS c"
proof -
  show b: "b < BIBOP_NUM_BAGS c" using assms usable_less_bags(1) [of c] by (simp add: item_ok_def)
  have s: "s * sizeof_FREELIST_TYPE c < 4 * 16"
    using assms by (auto simp: item_ok_def sizeof_FREELIST_TYPE_def BIBOP_BAG_SET_SIZE_def)
  then show s': "s * sizeof_FREELIST_TYPE c < 256" by simp
  have "t * BIBOP_NUM_BAGS c + b < MAX_ALIVE_THREADS * BIBOP_NUM_BAGS c"
    using assms b by (intro digit_less) (simp_all add: item_ok_def)
  then have "(t * BIBOP_NUM_BAGS c + b) * 256 + s * sizeof_FREELIST_TYPE c
      < MAX_ALIVE_THREADS * BIBOP_NUM_BAGS c * 256" using s' by (rule digit_less)
  also have "\<dots> \<le> 2 ^ 20" by (simp add: MAX_ALIVE_THREADS_def BIBOP_NUM_BAGS_def)
  finally show "(t * BIBOP_NUM_BAGS c + b) * 256 + s * sizeof_FREELIST_TYPE c < 2 ^ 20" .
qed

lemma freelist_addr_eq:
  "freelist_addr c base t b s =
    base + of_nat ((t * BIBOP_NUM_BAGS c + b) * 256 + s * sizeof_FREELIST_TYPE c)"
  by (simp add: freelist_addr_def bag_addr_def sizeof_PerThreadBag_def algebra_simps)

lemma freelist_addr_inj:
  assumes i: "item_ok c t b s" and j: "item_ok c t' b' s'"
    and eq: "freelist_addr c base t b s = freelist_addr c base t' b' s'"
  shows "t = t' \<and> b = b' \<and> s = s'"
proof -
  note hi = header_offset [OF i] and hj = header_offset [OF j]
  let ?x = "t * BIBOP_NUM_BAGS c + b" and ?y = "t' * BIBOP_NUM_BAGS c + b'"
  have "?x * 256 + s * sizeof_FREELIST_TYPE c = ?y * 256 + s' * sizeof_FREELIST_TYPE c"
    using eq unfolding freelist_addr_eq by (rule offset_eqD) (use hi(1) hj(1) in simp_all)
  then have xy: "?x = ?y" and s: "s * sizeof_FREELIST_TYPE c = s' * sizeof_FREELIST_TYPE c"
    using digit_div [OF hi(2), of ?x] digit_div [OF hj(2), of ?y]
      digit_mod [OF hi(2), of ?x] digit_mod [OF hj(2), of ?y] by metis+
  have "t = t'" "b = b'"
    using digit_div [OF hi(3), of t] digit_div [OF hj(3), of t'] digit_mod [OF hi(3), of t]
      digit_mod [OF hj(3), of t'] xy by metis+
  moreover have "s = s'" using s by (simp add: sizeof_FREELIST_TYPE_def split: if_splits)
  ultimately show ?thesis by simp
qed

lemma bag_part_offset:
  assumes "t < MAX_ALIVE_THREADS" "b < BIBOP_NUM_BAGS c" "z < 256"
  shows "\<exists>y<2 ^ 20. bag_addr c base t b + of_nat z = base + of_nat y"
proof -
  have "t * BIBOP_NUM_BAGS c + b < MAX_ALIVE_THREADS * BIBOP_NUM_BAGS c"
    using assms by (intro digit_less)
  then have "(t * BIBOP_NUM_BAGS c + b) * 256 + z < MAX_ALIVE_THREADS * BIBOP_NUM_BAGS c * 256"
    using assms(3) by (rule digit_less)
  also have "\<dots> \<le> 2 ^ 20" by (simp add: MAX_ALIVE_THREADS_def BIBOP_NUM_BAGS_def)
  finally have "(t * BIBOP_NUM_BAGS c + b) * 256 + z < 2 ^ 20" .
  moreover have "bag_addr c base t b + of_nat z = base + of_nat ((t * BIBOP_NUM_BAGS c + b) * 256 + z)"
    unfolding bag_addr_def sizeof_PerThreadBag_def by (rule offset_add) simp
  ultimately show ?thesis by blast
qed

lemma all_headers_near:
  assumes "p \<in> all_headers c base"
  shows "\<exists>y<2 ^ 20. p = base + of_nat y"
proof -
  consider t b s where "t < MAX_ALIVE_THREADS" "b < BIBOP_NUM_BAGS c" "s < BIBOP_BAG_SET_SIZE"
      "p = bag_addr c base t b + of_nat (s * sizeof_FREELIST_TYPE c)"
    | t b where "t < MAX_ALIVE_THREADS" "b < BIBOP_NUM_BAGS c"
      "p = bag_addr c base t b + of_nat (BIBOP_BAG_SET_SIZE * sizeof_FREELIST_TYPE c + 16 + 32 + 32 + 16 + 7 * 8)"
    using assms unfolding all_headers_def freelist_addr_def cfreelist_addr_def by blast
  then show ?thesis
  proof cases
    case (1 t b s)
    then have "s * sizeof_FREELIST_TYPE c < 256"
      by (auto simp: sizeof_FREELIST_TYPE_def BIBOP_BAG_SET_SIZE_def)
    then show ?thesis unfolding 1(4) using 1 by (intro bag_part_offset)
  next
    case (2 t b)
    show ?thesis unfolding 2(3) using 2
      by (intro bag_part_offset) (simp_all add: sizeof_FREELIST_TYPE_def BIBOP_BAG_SET_SIZE_def)
  qed
qed

lemma pool_headers_subset: "pool_headers c base \<subseteq> all_headers c base"
  using usable_less_bags(1) [of c] unfolding pool_headers_def all_headers_def item_ok_def
  by (auto intro: less_le_trans)

text \<open>A slot in a mapped heap is a small number of bytes above the start of the shadow
  memory.\<close>

lemma seq_slot_unat:
  assumes k: "bag_shift_ok c k" and p: "placed c k hb sb base" and i: "item_ok c t b s"
    and r: "in_room c k b s n"
  obtains x where "x + 2 ^ info_shift c \<le> BIBOP_NUM_HEAPS * shadow_per_heap c k"
    "seq_slot c k sb t b s n = sb + of_nat x" "unat (seq_slot c k sb t b s n) = unat sb + x"
proof -
  let ?h = "seq_heap c k b s n" and ?i = "seq_idx c k b n"
  have v: "valid_obj c k ?h t b ?i" using seq_valid [OF k _ _ r] i by (simp add: item_ok_def)
  have le: "slot_off c k ?h t b ?i + 2 ^ info_shift c \<le> BIBOP_NUM_HEAPS * shadow_per_heap c k"
    using r v by (intro slot_in_shadow) (simp_all add: in_room_def valid_obj_def)
  have "slot_off c k ?h t b ?i < 2 ^ LENGTH(64)" using slot_off_lt [OF k v] by simp
  then have o: "unat (of_nat (slot_off c k ?h t b ?i) :: size_t) = slot_off c k ?h t b ?i"
    by (rule unat_of_nat_less)
  have "unat (seq_slot c k sb t b s n) = unat sb + slot_off c k ?h t b ?i"
    unfolding seq_slot_def slot_addr_def using p le by (subst unat_add_less) (simp_all add: o placed_def)
  then show thesis using le by (intro that) (simp_all add: seq_slot_def slot_addr_def)
qed

lemma slot_shadow_access:
  assumes k: "bag_shift_ok c k" and p: "placed c k hb sb base" and i: "item_ok c t b s"
    and r: "in_room c k b s n" and g: "geom st = the_geometry c k hb sb"
  shows "shadow_access st (seq_slot c k sb t b s n)"
proof -
  obtain x where x: "x + 2 ^ info_shift c \<le> BIBOP_NUM_HEAPS * shadow_per_heap c k"
    "seq_slot c k sb t b s n = sb + of_nat x" using seq_slot_unat [OF k p i r] by metis
  have "BIBOP_NUM_HEAPS * shadow_per_heap c k < 2 ^ 64" using p by (simp add: placed_def)
  moreover have "x < BIBOP_NUM_HEAPS * shadow_per_heap c k"
  proof -
    have "0 < (2::nat) ^ info_shift c" by simp
    then show ?thesis using x(1) by linarith
  qed
  ultimately show ?thesis
    unfolding shadow_access_def g geo x(2) of_nat_diff_add by (intro offset_lessI)
qed

lemma slot_special:
  assumes k: "bag_shift_ok c k" and p: "placed c k hb sb base" and i: "item_ok c t b s"
    and r: "in_room c k b s n"
  shows "seq_slot c k sb t b s n \<noteq> 0" "seq_slot c k sb t b s n \<noteq> ALLOC_SENTINEL"
    "seq_slot c k sb t b s n \<notin> all_headers c base" "seq_slot c k sb t b s n \<notin> pool_headers c base"
proof -
  obtain x where x: "x + 2 ^ info_shift c \<le> BIBOP_NUM_HEAPS * shadow_per_heap c k"
    "unat (seq_slot c k sb t b s n) = unat sb + x" using seq_slot_unat [OF k p i r] by metis
  have "1 < unat (seq_slot c k sb t b s n)" using x(2) p by (simp add: placed_def)
  then show "seq_slot c k sb t b s n \<noteq> 0" "seq_slot c k sb t b s n \<noteq> ALLOC_SENTINEL"
    by (auto simp: ALLOC_SENTINEL_def)
  show "seq_slot c k sb t b s n \<notin> all_headers c base"
  proof
    assume "seq_slot c k sb t b s n \<in> all_headers c base"
    then obtain y where y: "y < 2 ^ 20" and eq: "seq_slot c k sb t b s n = base + of_nat y"
      using all_headers_near by blast
    then have "unat (of_nat y :: size_t) = y" by (intro unat_of_nat_less) simp
    then have "unat (base + of_nat y) = unat base + y"
      using p y by (subst unat_add_less) (simp_all add: placed_def)
    moreover have "x < BIBOP_NUM_HEAPS * shadow_per_heap c k"
    proof -
      have "0 < (2::nat) ^ info_shift c" by simp
      then show ?thesis using x(1) by linarith
    qed
    ultimately show False using x(2) y p unfolding eq placed_def by linarith
  qed
  then show "seq_slot c k sb t b s n \<notin> pool_headers c base" using pool_headers_subset by blast
qed

section \<open>The invariant\<close>

type_synonym bump_map = "nat \<Rightarrow> nat \<Rightarrow> nat \<Rightarrow> nat"
type_synonym obj = "nat \<times> nat \<times> nat \<times> nat"

definition live :: "build \<Rightarrow> nat \<Rightarrow> addr \<Rightarrow> 'r bibop \<Rightarrow> obj set" where
  "live c k sb st = {(t, b, s, n). item_ok c t b s \<and> in_room c k b s n \<and>
    snext (lists st) (seq_slot c k sb t b s n) = ALLOC_SENTINEL}"

definition bags_inv :: "build \<Rightarrow> nat \<Rightarrow> addr \<Rightarrow> addr \<Rightarrow> bump_map \<Rightarrow> 'r bibop \<Rightarrow> bool" where
  "bags_inv c k hb sb N st \<longleftrightarrow>
    bag_shift_ok c k \<and> placed c k hb sb (threadBagAddr st) \<and> geom st = the_geometry c k hb sb \<and>
    table_ok c k hb (threadBag st) \<and>
    (\<forall>t<MAX_ALIVE_THREADS. \<forall>b<usable_bags c.
      length (position (get_bag st t b)) = 4 \<and> length (lastofCurBag (get_bag st t b)) = 4) \<and>
    (\<forall>t b s. item_ok c t b s \<longrightarrow>
      bump_at c k hb t b s (N t b s) (get_bag st t b) \<and> in_room c k b s (Suc (N t b s)))"

definition lists_inv ::
  "build \<Rightarrow> nat \<Rightarrow> addr \<Rightarrow> bump_map \<Rightarrow> (addr \<Rightarrow> addr list) \<Rightarrow> obj set \<Rightarrow> 'r bibop \<Rightarrow> bool"
where
  "lists_inv c k sb N L S st \<longleftrightarrow>
    pool (freelist_holds c) (lists st) (pool_headers c (threadBagAddr st)) L \<and>
    (\<forall>t b s. item_ok c t b s \<longrightarrow>
      set (L (freelist_addr c (threadBagAddr st) t b s)) \<subseteq>
        {seq_slot c k sb t b s n | n. n < N t b s \<and> (t, b, s, n) \<notin> S}) \<and>
    (\<forall>(t, b, s, n)\<in>live c k sb st. n < N t b s) \<and>
    (\<forall>(t, b, s, n)\<in>S. n < N t b s) \<and> S \<inter> live c k sb st = {}"

text \<open>Every \<open>mprotect\<close> is the guard of a bag or a random guard on objects of \<open>S\<close>.\<close>

definition bag_guard_call :: "build \<Rightarrow> nat \<Rightarrow> addr \<Rightarrow> ext_call \<Rightarrow> bool" where
  "bag_guard_call c k hb e \<longleftrightarrow> (\<exists>h t b. h < BIBOP_NUM_HEAPS \<and> t < MAX_ALIVE_THREADS \<and>
    b < usable_bags c \<and> e = guard_call c k hb h t b)"

definition page_guard_call :: "build \<Rightarrow> nat \<Rightarrow> addr \<Rightarrow> obj set \<Rightarrow> ext_call \<Rightarrow> bool" where
  "page_guard_call c k hb S e \<longleftrightarrow> (\<exists>t b s n. item_ok c t b s \<and> in_room c k b s n \<and>
    e = random_guard c k hb t b s n \<and> n mod objects c k b + page_objs b \<le> objects c k b \<and>
    (\<forall>j<page_objs b. (t, b, s, n + j) \<in> S))"

definition guards_inv :: "build \<Rightarrow> nat \<Rightarrow> addr \<Rightarrow> obj set \<Rightarrow> trace \<Rightarrow> bool" where
  "guards_inv c k hb S tr \<longleftrightarrow> (\<forall>p len. Mprotect p len \<in> set tr \<longrightarrow>
    bag_guard_call c k hb (Mprotect p len) \<or> page_guard_call c k hb S (Mprotect p len))"

definition heap_inv ::
  "build \<Rightarrow> nat \<Rightarrow> addr \<Rightarrow> addr \<Rightarrow> bump_map \<Rightarrow> (addr \<Rightarrow> addr list) \<Rightarrow> obj set \<Rightarrow> 'r bibop \<Rightarrow> bool"
where
  "heap_inv c k hb sb N L S st \<longleftrightarrow>
    bags_inv c k hb sb N st \<and> lists_inv c k sb N L S st \<and> guards_inv c k hb S (calls st)"

text \<open>What an operation may do to the ghost parameters: the bump pointers only advance, objects are given up
  only ahead of them, and the free lists gain nothing (\<open>only_removed\<close>).\<close>

definition grows :: "bump_map \<Rightarrow> obj set \<Rightarrow> bump_map \<Rightarrow> obj set \<Rightarrow> bool" where
  "grows N S N' S' \<longleftrightarrow> (\<forall>t b s. N t b s \<le> N' t b s) \<and>
     (\<forall>t b s n. (t, b, s, n) \<in> S' \<longrightarrow> (t, b, s, n) \<in> S \<or> N t b s \<le> n)"

definition only_removed :: "build \<Rightarrow> addr \<Rightarrow> (addr \<Rightarrow> addr list) \<Rightarrow> (addr \<Rightarrow> addr list) \<Rightarrow> bool" where
  "only_removed c base L L' \<longleftrightarrow> (\<forall>h\<in>pool_headers c base. set (L' h) \<subseteq> set (L h))"

lemma grows_refl: "grows N S N S"
  by (simp add: grows_def)

lemma bags_invD:
  assumes "bags_inv c k hb sb N st"
  shows "bag_shift_ok c k" "placed c k hb sb (threadBagAddr st)" "heap_placed c k hb"
    "geom st = the_geometry c k hb sb" "table_ok c k hb (threadBag st)"
    "t < MAX_ALIVE_THREADS \<Longrightarrow> b < usable_bags c \<Longrightarrow> length (position (get_bag st t b)) = 4"
    "t < MAX_ALIVE_THREADS \<Longrightarrow> b < usable_bags c \<Longrightarrow> length (lastofCurBag (get_bag st t b)) = 4"
    "item_ok c t b s \<Longrightarrow> bump_at c k hb t b s (N t b s) (get_bag st t b)"
    "item_ok c t b s \<Longrightarrow> in_room c k b s (Suc (N t b s))"
  using assms unfolding bags_inv_def placed_def by blast+

lemma lists_invD:
  assumes "lists_inv c k sb N L S st"
  shows "pool (freelist_holds c) (lists st) (pool_headers c (threadBagAddr st)) L"
    "item_ok c t b s \<Longrightarrow> x \<in> set (L (freelist_addr c (threadBagAddr st) t b s)) \<Longrightarrow>
      \<exists>n. x = seq_slot c k sb t b s n \<and> n < N t b s \<and> (t, b, s, n) \<notin> S"
    "(t, b, s, n) \<in> live c k sb st \<Longrightarrow> n < N t b s" "(t, b, s, n) \<in> S \<Longrightarrow> n < N t b s"
    "y \<in> S \<Longrightarrow> y \<notin> live c k sb st"
  using assms unfolding lists_inv_def by (blast, blast, fast, fast, blast)

lemma lists_invI:
  assumes "pool (freelist_holds c) (lists st) (pool_headers c (threadBagAddr st)) L"
    and "\<And>t b s x. item_ok c t b s \<Longrightarrow> x \<in> set (L (freelist_addr c (threadBagAddr st) t b s)) \<Longrightarrow>
      \<exists>n. x = seq_slot c k sb t b s n \<and> n < N t b s \<and> (t, b, s, n) \<notin> S"
    and "\<And>t b s n. (t, b, s, n) \<in> live c k sb st \<Longrightarrow> n < N t b s"
    and "\<And>t b s n. (t, b, s, n) \<in> S \<Longrightarrow> n < N t b s"
    and "\<And>y. y \<in> S \<Longrightarrow> y \<notin> live c k sb st"
  shows "lists_inv c k sb N L S st"
  unfolding lists_inv_def
proof (intro conjI allI impI subsetI)
  show "\<forall>(t, b, s, n)\<in>live c k sb st. n < N t b s" using assms(3) by auto
  show "\<forall>(t, b, s, n)\<in>S. n < N t b s" using assms(4) by auto
  show "S \<inter> live c k sb st = {}" using assms(5) by blast
  fix t b s x assume "item_ok c t b s" "x \<in> set (L (freelist_addr c (threadBagAddr st) t b s))"
  then show "x \<in> {seq_slot c k sb t b s n | n. n < N t b s \<and> (t, b, s, n) \<notin> S}" using assms(2) by blast
qed (rule assms(1))

section \<open>Accessible objects\<close>

lemma protected_call:
  "protected env tr x \<Longrightarrow> \<exists>p len. Mprotect p len \<in> set tr \<and> x - p < len"
  by (induction tr) (auto split: ext_call.splits)

text \<open>The bytes of an object as offsets.\<close>

definition seq_off :: "build \<Rightarrow> nat \<Rightarrow> nat \<Rightarrow> nat \<Rightarrow> nat \<Rightarrow> nat \<Rightarrow> nat" where
  "seq_off c k t b s n = obj_off c k (seq_heap c k b s n) t b (seq_idx c k b n)"

lemma seq_addr_off: "seq_addr c k hb t b s n = hb + of_nat (seq_off c k t b s n)"
  by (simp add: seq_addr_def obj_addr_def seq_off_def)

lemma seq_off_range:
  "e < 2 ^ (4 + b) \<Longrightarrow> seq_off c k t b s n + e \<in> obj_range c k (seq_heap c k b s n) t b (seq_idx c k b n)"
  by (simp add: seq_off_def obj_range_def)

lemma seq_off_lt:
  assumes k: "bag_shift_ok c k" and i: "item_ok c t b s" and r: "in_room c k b s n"
  shows "seq_off c k t b s n + 2 ^ (4 + b) \<le> BIBOP_NUM_HEAPS * 2 ^ heap_shift c k"
    "seq_off c k t b s n < 2 ^ 46"
  using obj_off_lt [OF k seq_valid [OF k _ _ r, of t]] i by (simp_all add: seq_off_def item_ok_def)

lemma not_in_bag_guard:
  assumes k: "bag_shift_ok c k" and i: "item_ok c t b s" and r: "in_room c k b s n"
    and e: "e < 2 ^ (4 + b)" and g: "h' < BIBOP_NUM_HEAPS" "t' < MAX_ALIVE_THREADS" "b' < usable_bags c"
    and c: "Mprotect p len = guard_call c k hb h' t' b'"
  shows "\<not> (hb + of_nat (seq_off c k t b s n + e)) - p < len"
proof -
  have v: "valid_obj c k (seq_heap c k b s n) t b (seq_idx c k b n)"
    using seq_valid [OF k _ _ r] i by (simp add: item_ok_def)
  have reach: "guard_reach c k b' \<le> 2 ^ k" using guard_reach_less [OF k g(3)] by linarith
  have "h' * 2 ^ heap_shift c k + bag_off c k t' b' + 2 ^ k - guard_reach c k b' = guard_off c k h' t' b'"
    using reach by (simp add: guard_off_def)
  then have p: "p = hb + of_nat (guard_off c k h' t' b')" "len = of_nat (guard_len c k b')"
    using c by (simp_all add: guard_call_def)
  have "b' < BIBOP_NUM_BAGS c" using g(3) usable_less_bags(1) [of c] by simp
  then have "guard_off c k h' t' b' \<le> 2 ^ 46 + 2 ^ 24"
    using heap_offset_lt [OF k g(1,2), of b' 0] bag_size_lt [OF k] by (simp add: guard_off_def)
  then have lt: "guard_off c k h' t' b' < 2 ^ 48" by simp
  have e22: "e < 2 ^ 22" using e class_word_lt [of b c] i by (simp add: item_ok_def)
  have "seq_off c k t b s n + e \<notin> guard_range c k h' t' b'"
    using guard_obj_disjoint [OF k v g(3,2)] seq_off_range [OF e] by blast
  then show ?thesis
    unfolding p using lt e22 seq_off_lt(2) [OF k i r] guard_len_lt [OF k g(3)]
    by (subst word_interval) (auto simp: guard_range_def)
qed

lemma not_in_random_guard:
  assumes k: "bag_shift_ok c k" and i: "item_ok c t b s" and r: "in_room c k b s n"
    and e: "e < 2 ^ (4 + b)" and j: "item_ok c t' b' s'" and r': "in_room c k b' s' m"
    and pg: "m mod objects c k b' + page_objs b' \<le> objects c k b'"
    and c: "Mprotect p len = random_guard c k hb t' b' s' m"
    and ne: "\<forall>j<page_objs b'. (t, b, s, n) \<noteq> (t', b', s', m + j)"
  shows "\<not> (hb + of_nat (seq_off c k t b s n + e)) - p < len"
proof
  let ?x = "seq_off c k t b s n + e" and ?m = "page_objs b' * 2 ^ (4 + b')"
  assume less: "(hb + of_nat ?x) - p < len"
  have p: "p = hb + of_nat (seq_off c k t' b' s' m)" "len = of_nat ?m"
    using c by (simp_all add: random_guard_def seq_addr_off)
  have e22: "e < 2 ^ 22" using e class_word_lt [of b c] i by (simp add: item_ok_def)
  have "?m \<le> 256 * 2 ^ 22"
    using page_objs_le class_word_lt [of b' c] j by (intro mult_le_mono) (simp_all add: item_ok_def)
  then have "seq_off c k t' b' s' m \<le> ?x \<and> ?x < seq_off c k t' b' s' m + ?m"
    using less e22 seq_off_lt(2) [OF k i r] seq_off_lt(2) [OF k j r'] unfolding p
    by (subst (asm) word_interval) simp_all
  then have "seq_off c k t' b' s' m \<le> ?x" and up: "?x < seq_off c k t' b' s' m + ?m" by simp_all
  then obtain y where y1: "?x = seq_off c k t' b' s' m + y" by (elim less_eqE)
  then have y: "?x = seq_off c k t' b' s' m + y" "y < ?m" using up by linarith+
  let ?j = "y div 2 ^ (4 + b')" and ?f = "y mod 2 ^ (4 + b')"
  have jlt: "?j < page_objs b'" using y(2) by (rule less_mult_imp_div_less)
  have "m mod objects c k b' + ?j < objects c k b'" using pg jlt by linarith
  note ah = seq_ahead [OF this]
  have "seq_off c k t' b' s' (m + ?j) = seq_off c k t' b' s' m + ?j * 2 ^ (4 + b')"
    unfolding seq_off_def ah by (simp add: obj_off_def algebra_simps)
  then have x: "?x = seq_off c k t' b' s' (m + ?j) + ?f"
    using y(1) div_mult_mod_eq [of y "2 ^ (4 + b')"] by linarith
  have r'': "in_room c k b' s' (m + ?j)" using r' unfolding in_room_def ah .
  have f: "?f < 2 ^ (4 + b')" by simp
  have eqs: "(seq_heap c k b s n, t, b, seq_idx c k b n)
      = (seq_heap c k b' s' (m + ?j), t', b', seq_idx c k b' (m + ?j))"
  proof (rule obj_ranges_disjoint [OF k])
    show "valid_obj c k (seq_heap c k b s n) t b (seq_idx c k b n)"
      using seq_valid [OF k _ _ r] i by (simp add: item_ok_def)
    show "valid_obj c k (seq_heap c k b' s' (m + ?j)) t' b' (seq_idx c k b' (m + ?j))"
      using seq_valid [OF k _ _ r''] j by (simp add: item_ok_def)
    show "?x \<in> obj_range c k (seq_heap c k b s n) t b (seq_idx c k b n)" by (rule seq_off_range [OF e])
    show "?x \<in> obj_range c k (seq_heap c k b' s' (m + ?j)) t' b' (seq_idx c k b' (m + ?j))"
      unfolding x by (rule seq_off_range [OF f])
  qed
  then have tb: "t' = t" "b' = b" by simp_all
  have "s = s' \<and> n = m + ?j"
  proof (rule seq_coord_inj)
    show "s < 4" "s' < 4" using i j by (simp_all add: item_ok_def BIBOP_BAG_SET_SIZE_def)
    show "0 < objects c k b" using i by (intro objects_pos [OF k]) (simp add: item_ok_def)
    show "seq_heap c k b s n = seq_heap c k b s' (m + ?j)" "seq_idx c k b n = seq_idx c k b (m + ?j)"
      using eqs unfolding tb by simp_all
  qed
  then show False using ne jlt tb by blast
qed

text \<open>Every byte of an object that was not given up is in the heap area and on no guard
  page.\<close>

lemma object_accessible:
  assumes inv: "bags_inv c k hb sb N st" and g: "guards_inv c k hb S (calls st)" and i: "item_ok c t b s"
    and r: "in_room c k b s n" and e: "e < 2 ^ (4 + b)" and S: "(t, b, s, n) \<notin> S"
  shows "heap_access env st (seq_addr c k hb t b s n + of_nat e)"
proof -
  have k: "bag_shift_ok c k" and geo': "geom st = the_geometry c k hb sb"
    and p: "heap_placed c k hb" using inv by (simp_all add: bags_inv_def placed_def)
  let ?x = "seq_off c k t b s n + e"
  have x: "seq_addr c k hb t b s n + of_nat e = hb + of_nat ?x" by (simp add: seq_addr_off add.assoc)
  have lt: "?x < BIBOP_NUM_HEAPS * 2 ^ heap_shift c k" using seq_off_lt(1) [OF k i r] e by linarith
  have big: "BIBOP_NUM_HEAPS * 2 ^ heap_shift c k < 2 ^ 64" using p by (simp add: heap_placed_def)
  have "(of_nat ?x :: size_t) < of_nat (BIBOP_NUM_HEAPS * 2 ^ heap_shift c k)"
    using lt big by (subst of_nat_less_word_iff) simp_all
  moreover have "\<not> protected env (calls st) (hb + of_nat ?x)"
  proof
    assume "protected env (calls st) (hb + of_nat ?x)"
    then obtain p len where c: "Mprotect p len \<in> set (calls st)" and l: "(hb + of_nat ?x) - p < len"
      using protected_call by blast
    from g c consider "bag_guard_call c k hb (Mprotect p len)" | "page_guard_call c k hb S (Mprotect p len)"
      unfolding guards_inv_def by blast
    then show False
    proof cases
      case 1
      then show False unfolding bag_guard_call_def using not_in_bag_guard [OF k i r e] l by blast
    next
      case 2
      then obtain t' b' s' m where "item_ok c t' b' s'" "in_room c k b' s' m"
        "m mod objects c k b' + page_objs b' \<le> objects c k b'"
        "Mprotect p len = random_guard c k hb t' b' s' m" and S': "\<forall>j<page_objs b'. (t', b', s', m + j) \<in> S"
        unfolding page_guard_call_def by blast
      from not_in_random_guard [OF k i r e this(1-4)] S' S l show False by blast
    qed
  qed
  ultimately show ?thesis unfolding heap_access_def geo' geo x of_nat_diff_add by simp
qed

end
