(* ===== verification/BibopOps.thy ===== *)
theory BibopOps
  imports BibopInv
begin

text \<open>
  The steps of allocation and freeing keep the invariant: the bump pointer
  (\<open>bump_allocate_ok\<close>), the choice of an object (\<open>pick_object_ok\<close>), its marking
  (\<open>mark_allocated_ok\<close>), the release of its slot (\<open>release_slot_ok\<close>).
\<close>

section \<open>After initialize\<close>

lemma initial_heap_inv:
  assumes k: "bag_shift_ok c k" and i: "initial_heap c k hb sb st st'"
    and p: "placed c k hb sb (threadBagAddr st)"
    and calls: "\<And>p len. Mprotect p len \<notin> set (calls st)"
    and fresh: "\<And>t b s n. item_ok c t b s \<Longrightarrow> in_room c k b s n \<Longrightarrow>
      snext (lists st) (seq_slot c k sb t b s n) = 0"
  shows "heap_inv c k hb sb (\<lambda>_ _ _. 0) (\<lambda>_. []) {} st'" and "live c k sb st' = {}"
proof -
  let ?base = "threadBagAddr st"
  note i' = i [unfolded initial_heap_def]
  have base: "threadBagAddr st' = ?base" and geom: "geom st' = the_geometry c k hb sb"
    and bags: "threadBag st' = map (fresh_row c k hb) [0..<MAX_ALIVE_THREADS]" using i' by simp_all
  have bag: "get_bag st' t b = fresh_bag c k hb t b" if "t < MAX_ALIVE_THREADS" "b < usable_bags c" for t b
    using that by (simp add: get_bag_def bags fresh_row_def nth_append)
  have z: "snext (lists st') (seq_slot c k sb t b s n) = 0" if "item_ok c t b s" "in_room c k b s n" for t b s n
    using i' fresh [OF that] slot_special(3) [OF k p that] by simp
  then show l: "live c k sb st' = {}" by (auto simp: live_def ALLOC_SENTINEL_def)
  have room: "in_room c k b s (Suc 0)" if "item_ok c t b s" for t b s
  proof -
    have "Suc 0 div objects c k b \<le> Suc 0" by (rule div_le_dividend)
    then have "seq_heap c k b s (Suc 0) \<le> Suc 0 * 4 + s" unfolding seq_heap_def by (intro add_le_mono1 mult_le_mono1)
    then have "seq_heap c k b s (Suc 0) \<le> 7"
      using that by (simp add: item_ok_def BIBOP_BAG_SET_SIZE_def)
    then show ?thesis unfolding in_room_def
      using shadow_fits_half [OF k, of "seq_heap c k b s (Suc 0)"] by (simp add: BIBOP_NUM_HEAPS_def)
  qed
  have at: "bump_at c k hb t b s 0 (get_bag st' t b)" if "item_ok c t b s" for t b s
    using that bag [of t b]
    by (simp add: bump_at_def fresh_bag_def item_ok_def BIBOP_BAG_SET_SIZE_def seq_addr_def seq_last_def
        obj_addr_def obj_off_def seq_heap_def seq_idx_def last_obj_def)
  have tbl: "table_ok c k hb (threadBag st')" unfolding bags by (rule table_ok_initial)
  have "length (position (get_bag st' t b)) = 4 \<and> length (lastofCurBag (get_bag st' t b)) = 4"
    if "t < MAX_ALIVE_THREADS" "b < usable_bags c" for t b
    unfolding bag [OF that] by (simp add: fresh_bag_def)
  then have "bags_inv c k hb sb (\<lambda>_ _ _. 0) st'"
    unfolding bags_inv_def base using k p tbl geom at room by blast
  moreover have "pool (freelist_holds c) (lists st') (pool_headers c ?base) (\<lambda>_. [])"
    using i' by (auto simp: pool_def apart_def pool_headers_def item_ok_def)
  moreover have "guards_inv c k hb {} (calls st')"
    unfolding guards_inv_def
  proof (intro allI impI disjI1)
    fix q len assume "Mprotect q len \<in> set (calls st')"
    then have "Mprotect q len \<in> {e \<in> set (calls st'). \<exists>p n. e = Mprotect p n}" by blast
    then have "Mprotect q len \<in> (\<Union>t<MAX_ALIVE_THREADS. \<Union>b<usable_bags c. bag_guards c k hb t b)"
      using i' calls by simp
    then obtain t b h where "t < MAX_ALIVE_THREADS" "b < usable_bags c" "h < 4"
      "Mprotect q len = guard_call c k hb h t b"
      by (auto simp: bag_guards_def split: if_splits)
    then show "bag_guard_call c k hb (Mprotect q len)" unfolding bag_guard_call_def
      by (intro exI [of _ h] exI [of _ t] exI [of _ b]) (simp add: BIBOP_NUM_HEAPS_def)
  qed
  ultimately show "heap_inv c k hb sb (\<lambda>_ _ _. 0) (\<lambda>_. []) {} st'"
    using l base by (simp add: heap_inv_def lists_inv_def)
qed

section \<open>The guards of initialize\<close>

lemma protectedI:
  "\<forall>p n tr. env (Mprotect p n # tr) = 0 \<Longrightarrow> Mprotect p n \<in> set tr \<Longrightarrow> x - p < n \<Longrightarrow> protected env tr x"
  by (induction tr) auto

lemma guard_byte_in_range:
  assumes k: "bag_shift_ok c k" and g: "ENABLE_GUARDPAGE c" and b: "b < BIBOP_NUM_BAGS c" and d: "d < 2 ^ k"
    and beh: "usable_bags c \<le> b \<or> objects c k b * 2 ^ (4 + b) \<le> d"
  shows "\<exists>b'<usable_bags c. h * 2 ^ heap_shift c k + bag_off c k t b + d \<in> guard_range c k h t b'"
proof (cases "usable_bags c \<le> b")
  case True
  have "usable_bags c - 1 < usable_bags c" using usable_less_bags(2) [of c] by simp
  then show ?thesis using unusable_bag_guarded [OF k g True b d] by blast
next
  case False
  then have u: "b < usable_bags c" by simp
  have "2 ^ k - guard_reach c k b \<le> d" using beh False unfolding objects_times_class [OF k u] by simp
  moreover have "guard_reach c k b \<le> 2 ^ k" using guard_reach_less [OF k u] by linarith
  ultimately have "h * 2 ^ heap_shift c k + bag_off c k t b + d \<in> guard_range c k h t b"
    using d g by (simp add: guard_range_def guard_off_def guard_len_def)
  then show ?thesis using u by blast
qed

lemma guard_range_protected:
  assumes k: "bag_shift_ok c k" and e: "\<forall>p n tr. env (Mprotect p n # tr) = 0"
    and m: "guard_call c k hb h t b \<in> set tr" and b: "b < usable_bags c" and x: "x \<in> guard_range c k h t b"
    and lt: "x < 2 ^ 46"
  shows "protected env tr (hb + of_nat x)"
proof -
  have reach: "guard_reach c k b \<le> 2 ^ k" using guard_reach_less [OF k b] by linarith
  have go: "h * 2 ^ heap_shift c k + bag_off c k t b + 2 ^ k - guard_reach c k b = guard_off c k h t b"
    using reach by (simp add: guard_off_def)
  have in_r: "guard_off c k h t b \<le> x" "x < guard_off c k h t b + guard_len c k b"
    using x by (auto simp: guard_range_def)
  have "(hb + of_nat x) - (hb + of_nat (guard_off c k h t b)) < of_nat (guard_len c k b)"
    using lt in_r guard_len_lt [OF k b] by (subst word_interval) simp_all
  then show ?thesis using m unfolding guard_call_def go by (intro protectedI [OF e])
qed

lemma initial_guard_protects:
  assumes k: "bag_shift_ok c k" and i: "initial_heap c k hb sb st st'" and e: "\<forall>p n tr. env (Mprotect p n # tr) = 0"
    and h: "h < 4" and t: "t < MAX_ALIVE_THREADS" and b: "b < usable_bags c" and x: "x \<in> guard_range c k h t b"
    and lt: "x < BIBOP_NUM_HEAPS * 2 ^ heap_shift c k" "BIBOP_NUM_HEAPS * 2 ^ heap_shift c k \<le> 2 ^ 46"
  shows "protected env (calls st') (hb + of_nat x)"
proof (rule guard_range_protected [OF k e _ b x])
  have "guard_len c k b \<noteq> 0" using x by (auto simp: guard_range_def)
  then have "guard_call c k hb h t b \<in> bag_guards c k hb t b" using h by (simp add: bag_guards_def)
  then have "guard_call c k hb h t b \<in> {e \<in> set (calls st'). \<exists>p n. e = Mprotect p n}"
    using i t b unfolding initial_heap_def by blast
  then show "guard_call c k hb h t b \<in> set (calls st')" by blast
  show "x < 2 ^ 46" using lt by linarith
qed

section \<open>Frames\<close>

lemma bags_inv_cong:
  assumes "threadBag st' = threadBag st" "geom st' = geom st" "threadBagAddr st' = threadBagAddr st"
  shows "bags_inv c k hb sb N st' = bags_inv c k hb sb N st"
  using assms by (simp add: bags_inv_def get_bag_def)

lemma live_cong: "lists st' = lists st \<Longrightarrow> live c k sb st' = live c k sb st"
  by (simp add: live_def)

lemma lists_inv_cong:
  assumes "lists st' = lists st" "threadBagAddr st' = threadBagAddr st"
  shows "lists_inv c k sb N L S st' = lists_inv c k sb N L S st"
  using assms live_cong [OF assms(1)] by (simp add: lists_inv_def)

text \<open>The bump pointers move up, and objects that were never handed out are given up.\<close>

lemma lists_inv_advance:
  assumes inv: "lists_inv c k sb N L S st" and N: "\<And>t b s. N t b s \<le> N' t b s"
    and S: "S \<subseteq> S'" and new: "\<And>t b s n. (t, b, s, n) \<in> S' - S \<Longrightarrow> N t b s \<le> n \<and> n < N' t b s"
  shows "lists_inv c k sb N' L S' st"
proof -
  note D = lists_invD [OF inv]
  have up: "n < N' t b s" if "n < N t b s" for t b s n using that N [of t b s] by simp
  show ?thesis
  proof (rule lists_invI)
    show "pool (freelist_holds c) (lists st) (pool_headers c (threadBagAddr st)) L" by (rule D(1))
    fix t b s x assume "item_ok c t b s" "x \<in> set (L (freelist_addr c (threadBagAddr st) t b s))"
    from D(2) [OF this] obtain n where n: "x = seq_slot c k sb t b s n" "n < N t b s" "(t, b, s, n) \<notin> S"
      by blast
    then have "(t, b, s, n) \<notin> S'" using new [of t b s n] by fastforce
    then show "\<exists>n. x = seq_slot c k sb t b s n \<and> n < N' t b s \<and> (t, b, s, n) \<notin> S'"
      using n up [OF n(2)] by blast
  next
    fix t b s n assume "(t, b, s, n) \<in> live c k sb st"
    then show "n < N' t b s" by (intro up D(3))
  next
    fix t b s n assume "(t, b, s, n) \<in> S'"
    then show "n < N' t b s" using up D(4) new by blast
  next
    fix y assume y: "y \<in> S'"
    obtain t b s n where ye: "y = (t, b, s, n)" by (rule prod_cases4)
    show "y \<notin> live c k sb st"
    proof
      assume l: "y \<in> live c k sb st"
      then have "n < N t b s" "y \<notin> S" using D(3) D(5) unfolding ye by blast+
      then show False using new [of t b s n] y unfolding ye by fastforce
    qed
  qed
qed

lemma guards_inv_mono: "guards_inv c k hb S tr \<Longrightarrow> S \<subseteq> S' \<Longrightarrow> guards_inv c k hb S' tr"
  unfolding guards_inv_def page_guard_call_def by (meson subsetD)

lemma guards_inv_step:
  assumes g: "guards_inv c k hb S tr" and i: "item_ok c t b s" and r: "in_room c k b s n"
  shows "guards_inv c k hb S (step_guard c k hb t b s n @ tr)"
proof -
  have "bag_guard_call c k hb (guard_call c k hb (seq_heap c k b s n) t b)"
    using i r unfolding bag_guard_call_def item_ok_def in_room_def by blast
  then show ?thesis using g unfolding guards_inv_def step_guard_def by auto
qed

lemma guards_inv_random:
  assumes g: "guards_inv c k hb S tr" and i: "item_ok c t b s" and r: "in_room c k b s n"
    and f: "n mod objects c k b + page_objs b \<le> objects c k b"
    and S: "\<forall>j<page_objs b. (t, b, s, n + j) \<in> S"
  shows "guards_inv c k hb S (random_guard c k hb t b s n # tr)"
proof -
  have "page_guard_call c k hb S (random_guard c k hb t b s n)"
    using assms unfolding page_guard_call_def by blast
  then show ?thesis using g unfolding guards_inv_def by auto
qed

definition upd3 :: "bump_map \<Rightarrow> nat \<Rightarrow> nat \<Rightarrow> nat \<Rightarrow> nat \<Rightarrow> bump_map" where
  "upd3 N t b s n = (\<lambda>t' b' s'. if (t', b', s') = (t, b, s) then n else N t' b' s')"

lemma bags_inv_table:
  assumes inv: "bags_inv c k hb sb N st" and t: "t < MAX_ALIVE_THREADS" "b < usable_bags c"
  shows "t < length (threadBag st)" "b < length (threadBag st ! t)" "bag_is c k hb t b (get_bag st t b)"
  using assms usable_less_bags(1) [of c] unfolding bags_inv_def table_ok_def get_bag_def by auto

lemma table_ok_set_bag:
  assumes tb: "table_ok c k hb (threadBag st)" and bag: "bag_is c k hb t b bag" and t: "t < MAX_ALIVE_THREADS" "b < usable_bags c"
  shows "table_ok c k hb (threadBag (set_bag t b bag st))"
proof -
  have "b < BIBOP_NUM_BAGS c" using t usable_less_bags(1) [of c] by simp
  then show ?thesis using assms unfolding table_ok_def set_bag_def by (auto simp: nth_list_update)
qed

lemma bags_inv_bumped:
  assumes inv: "bags_inv c k hb sb N st" and i: "item_ok c t b s" and r: "in_room c k b s (Suc n)"
    and st': "threadBag st' = threadBag (set_bag t b (bumped c k hb t b s n (get_bag st t b)) st)"
      "geom st' = geom st" "threadBagAddr st' = threadBagAddr st"
  shows "bags_inv c k hb sb (upd3 N t b s n) st'"
proof -
  let ?bag = "bumped c k hb t b s n (get_bag st t b)"
  let ?st = "set_bag t b ?bag st"
  note v = inv [unfolded bags_inv_def]
  have t: "t < MAX_ALIVE_THREADS" "b < usable_bags c" and s: "s < 4"
    using i by (simp_all add: item_ok_def BIBOP_BAG_SET_SIZE_def)
  note tbl = bags_inv_table [OF inv t]
  have g: "get_bag st' t' b' = (if (t', b') = (t, b) then ?bag else get_bag st t' b')" for t' b'
  proof -
    have "get_bag st' t' b' = get_bag ?st t' b'" by (simp add: get_bag_def st'(1))
    then show ?thesis using get_set_bag [OF tbl(1,2)] get_set_bag_other [of t' b' t b ?bag st] by auto
  qed
  have l: "length (position (get_bag st t b)) = 4" "length (lastofCurBag (get_bag st t b)) = 4" using v t by blast+
  have "table_ok c k hb (threadBag st')"
    unfolding st'(1) using v bumped_is [OF tbl(3)] t by (intro table_ok_set_bag) blast+
  moreover have "length (position (get_bag st' t' b')) = 4 \<and> length (lastofCurBag (get_bag st' t' b')) = 4"
    if "t' < MAX_ALIVE_THREADS" "b' < usable_bags c" for t' b'
    unfolding g using l v that by (simp add: bumped_length)
  moreover have "bump_at c k hb t' b' s' (upd3 N t b s n t' b' s') (get_bag st' t' b') \<and>
      in_room c k b' s' (Suc (upd3 N t b s n t' b' s'))" if "item_ok c t' b' s'" for t' b' s'
  proof (cases "(t', b') = (t, b)")
    case False
    then show ?thesis unfolding g upd3_def using v that by auto
  next
    case True
    then show ?thesis
      using bumped_at [OF l s, of c k hb t b n] bumped_other [of s' s c k hb t b] r v that
      unfolding g upd3_def by auto
  qed
  ultimately show ?thesis unfolding bags_inv_def st'(2,3) using v by blast
qed

section \<open>The bump pointer\<close>

lemma bump_allocate_ok:
  assumes inv: "heap_inv c k hb sb N L S st" and i: "item_ok c t b s"
    and r: "in_room c k b s (N t b s + 2 + page_objs b)"
  shows "\<exists>st' N' S'. bump_allocate env c rnd t b s st = (seq_addr c k hb t b s (N t b s), st') \<and>
    heap_inv c k hb sb N' L S' st' \<and> lists st' = lists st \<and> bytes st' = bytes st \<and>
    threadBagAddr st' = threadBagAddr st \<and> N t b s < N' t b s \<and>
    (t, b, s, N t b s) \<notin> S' \<and> in_room c k b s (N' t b s + 1) \<and> grows N S N' S'"
proof -
  let ?n = "N t b s" and ?bag = "get_bag st t b"
  note parts = inv [unfolded heap_inv_def]
  have bi: "bags_inv c k hb sb N st" and li: "lists_inv c k sb N L S st"
    and gi: "guards_inv c k hb S (calls st)" using parts by simp_all
  note v = bi [unfolded bags_inv_def]
  have k: "bag_shift_ok c k" and p: "heap_placed c k hb" and g: "geom st = the_geometry c k hb sb"
    using v by (simp_all add: placed_def)
  have t: "t < MAX_ALIVE_THREADS" and b: "b < usable_bags c" and s: "s < 4"
    using i by (simp_all add: item_ok_def BIBOP_BAG_SET_SIZE_def)
  note tbl = bags_inv_table [OF bi t b]
  have at: "bump_at c k hb t b s ?n ?bag" using v i by blast
  have len: "length (position ?bag) = 4" "length (lastofCurBag ?bag) = 4" using v t b by blast+
  have rm: "in_room c k b s m" if "m \<le> ?n + 2 + page_objs b" for m using in_room_mono [OF r that] .
  have r0: "in_room c k b s ?n" "in_room c k b s (Suc ?n)" "in_room c k b s (Suc (Suc ?n))"
    by (intro rm; simp)+
  have SN: "(t, b, s, m) \<notin> S" if "?n \<le> m" for m
    using lists_invD(4) [OF li, of t b s m] that by fastforce
  define st1 where "st1 = (set_bag t b (bumped c k hb t b s (Suc ?n) ?bag) st)
      \<lparr> calls := step_guard c k hb t b s (Suc ?n) @ calls st \<rparr>"
  have inc: "incrementBumpPointer env c t b s st = st1"
    unfolding st1_def by (rule incrementBumpPointer_ok [OF k p t b r0(1) g tbl(3) at len s])
  have ptr: "position ?bag ! s = seq_addr c k hb t b s ?n" using at by (simp add: bump_at_def)
  have st1: "lists st1 = lists st" "bytes st1 = bytes st" "threadBagAddr st1 = threadBagAddr st"
    "geom st1 = geom st" "calls st1 = step_guard c k hb t b s (Suc ?n) @ calls st"
    by (simp_all add: st1_def set_bag_def)
  let ?N1 = "upd3 N t b s (Suc ?n)"
  have bi1: "bags_inv c k hb sb ?N1 st1"
    using bi i r0(3) by (rule bags_inv_bumped) (simp_all add: st1_def set_bag_def)
  have li1: "lists_inv c k sb ?N1 L S st1"
    unfolding lists_inv_cong [OF st1(1,3)] using li by (rule lists_inv_advance) (auto simp: upd3_def)
  have gi1: "guards_inv c k hb S (calls st1)" unfolding st1 using gi i r0(2) by (rule guards_inv_step)
  show ?thesis
  proof (cases "RANDOM_GUARD c \<and> position (get_bag st1 t b) ! s AND PageMask = 0")
    case False
    have "bump_allocate env c rnd t b s st = (seq_addr c k hb t b s ?n, st1)"
      unfolding bump_allocate_def Let_def inc ptr if_not_P [OF False] ..
    moreover have "heap_inv c k hb sb ?N1 L S st1" using bi1 li1 gi1 by (simp add: heap_inv_def)
    moreover have "in_room c k b s (?N1 t b s + 1)" using r0(3) by (simp add: upd3_def)
    ultimately show ?thesis using st1 SN [of ?n] by (intro exI [of _ st1] exI [of _ ?N1] exI [of _ S]) (simp add: upd3_def grows_def)
  next
    case True
    obtain w rs where rnd: "rnd (rng st1) = (w, rs)" by fastforce
    note v1 = bi1 [unfolded bags_inv_def] and tbl1 = bags_inv_table [OF bi1 t b]
    have at1: "bump_at c k hb t b s (Suc ?n) (get_bag st1 t b)"
      using bags_invD(8) [OF bi1 i] by (simp add: upd3_def)
    have len1: "length (position (get_bag st1 t b)) = 4" "length (lastofCurBag (get_bag st1 t b)) = 4"
      using v1 t b by blast+
    have g1: "geom st1 = the_geometry c k hb sb" using v1 by blast
    let ?m = "Suc ?n + page_objs b"
    note rg = tryRandomGuardPage_ok [OF k p t b r0(2) g1 tbl1(3) at1 len1 s tbl1(1,2) conjunct2 [OF True], of rnd w rs, OF rnd, of env]
    have bump: "bump_allocate env c rnd t b s st
        = (seq_addr c k hb t b s ?n, snd (tryRandomGuardPage env c rnd t b s st1))"
      unfolding bump_allocate_def Let_def inc ptr if_P [OF True] ..
    show ?thesis
    proof (cases "below_RANDOM_GUARD_RAND_CUTOFF c w")
      case False
      let ?st2 = "st1\<lparr> rng := rs \<rparr>"
      have "heap_inv c k hb sb ?N1 L S ?st2"
        using bi1 li1 gi1 bags_inv_cong [of ?st2 st1] lists_inv_cong [of ?st2 st1] by (simp add: heap_inv_def)
      moreover have "in_room c k b s (?N1 t b s + 1)" using r0(3) by (simp add: upd3_def)
      ultimately show ?thesis unfolding bump rg using False st1 SN [of ?n]
        by (intro exI [of _ ?st2] exI [of _ ?N1] exI [of _ S]) (simp add: upd3_def grows_def)
    next
      case below: True
      let ?st2 = "(set_bag t b (bumped c k hb t b s ?m (get_bag st1 t b)) st1)
        \<lparr> calls := step_guard c k hb t b s ?m @ random_guard c k hb t b s (Suc ?n) # calls st1, rng := rs \<rparr>"
      let ?S2 = "S \<union> {(t, b, s, Suc ?n + j) | j. j < page_objs b}" and ?N2 = "upd3 ?N1 t b s ?m"
      have rmm: "in_room c k b s ?m" "in_room c k b s (Suc ?m)" by (intro rm; simp)+
      have "4096 dvd seq_idx c k b (Suc ?n) * 2 ^ (4 + b)"
        using True at1 page_aligned_iff [OF k p seq_valid [OF k t b r0(2)]]
        by (simp add: bump_at_def seq_addr_def)
      then have fits: "Suc ?n mod objects c k b + page_objs b \<le> objects c k b"
        using page_in_bag [OF k b, of "seq_idx c k b (Suc ?n)"] objects_pos [OF k b] by (simp add: seq_idx_def)
      have bi2: "bags_inv c k hb sb ?N2 ?st2"
        using bi1 i rmm(2) by (rule bags_inv_bumped) (simp_all add: set_bag_def)
      have "lists_inv c k sb ?N2 L ?S2 st1"
        using li1 by (rule lists_inv_advance) (auto simp: upd3_def)
      then have li2: "lists_inv c k sb ?N2 L ?S2 ?st2"
        using lists_inv_cong [of ?st2 st1] by (simp add: set_bag_def)
      have "guards_inv c k hb ?S2 (calls st1)" using gi1 by (rule guards_inv_mono) blast
      then have "guards_inv c k hb ?S2 (random_guard c k hb t b s (Suc ?n) # calls st1)"
        using i r0(2) fits by (rule guards_inv_random) blast
      then have "guards_inv c k hb ?S2 (calls ?st2)" using guards_inv_step [OF _ i rmm(1)] by simp
      then have "heap_inv c k hb sb ?N2 L ?S2 ?st2" using bi2 li2 by (simp add: heap_inv_def)
      moreover have "grows N S ?N2 ?S2" by (auto simp: grows_def upd3_def)
      ultimately show ?thesis unfolding bump rg using below st1 SN [of ?n] rmm(2)
        by (intro exI [of _ ?st2] exI [of _ ?N2] exI [of _ ?S2]) (simp add: upd3_def set_bag_def)
    qed
  qed
qed

end
