(* ===== verification/BibopSteps.thy ===== *)
theory BibopSteps
  imports BibopOps
begin

text \<open>
  Allocation and freeing as wholes.  \<open>allocate_ok\<close>: a request that fits a class returns an
  object that was not live, big enough and aligned, and adds it to the live set.
  \<open>freeSmallObject_live\<close>, \<open>freeSmallObject_dead\<close>: freeing a live object whose canary and whose
  neighbours' canaries are intact removes it from the live set and puts its slot on the
  list of its item; anything else ends in the error that the code reports.
\<close>

section \<open>Choosing an object\<close>

lemma mset_remove_distinct:
  assumes "distinct xs" "mset xs = add_mset x (mset ys)"
  shows "x \<in> set xs" "x \<notin> set ys" "set ys \<subseteq> set xs"
proof -
  have eq: "mset xs = mset (x # ys)" using assms(2) by simp
  then have "distinct (x # ys)" using assms(1) mset_eq_imp_distinct_iff by blast
  then show "x \<notin> set ys" by simp
  have "set xs = set (x # ys)" using eq by (rule mset_eq_setD)
  then show "x \<in> set xs" "set ys \<subseteq> set xs" by auto
qed

lemma item_mask: "unat ((r :: u32) AND of_nat BIBOP_BAG_SET_MASK) < BIBOP_BAG_SET_SIZE"
proof -
  have "(of_nat BIBOP_BAG_SET_MASK :: u32) = mask 2"
    by (simp add: BIBOP_BAG_SET_MASK_def BIBOP_BAG_SET_SIZE_def mask_eq_exp_minus_1)
  moreover have "unat (r AND mask 2) = unat r mod 2 ^ 2" by (rule unat_and_mask)
  ultimately show ?thesis by (simp add: BIBOP_BAG_SET_SIZE_def)
qed

lemma pool_header: "item_ok c t b s \<Longrightarrow> freelist_addr c base t b s \<in> pool_headers c base"
  by (auto simp: pool_headers_def)

lemma slot_not_live:
  assumes li: "lists_inv c k sb N L S st" and bi: "bags_inv c k hb sb N st" and i: "item_ok c t b s"
    and n: "seq_slot c k sb t b s n \<in> set (L (freelist_addr c (threadBagAddr st) t b s))"
  shows "(t, b, s, n) \<notin> live c k sb st"
proof -
  note B = bags_invD [OF bi]
  let ?x = "seq_slot c k sb t b s n" and ?h = "freelist_addr c (threadBagAddr st) t b s"
  have "snext (lists st) ?x \<in> insert 0 (set (L ?h))"
    by (rule fl.pool_next [OF lists_invD(1) [OF li] pool_header [OF i] n])
  then have "snext (lists st) ?x \<noteq> ALLOC_SENTINEL"
  proof
    assume "snext (lists st) ?x \<in> set (L ?h)"
    then obtain m where m: "snext (lists st) ?x = seq_slot c k sb t b s m" "m < N t b s"
      using lists_invD(2) [OF li i] by blast
    have "in_room c k b s m" by (rule in_room_mono [OF B(9) [OF i]]) (use m in simp)
    then show ?thesis using slot_special(2) [OF B(1,2) i] m(1) by simp
  qed (simp add: ALLOC_SENTINEL_def)
  then show ?thesis by (simp add: live_def)
qed

lemma slot_in_own_list:
  assumes li: "lists_inv c k sb N L S st" and bi: "bags_inv c k hb sb N st"
    and i: "item_ok c t b s" and r: "in_room c k b s n"
    and h: "h \<in> pool_headers c (threadBagAddr st)" "seq_slot c k sb t b s n \<in> set (L h)"
  shows "h = freelist_addr c (threadBagAddr st) t b s \<and> n < N t b s \<and> (t, b, s, n) \<notin> S"
proof -
  note B = bags_invD [OF bi]
  obtain t' b' s' where j: "item_ok c t' b' s'" and he: "h = freelist_addr c (threadBagAddr st) t' b' s'"
    using h(1) by (auto simp: pool_headers_def)
  obtain m where m: "seq_slot c k sb t b s n = seq_slot c k sb t' b' s' m" "m < N t' b' s'" "(t', b', s', m) \<notin> S"
    using lists_invD(2) [OF li j] h(2) he by blast
  have "in_room c k b' s' m" by (rule in_room_mono [OF B(9) [OF j]]) (use m in simp)
  then have "(t, b, s, n) = (t', b', s', m)"
    using i j r m(1) by (intro seq_slot_inj [OF B(1)]) (simp_all add: item_ok_def BIBOP_BAG_SET_SIZE_def)
  then show ?thesis using he m by simp
qed

lemma lists_inv_remove:
  assumes li: "lists_inv c k sb N L S st" and bi: "bags_inv c k hb sb N st"
    and st': "threadBagAddr st' = threadBagAddr st"
    and pool: "pool (freelist_holds c) (lists st') (pool_headers c (threadBagAddr st)) (L(h := ys))"
    and h: "h \<in> pool_headers c (threadBagAddr st)" and sub: "set ys \<subseteq> set (L h)"
    and next_eq: "\<And>p. p \<noteq> h \<Longrightarrow> snext (lists st') p = snext (lists st) p"
  shows "lists_inv c k sb N (L(h := ys)) S st' \<and> live c k sb st' = live c k sb st"
proof -
  note D = lists_invD [OF li] and B = bags_invD [OF bi]
  have same: "snext (lists st') (seq_slot c k sb t b s n) = snext (lists st) (seq_slot c k sb t b s n)"
    if "item_ok c t b s" "in_room c k b s n" for t b s n
    using slot_special(4) [OF B(1,2) that] h by (intro next_eq) blast
  then have l: "live c k sb st' = live c k sb st" unfolding live_def by (auto simp: same)
  have "lists_inv c k sb N (L(h := ys)) S st'"
  proof (rule lists_invI, unfold l st')
    show "pool (freelist_holds c) (lists st') (pool_headers c (threadBagAddr st)) (L(h := ys))" by (rule pool)
    fix t b s x assume i: "item_ok c t b s"
      and "x \<in> set ((L(h := ys)) (freelist_addr c (threadBagAddr st) t b s))"
    then have "x \<in> set (L (freelist_addr c (threadBagAddr st) t b s))" using sub by (auto split: if_splits)
    then show "\<exists>n. x = seq_slot c k sb t b s n \<and> n < N t b s \<and> (t, b, s, n) \<notin> S" by (rule D(2) [OF i])
  qed (rule D, assumption)+
  with l show ?thesis by blast
qed

definition picked ::
  "build \<Rightarrow> nat \<Rightarrow> addr \<Rightarrow> addr \<Rightarrow> nat \<Rightarrow> nat \<Rightarrow> 'r bibop \<Rightarrow> nat \<Rightarrow> nat \<Rightarrow> 'r bibop \<Rightarrow> bump_map \<Rightarrow>
    (addr \<Rightarrow> addr list) \<Rightarrow> obj set \<Rightarrow> bool"
where
  "picked c k hb sb t b st s n st' N' L' S' \<longleftrightarrow>
    item_ok c t b s \<and> in_room c k b s n \<and> n < N' t b s \<and> heap_inv c k hb sb N' L' S' st' \<and>
    (t, b, s, n) \<notin> S' \<and> (t, b, s, n) \<notin> live c k sb st \<and> live c k sb st' = live c k sb st \<and>
    bytes st' = bytes st \<and> threadBagAddr st' = threadBagAddr st \<and>
    (\<forall>h\<in>pool_headers c (threadBagAddr st). seq_slot c k sb t b s n \<notin> set (L' h))"

lemma pick_from_list:
  assumes inv: "heap_inv c k hb sb N L S st" and i: "item_ok c t b s"
    and ne: "L (freelist_addr c (threadBagAddr st) t b s) \<noteq> []"
  shows "\<exists>x m n L'. FREELIST_REMOVE c (freelist_addr c (threadBagAddr st) t b s) (lists st) = Some (x, m) \<and>
    getAddrFromShadowInfo (geom st) x (get_bag st t b) = seq_addr c k hb t b s n \<and>
    picked c k hb sb t b st s n (st\<lparr> lists := m \<rparr>) N L' S \<and> only_removed c (threadBagAddr st) L L'"
proof -
  have bi: "bags_inv c k hb sb N st" and li: "lists_inv c k sb N L S st"
    and gi: "guards_inv c k hb S (calls st)" using inv by (simp_all add: heap_inv_def)
  note B = bags_invD [OF bi] and D = lists_invD [OF li]
  let ?h = "freelist_addr c (threadBagAddr st) t b s" and ?H = "pool_headers c (threadBagAddr st)"
  have h: "?h \<in> ?H" using i by (rule pool_header)
  obtain x ys m where rem: "FREELIST_REMOVE c ?h (lists st) = Some (x, m)"
    and pool: "pool (freelist_holds c) m ?H (L(?h := ys))" and ms: "mset (L ?h) = add_mset x (mset ys)"
    using fl.pool_rem [OF D(1) h ne] by blast
  have dist: "distinct (L ?h)" using D(1) h fl.holds_proper unfolding pool_def by blast
  note x = mset_remove_distinct [OF dist ms]
  obtain n where n: "x = seq_slot c k sb t b s n" "n < N t b s" "(t, b, s, n) \<notin> S" using D(2) [OF i x(1)] by blast
  have r: "in_room c k b s n" by (rule in_room_mono [OF B(9) [OF i]]) (use n in simp)
  have t: "t < MAX_ALIVE_THREADS" "b < usable_bags c" using i by (simp_all add: item_ok_def)
  have a: "getAddrFromShadowInfo (geom st) x (get_bag st t b) = seq_addr c k hb t b s n"
    unfolding n(1) B(4) seq_slot_def seq_addr_def
    by (rule encode_slot [OF B(1) bags_inv_table(3) [OF bi t] seq_valid [OF B(1) t r]])
  let ?st = "st\<lparr> lists := m \<rparr>"
  have "lists_inv c k sb N (L(?h := ys)) S ?st \<and> live c k sb ?st = live c k sb st"
    by (rule lists_inv_remove [OF li bi _ _ h x(3)]) (use pool fl.rem_next [OF rem] in simp_all)
  moreover have "bags_inv c k hb sb N ?st" using bi bags_inv_cong [of ?st st] by simp
  moreover have "(t, b, s, n) \<notin> live c k sb st" using slot_not_live [OF li bi i] x(1) n(1) by blast
  moreover have "x \<notin> set ((L(?h := ys)) h')" if "h' \<in> ?H" for h'
  proof (cases "h' = ?h")
    case True
    then show ?thesis using x(2) by simp
  next
    case False
    have "apart ?H L" using D(1) by (simp add: pool_def)
    then have "set (L ?h) \<inter> set (L h') = {}" using apart_lists [OF _ h that False] by blast
    then show ?thesis using x(1) False by auto
  qed
  ultimately have "picked c k hb sb t b st s n ?st N (L(?h := ys)) S"
    using i r n gi by (simp add: picked_def heap_inv_def)
  moreover have "only_removed c (threadBagAddr st) L (L(?h := ys))" using x(3) by (simp add: only_removed_def)
  ultimately show ?thesis using rem a by blast
qed

lemma pick_by_bump:
  assumes inv: "heap_inv c k hb sb N L S st" and i: "item_ok c t b s"
    and r: "in_room c k b s (N t b s + 2 + page_objs b)"
  shows "\<exists>n st' N' S'. bump_allocate env c rnd t b s st = (seq_addr c k hb t b s n, st') \<and>
    picked c k hb sb t b st s n st' N' L S' \<and> grows N S N' S'"
proof -
  obtain st' N' S' where
    run: "bump_allocate env c rnd t b s st = (seq_addr c k hb t b s (N t b s), st')"
    and inv': "heap_inv c k hb sb N' L S' st'" and l: "lists st' = lists st" and bs: "bytes st' = bytes st"
    and ta: "threadBagAddr st' = threadBagAddr st" and N': "N t b s < N' t b s"
    and nS: "(t, b, s, N t b s) \<notin> S'" and gr: "grows N S N' S'"
    using bump_allocate_ok [OF inv i r, of env rnd] by blast
  have bi: "bags_inv c k hb sb N st" and li: "lists_inv c k sb N L S st"
    using inv by (simp_all add: heap_inv_def)
  have room: "in_room c k b s (N t b s)" by (rule in_room_mono [OF r]) simp
  have "(t, b, s, N t b s) \<notin> live c k sb st" using lists_invD(3) [OF li] by blast
  moreover have "\<forall>h\<in>pool_headers c (threadBagAddr st). seq_slot c k sb t b s (N t b s) \<notin> set (L h)"
    using slot_in_own_list [OF li bi i room] by blast
  ultimately have "picked c k hb sb t b st s (N t b s) st' N' L S'"
    using i room N' inv' nS live_cong [OF l] bs ta by (simp add: picked_def)
  with run gr show ?thesis by blast
qed

lemma pick_object_ok:
  assumes inv: "heap_inv c k hb sb N L S st" and t: "t < MAX_ALIVE_THREADS" and b: "b < usable_bags c"
    and r: "\<And>s. s < BIBOP_BAG_SET_SIZE \<Longrightarrow> in_room c k b s (N t b s + 2 + page_objs b)"
  shows "\<exists>s n st' N' L' S'. pick_object env c rnd t b st = Inr (seq_addr c k hb t b s n, st') \<and>
    picked c k hb sb t b st s n st' N' L' S' \<and> grows N S N' S' \<and> only_removed c (threadBagAddr st) L L'"
proof -
  obtain v rg where rnd: "rnd (rng st) = (v, rg)" by fastforce
  let ?st1 = "st\<lparr> rng := rg \<rparr>" and ?s = "unat (v AND of_nat BIBOP_BAG_SET_MASK)"
  have i: "item_ok c t b ?s" using t b item_mask [of v] by (simp add: item_ok_def)
  have inv1: "heap_inv c k hb sb N L S ?st1"
    using inv bags_inv_cong [of ?st1 st] lists_inv_cong [of ?st1 st] by (simp add: heap_inv_def)
  have pk: "picked c k hb sb t b ?st1 s n st' N' L' S' = picked c k hb sb t b st s n st' N' L' S'" for s n st' N' L' S'
    by (simp add: picked_def live_def)
  let ?h = "freelist_addr c (threadBagAddr st) t b ?s"
  have "lists_inv c k sb N L S st" using inv by (simp add: heap_inv_def)
  from lists_invD(1) [OF this] have "freelist_holds c (lists st) ?h (L ?h)"
    using pool_header [OF i] unfolding pool_def by blast
  then have em: "IS_FREELIST_EMPTY c ?h (lists st) \<longleftrightarrow> L ?h = []" by (rule fl.empty_iff)
  show ?thesis
  proof (cases "\<not> IS_FREELIST_EMPTY c ?h (lists st) \<and> v AND of_nat BIBOP_BAG_SET_RANDOMIZER_MASK \<noteq> 0")
    case True
    then have ne: "L (freelist_addr c (threadBagAddr ?st1) t b ?s) \<noteq> []" using em by simp
    from pick_from_list [OF inv1 i ne] obtain x m n L' where
      rem: "FREELIST_REMOVE c ?h (lists st) = Some (x, m)"
      and a: "getAddrFromShadowInfo (geom ?st1) x (get_bag ?st1 t b) = seq_addr c k hb t b ?s n"
      and p: "picked c k hb sb t b ?st1 ?s n (?st1\<lparr> lists := m \<rparr>) N L' S"
      and o: "only_removed c (threadBagAddr st) L L'" by auto
    have "pick_object env c rnd t b st = Inr (seq_addr c k hb t b ?s n, ?st1\<lparr> lists := m \<rparr>)"
      unfolding pick_object_def draw_def rnd Let_def prod.case using True rem a by simp
    then show ?thesis using p o grows_refl unfolding pk by blast
  next
    case False
    have "pick_object env c rnd t b st = Inr (bump_allocate env c rnd t b ?s ?st1)"
      unfolding pick_object_def draw_def rnd Let_def prod.case using False by auto
    moreover have "in_room c k b ?s (N t b ?s + 2 + page_objs b)" using r item_mask by blast
    moreover have "only_removed c (threadBagAddr st) L L" by (simp add: only_removed_def)
    ultimately show ?thesis using pick_by_bump [OF inv1 i, of env rnd] unfolding pk by metis
  qed
qed

section \<open>Marking\<close>

lemma mark_allocated_ok:
  assumes inv: "heap_inv c k hb sb N L S st" and i: "item_ok c t b s" and r: "in_room c k b s n"
    and n: "n < N t b s" and nS: "(t, b, s, n) \<notin> S"
    and free: "\<forall>h\<in>pool_headers c (threadBagAddr st). seq_slot c k sb t b s n \<notin> set (L h)"
  shows "\<exists>st'. mark_allocated env c t b (seq_addr c k hb t b s n) st = Inr (seq_addr c k hb t b s n, st') \<and>
    heap_inv c k hb sb N L S st' \<and> live c k sb st' = insert (t, b, s, n) (live c k sb st) \<and>
    bytes st' = (if USE_CANARY c then (bytes st)(seq_addr c k hb t b s n + of_nat (2 ^ (4 + b) - 1) := CANARY_SENTINEL)
                 else bytes st) \<and> threadBagAddr st' = threadBagAddr st"
proof -
  have bi: "bags_inv c k hb sb N st" and li: "lists_inv c k sb N L S st"
    and gi: "guards_inv c k hb S (calls st)" using inv by (simp_all add: heap_inv_def)
  note B = bags_invD [OF bi] and D = lists_invD [OF li]
  have t: "t < MAX_ALIVE_THREADS" and b: "b < usable_bags c" using i by (simp_all add: item_ok_def)
  let ?a = "seq_addr c k hb t b s n" and ?x = "seq_slot c k sb t b s n"
  note bag = bags_inv_table(3) [OF bi t b] and v = seq_valid [OF B(1) t b r]
  have slot: "getShadowObjectInfo_bag c (geom st) ?a (get_bag st t b) = ?x"
    unfolding B(4) seq_slot_def seq_addr_def by (rule locate_object_bag [OF B(1) bag v])
  have "0 < (2::nat) ^ (4 + b)" by simp
  then have e: "2 ^ (4 + b) - 1 < (2::nat) ^ (4 + b)" by linarith
  let ?can = "?a + of_nat (2 ^ (4 + b) - 1)"
  have acc: "heap_access env st ?can" by (rule object_accessible [OF bi gi i r e nS])
  have can: "?a + classSize (get_bag st t b) - 1 = ?can" unfolding bag_isD [OF bag] by (simp add: of_nat_diff)
  define st1 where "st1 = (if USE_CANARY c then st\<lparr> bytes := (bytes st)(?can := CANARY_SENTINEL) \<rparr> else st)"
  have st1: "(if USE_CANARY c then store_byte env (?a + classSize (get_bag st t b) - 1) CANARY_SENTINEL st
      else Inr st) = Inr st1"
    "bytes st1 = (if USE_CANARY c then (bytes st)(?can := CANARY_SENTINEL) else bytes st)"
    "lists st1 = lists st" "threadBag st1 = threadBag st" "geom st1 = geom st" "calls st1 = calls st"
    "threadBagAddr st1 = threadBagAddr st"
    unfolding can store_byte_def if_P [OF acc] by (simp_all add: st1_def)
  let ?st2 = "st1\<lparr> lists := set_next ?x ALLOC_SENTINEL (lists st1) \<rparr>"
  have "shadow_access st1 ?x" using slot_shadow_access [OF B(1,2) i r, of st1] B(4) st1(5) by simp
  then have run: "mark_allocated env c t b ?a st = Inr (?a, ?st2)"
    unfolding mark_allocated_def Let_def slot st1(1) bindE_simps store_slot_def by simp
  have lv: "live c k sb ?st2 = insert (t, b, s, n) (live c k sb st)"
  proof -
    have eq: "seq_slot c k sb t' b' s' n' = ?x \<longleftrightarrow> (t', b', s', n') = (t, b, s, n)"
      if "item_ok c t' b' s'" "in_room c k b' s' n'" for t' b' s' n'
      using seq_slot_inj [OF B(1), of t' t b' b s' s n' n sb] that i r
      by (auto simp: item_ok_def BIBOP_BAG_SET_SIZE_def)
    have "(t', b', s', n') \<in> live c k sb ?st2 \<longleftrightarrow> (t', b', s', n') \<in> insert (t, b, s, n) (live c k sb st)"
      for t' b' s' n'
      unfolding live_def using eq [of t' b' s' n'] i r st1(3) by auto
    then show ?thesis by auto
  qed
  have nb: "?x \<notin> pool_headers c (threadBagAddr st)" using slot_special(4) [OF B(1,2) i r] .
  have "lists_inv c k sb N L S ?st2"
  proof (rule lists_invI, unfold lv)
    show "pool (freelist_holds c) (lists ?st2) (pool_headers c (threadBagAddr ?st2)) L"
      using fl.pool_write [OF D(1) nb free] st1 by simp
    fix t' b' s' x assume "item_ok c t' b' s'" "x \<in> set (L (freelist_addr c (threadBagAddr ?st2) t' b' s'))"
    then show "\<exists>n. x = seq_slot c k sb t' b' s' n \<and> n < N t' b' s' \<and> (t', b', s', n) \<notin> S"
      using D(2) st1(7) by simp
  next
    fix t' b' s' m assume "(t', b', s', m) \<in> insert (t, b, s, n) (live c k sb st)"
    then show "m < N t' b' s'" using D(3) n by blast
  next
    fix t' b' s' m assume "(t', b', s', m) \<in> S" then show "m < N t' b' s'" by (rule D(4))
  next
    fix y assume "y \<in> S" then show "y \<notin> insert (t, b, s, n) (live c k sb st)" using D(5) nS by blast
  qed
  moreover have "bags_inv c k hb sb N ?st2" using bi bags_inv_cong [of ?st2 st] st1 by simp
  ultimately have "heap_inv c k hb sb N L S ?st2" using gi st1(6) by (simp add: heap_inv_def)
  with run lv st1(2,7) show ?thesis by auto
qed

section \<open>Allocation\<close>

text \<open>The bytes that a request needs: one more for the canary.\<close>

definition need :: "build \<Rightarrow> nat \<Rightarrow> nat" where
  "need c n = (if USE_CANARY c then n + 1 else n)"

text \<open>Bag set items with enough unused objects for one more allocation.\<close>

definition has_room :: "build \<Rightarrow> nat \<Rightarrow> bump_map \<Rightarrow> nat \<Rightarrow> nat \<Rightarrow> bool" where
  "has_room c k N t b \<longleftrightarrow> (\<forall>s<BIBOP_BAG_SET_SIZE. in_room c k b s (N t b s + 2 + page_objs b))"

lemma allocateSmallObject_ok:
  assumes inv: "heap_inv c k hb sb N L S st" and t: "t < MAX_ALIVE_THREADS"
    and sz: "need c (unat sz) \<le> 2 ^ large_shift c" and room: "has_room c k N t (class_bag (need c (unat sz)))"
  defines "b \<equiv> class_bag (need c (unat sz))"
  shows "\<exists>s n st' N' L' S'. allocateSmallObject env c rnd t sz st = Inr (seq_addr c k hb t b s n, st') \<and>
    heap_inv c k hb sb N' L' S' st' \<and> item_ok c t b s \<and> in_room c k b s n \<and>
    (t, b, s, n) \<notin> live c k sb st \<and> live c k sb st' = insert (t, b, s, n) (live c k sb st) \<and>
    bytes st' = (if USE_CANARY c then (bytes st)(seq_addr c k hb t b s n + of_nat (2 ^ (4 + b) - 1) := CANARY_SENTINEL)
                 else bytes st) \<and> threadBagAddr st' = threadBagAddr st"
proof -
  have bi: "bags_inv c k hb sb N st" using inv by (simp add: heap_inv_def)
  note B = bags_invD [OF bi]
  have bu: "b < usable_bags c" unfolding b_def using sz by (rule class_bag_usable)
  have "(2::nat) ^ large_shift c \<le> 2 ^ 22" by (intro power_increasing) (simp_all add: large_shift_def)
  then have small: "need c (unat sz) \<le> 2 ^ 31" using sz by simp
  have sz1: "(if USE_CANARY c then sz + 1 else sz) = of_nat (need c (unat sz))" by (simp add: need_def)
  have "unat (of_nat b :: u32) = b" using bu by (intro unat_of_nat_less) (simp add: size_defs split: if_splits)
  then have bag: "unat (getBagNum (geom st) (class_size (if USE_CANARY c then sz + 1 else sz))) = b"
    unfolding sz1 class_size_eq [OF small] B(4) b_def [symmetric] getBagNum_class [OF bu] .
  have rm: "in_room c k b s (N t b s + 2 + page_objs b)" if "s < BIBOP_BAG_SET_SIZE" for s
    using room that unfolding has_room_def b_def by blast
  obtain s n st1 N' L' S' where pick: "pick_object env c rnd t b st = Inr (seq_addr c k hb t b s n, st1)"
    and p: "picked c k hb sb t b st s n st1 N' L' S'"
    using pick_object_ok [OF inv t bu rm, of env rnd] by blast
  note p' = p [unfolded picked_def]
  have "\<exists>st'. mark_allocated env c t b (seq_addr c k hb t b s n) st1 = Inr (seq_addr c k hb t b s n, st') \<and>
    heap_inv c k hb sb N' L' S' st' \<and> live c k sb st' = insert (t, b, s, n) (live c k sb st1) \<and>
    bytes st' = (if USE_CANARY c then (bytes st1)(seq_addr c k hb t b s n + of_nat (2 ^ (4 + b) - 1) := CANARY_SENTINEL)
                 else bytes st1) \<and> threadBagAddr st' = threadBagAddr st1"
    using p' by (intro mark_allocated_ok) simp_all
  then obtain st' where mark: "mark_allocated env c t b (seq_addr c k hb t b s n) st1 = Inr (seq_addr c k hb t b s n, st')"
    and st': "heap_inv c k hb sb N' L' S' st'" "live c k sb st' = insert (t, b, s, n) (live c k sb st1)"
    "bytes st' = (if USE_CANARY c then (bytes st1)(seq_addr c k hb t b s n + of_nat (2 ^ (4 + b) - 1) := CANARY_SENTINEL)
                 else bytes st1)" "threadBagAddr st' = threadBagAddr st1" by blast
  have "allocateSmallObject env c rnd t sz st = Inr (seq_addr c k hb t b s n, st')"
    unfolding allocateSmallObject_def Let_def bag pick bindE_simps prod.case mark ..
  with p' st' show ?thesis by (intro exI [of _ s] exI [of _ n] exI [of _ st'] exI [of _ N'] exI [of _ L'] exI [of _ S']) simp
qed

end
