(* ===== verification/BibopFree.thy ===== *)
theory BibopFree
  imports BibopSteps
begin

text \<open>
  Freeing.  \<open>check_canaries_eq\<close> is the result of the canary checks as a search over the live
  neighbours; \<open>freeSmallObject_dead\<close> and \<open>freeSmallObject_live\<close> give the result of
  \<open>freeSmallObject\<close> on every object of the heap, errors included.
\<close>

section \<open>Canaries\<close>

definition canary_addr :: "build \<Rightarrow> nat \<Rightarrow> addr \<Rightarrow> nat \<Rightarrow> nat \<Rightarrow> nat \<Rightarrow> nat \<Rightarrow> addr" where
  "canary_addr c k hb t b s n = seq_addr c k hb t b s n + of_nat (2 ^ (4 + b) - 1)"

definition broken :: "build \<Rightarrow> nat \<Rightarrow> addr \<Rightarrow> addr \<Rightarrow> 'r bibop \<Rightarrow> nat \<Rightarrow> nat \<Rightarrow> nat \<Rightarrow> nat \<Rightarrow> bool" where
  "broken c k hb sb st t b s n \<longleftrightarrow> (t, b, s, n) \<in> live c k sb st \<and>
    bytes st (canary_addr c k hb t b s n) \<noteq> CANARY_SENTINEL"

text \<open>The neighbours in the order of the loops: two to the left, then two to the right.\<close>

definition left_of :: "nat \<Rightarrow> nat list" where "left_of n = rev [n - NUM_MORE_CANARIES_TO_CHECK..<n]"
definition right_of :: "nat \<Rightarrow> nat list" where "right_of n = [Suc n..<Suc n + NUM_MORE_CANARIES_TO_CHECK]"

definition first_broken ::
  "build \<Rightarrow> nat \<Rightarrow> addr \<Rightarrow> addr \<Rightarrow> 'r bibop \<Rightarrow> nat \<Rightarrow> nat \<Rightarrow> nat \<Rightarrow> nat list \<Rightarrow> fg_error + unit"
where
  "first_broken c k hb sb st t b s ns = (case List.find (broken c k hb sb st t b s) ns of
     None \<Rightarrow> Inr ()
   | Some m \<Rightarrow> Inl (Neighbor_canary_broken (seq_addr c k hb t b s m)))"

lemma first_broken_simps:
  "first_broken c k hb sb st t b s [] = Inr ()"
  "first_broken c k hb sb st t b s (m # ms) =
    (if broken c k hb sb st t b s m then Inl (Neighbor_canary_broken (seq_addr c k hb t b s m))
     else first_broken c k hb sb st t b s ms)"
  by (simp_all add: first_broken_def)

lemma first_broken_append:
  "bindE (first_broken c k hb sb st t b s xs) (\<lambda>_. first_broken c k hb sb st t b s ys)
    = first_broken c k hb sb st t b s (xs @ ys)"
  by (induction xs) (simp_all add: first_broken_simps)

lemma canary_word: "(a :: addr) + of_nat (2 ^ j) - 1 = a + of_nat (2 ^ j - 1)"
  by (simp add: of_nat_diff)

lemma live_canary_access:
  assumes inv: "heap_inv c k hb sb N L S st" and l: "(t, b, s, n) \<in> live c k sb st"
  shows "heap_access env st (canary_addr c k hb t b s n)"
proof -
  have bi: "bags_inv c k hb sb N st" and li: "lists_inv c k sb N L S st"
    and gi: "guards_inv c k hb S (calls st)" using inv by (simp_all add: heap_inv_def)
  have i: "item_ok c t b s" and r: "in_room c k b s n" using l by (simp_all add: live_def)
  have "0 < (2::nat) ^ (4 + b)" by simp
  then have e: "2 ^ (4 + b) - 1 < (2::nat) ^ (4 + b)" by linarith
  have "(t, b, s, n) \<notin> S" using lists_invD(5) [OF li] l by blast
  then show ?thesis unfolding canary_addr_def by (rule object_accessible [OF bi gi i r e])
qed

text \<open>One neighbour.\<close>

lemma neighbor_step:
  assumes inv: "heap_inv c k hb sb N L S st" and i: "item_ok c t b s" and r: "in_room c k b s m"
    and nx: "getNextCanaryNeighbor c (geom st) x (get_bag st t b) move = Some (seq_slot c k sb t b s m)"
  shows "check_neighbors env c st (get_bag st t b) move (Suc j) x =
    (if broken c k hb sb st t b s m then Inl (Neighbor_canary_broken (seq_addr c k hb t b s m))
     else check_neighbors env c st (get_bag st t b) move j (seq_slot c k sb t b s m))"
proof -
  have bi: "bags_inv c k hb sb N st" using inv by (simp add: heap_inv_def)
  note B = bags_invD [OF bi]
  have t: "t < MAX_ALIVE_THREADS" and b: "b < usable_bags c" using i by (simp_all add: item_ok_def)
  note bag = bags_inv_table(3) [OF bi t b]
  have a: "getAddrFromShadowInfo (geom st) (seq_slot c k sb t b s m) (get_bag st t b) = seq_addr c k hb t b s m"
    unfolding B(4) seq_slot_def seq_addr_def by (rule encode_slot [OF B(1) bag seq_valid [OF B(1) t b r]])
  have can: "seq_addr c k hb t b s m + classSize (get_bag st t b) - 1 = canary_addr c k hb t b s m"
    unfolding bag_isD(4) [OF bag] canary_addr_def by (rule canary_word)
  have ld: "load_slot (seq_slot c k sb t b s m) st = Inr (snext (lists st) (seq_slot c k sb t b s m))"
    unfolding load_slot_def using slot_shadow_access [OF B(1,2) i r B(4)] by simp
  show ?thesis
  proof (cases "(t, b, s, m) \<in> live c k sb st")
    case True
    then have nl: "\<not> isObjectFree (snext (lists st) (seq_slot c k sb t b s m))"
      by (simp add: live_def isObjectFree_def)
    have "heap_access env st (canary_addr c k hb t b s m)" by (rule live_canary_access [OF inv True])
    then have "load_byte env (canary_addr c k hb t b s m) st = Inr (bytes st (canary_addr c k hb t b s m))"
      by (simp add: load_byte_def)
    then show ?thesis
      unfolding check_neighbors.simps nx option.case Let_def a can ld bindE_simps if_not_P [OF nl]
      using True by (simp add: broken_def)
  next
    case False
    then have fr: "isObjectFree (snext (lists st) (seq_slot c k sb t b s m))"
      using i r by (simp add: live_def isObjectFree_def)
    show ?thesis
      unfolding check_neighbors.simps nx option.case Let_def a can ld bindE_simps if_P [OF fr]
      using False by (simp add: broken_def)
  qed
qed

lemma check_left:
  assumes inv: "heap_inv c k hb sb N L S st" and i: "item_ok c t b s"
  shows "in_room c k b s n \<Longrightarrow>
    check_neighbors env c st (get_bag st t b) LEFT j (seq_slot c k sb t b s n) =
    first_broken c k hb sb st t b s (rev [n - j..<n])"
proof (induction j arbitrary: n)
  case 0
  show ?case by (simp add: first_broken_simps)
next
  case (Suc j)
  have bi: "bags_inv c k hb sb N st" using inv by (simp add: heap_inv_def)
  note B = bags_invD [OF bi]
  have t: "t < MAX_ALIVE_THREADS" "b < usable_bags c" "s < 4"
    using i by (simp_all add: item_ok_def BIBOP_BAG_SET_SIZE_def)
  note nb = seq_neighbor_left [OF B(1) bags_inv_table(3) [OF bi t(1,2)] t Suc.prems, of sb]
  show ?case
  proof (cases n)
    case 0
    then show ?thesis using nb B(4) by (simp add: first_broken_simps)
  next
    case (Suc m)
    have r: "in_room c k b s m" by (rule in_room_mono [OF Suc.prems]) (simp add: Suc)
    have nx: "getNextCanaryNeighbor c (geom st) (seq_slot c k sb t b s n) (get_bag st t b) LEFT
        = Some (seq_slot c k sb t b s m)" using nb B(4) Suc by simp
    have "rev [n - Suc j..<n] = m # rev [m - j..<m]" using Suc by simp
    then show ?thesis unfolding neighbor_step [OF inv i r nx] Suc.IH [OF r] by (simp only: first_broken_simps)
  qed
qed

lemma check_right:
  assumes inv: "heap_inv c k hb sb N L S st" and i: "item_ok c t b s"
  shows "in_room c k b s (n + j) \<Longrightarrow>
    check_neighbors env c st (get_bag st t b) RIGHT j (seq_slot c k sb t b s n) =
    first_broken c k hb sb st t b s [Suc n..<Suc n + j]"
proof (induction j arbitrary: n)
  case 0
  show ?case by (simp add: first_broken_simps)
next
  case (Suc j)
  have bi: "bags_inv c k hb sb N st" using inv by (simp add: heap_inv_def)
  note B = bags_invD [OF bi]
  have t: "t < MAX_ALIVE_THREADS" "b < usable_bags c" using i by (simp_all add: item_ok_def)
  have r: "in_room c k b s n" "in_room c k b s (Suc n)" "in_room c k b s (Suc n + j)"
    by (rule in_room_mono [OF Suc.prems], simp)+
  have nx: "getNextCanaryNeighbor c (geom st) (seq_slot c k sb t b s n) (get_bag st t b) RIGHT
      = Some (seq_slot c k sb t b s (Suc n))"
    using seq_neighbor_right [OF B(1) bags_inv_table(3) [OF bi t] t r(1), of sb] B(4) by simp
  have "[Suc n..<Suc n + Suc j] = Suc n # [Suc (Suc n)..<Suc (Suc n) + j]"
    by (simp add: upt_rec)
  then show ?case unfolding neighbor_step [OF inv i r(2) nx] Suc.IH [OF r(3)] by (simp only: first_broken_simps)
qed

lemma check_canaries_eq:
  assumes inv: "heap_inv c k hb sb N L S st" and l: "(t, b, s, n) \<in> live c k sb st"
  shows "check_canaries env c st (get_bag st t b) (seq_addr c k hb t b s n) (seq_slot c k sb t b s n) =
    (if \<not> USE_CANARY c then Inr ()
     else if bytes st (canary_addr c k hb t b s n) \<noteq> CANARY_SENTINEL
     then Inl (Canary_broken (seq_addr c k hb t b s n))
     else first_broken c k hb sb st t b s (left_of n @ right_of n))"
proof (cases "USE_CANARY c")
  case True
  have bi: "bags_inv c k hb sb N st" and li: "lists_inv c k sb N L S st" using inv by (simp_all add: heap_inv_def)
  note B = bags_invD [OF bi]
  have i: "item_ok c t b s" and r: "in_room c k b s n" using l by (simp_all add: live_def)
  have t: "t < MAX_ALIVE_THREADS" "b < usable_bags c" using i by (simp_all add: item_ok_def)
  have can: "seq_addr c k hb t b s n + classSize (get_bag st t b) - 1 = canary_addr c k hb t b s n"
    unfolding bag_isD(4) [OF bags_inv_table(3) [OF bi t]] canary_addr_def by (rule canary_word)
  have ld: "load_byte env (canary_addr c k hb t b s n) st = Inr (bytes st (canary_addr c k hb t b s n))"
    unfolding load_byte_def if_P [OF live_canary_access [OF inv l]] ..
  have "n < N t b s" using lists_invD(3) [OF li l] .
  then have rr: "in_room c k b s (n + NUM_MORE_CANARIES_TO_CHECK)"
    by (intro in_room_mono [OF B(9) [OF i]]) (simp add: NUM_MORE_CANARIES_TO_CHECK_def)
  show ?thesis
    unfolding check_canaries_def if_P [OF True] can ld bindE_simps check_left [OF inv i r]
      check_right [OF inv i rr] left_of_def [symmetric] right_of_def [symmetric] first_broken_append
    using True by simp
qed (simp add: check_canaries_def)

section \<open>Releasing the slot\<close>

lemma release_slot_ok:
  assumes inv: "heap_inv c k hb sb N L S st" and l: "(t, b, s, n) \<in> live c k sb st" and cf: "\<not> CFREELIST c"
  shows "\<exists>st' ys. release_slot c ti t b s (seq_slot c k sb t b s n) st = Inr st' \<and>
    heap_inv c k hb sb N (L(freelist_addr c (threadBagAddr st) t b s := ys)) S st' \<and>
    mset ys = add_mset (seq_slot c k sb t b s n) (mset (L (freelist_addr c (threadBagAddr st) t b s))) \<and>
    live c k sb st' = live c k sb st - {(t, b, s, n)} \<and> bytes st' = bytes st \<and>
    threadBagAddr st' = threadBagAddr st \<and> calls st' = calls st"
proof -
  have bi: "bags_inv c k hb sb N st" and li: "lists_inv c k sb N L S st"
    and gi: "guards_inv c k hb S (calls st)" using inv by (simp_all add: heap_inv_def)
  note B = bags_invD [OF bi] and D = lists_invD [OF li]
  have i: "item_ok c t b s" and r: "in_room c k b s n" using l by (simp_all add: live_def)
  let ?h = "freelist_addr c (threadBagAddr st) t b s" and ?H = "pool_headers c (threadBagAddr st)"
    and ?x = "seq_slot c k sb t b s n"
  have h: "?h \<in> ?H" using i by (rule pool_header)
  note sp = slot_special [OF B(1,2) i r]
  have notin: "\<forall>h\<in>?H. ?x \<notin> set (L h)"
  proof (intro ballI notI)
    fix h' assume "h' \<in> ?H" "?x \<in> set (L h')"
    then have "?x \<in> set (L ?h)" using slot_in_own_list [OF li bi i r] by blast
    then show False using slot_not_live [OF li bi i] l by blast
  qed
  obtain ys where pool: "pool (freelist_holds c) (FREELIST_INSERT c ?x ?h (lists st)) ?H (L(?h := ys))"
    and ms: "mset ys = add_mset ?x (mset (L ?h))"
    using fl.pool_ins [OF D(1) h sp(1) sp(4) notin] by blast
  have sy: "set ys = insert ?x (set (L ?h))" using ms by (metis set_mset_add_mset_insert set_mset_mset)
  let ?st = "st\<lparr> lists := FREELIST_INSERT c ?x ?h (lists st) \<rparr>"
  have run: "release_slot c ti t b s ?x st = Inr ?st" using cf by (simp add: release_slot_def Let_def)
  have hold: "freelist_holds c (lists st) ?h (L ?h)" using D(1) h unfolding pool_def by blast
  have keep: "snext (lists ?st) p = snext (lists st) p" if "p \<notin> set ys" "p \<noteq> ?h" for p
    using fl.ins_next [OF hold, of p ?x] that sy by simp
  have listed: "(t', b', s', m) \<notin> live c k sb ?st"
    if j: "item_ok c t' b' s'" and p: "seq_slot c k sb t' b' s' m \<in> set ys" and rm: "in_room c k b' s' m"
    for t' b' s' m
  proof -
    have "snext (lists ?st) (seq_slot c k sb t' b' s' m) \<in> insert 0 (set ys)"
      using fl.pool_next [OF pool h] p by simp
    moreover have "\<forall>y \<in> set ys. y \<noteq> ALLOC_SENTINEL"
    proof
      fix y assume "y \<in> set ys"
      then consider "y = ?x" | "y \<in> set (L ?h)" using sy by auto
      then show "y \<noteq> ALLOC_SENTINEL"
      proof cases
        case 1 then show ?thesis using sp(2) by simp
      next
        case 2
        then obtain m where m: "y = seq_slot c k sb t b s m" "m < N t b s" using D(2) [OF i] by blast
        have "in_room c k b s m" by (rule in_room_mono [OF B(9) [OF i]]) (use m in simp)
        then show ?thesis using slot_special(2) [OF B(1,2) i] m(1) by simp
      qed
    qed
    ultimately show ?thesis by (auto simp: live_def ALLOC_SENTINEL_def)
  qed
  have lv: "live c k sb ?st = live c k sb st - {(t, b, s, n)}"
  proof -
    have "(t', b', s', m) \<in> live c k sb ?st \<longleftrightarrow> (t', b', s', m) \<in> live c k sb st - {(t, b, s, n)}" for t' b' s' m
    proof (cases "item_ok c t' b' s' \<and> in_room c k b' s' m")
      case True
      then have j: "item_ok c t' b' s'" and rm: "in_room c k b' s' m" by simp_all
      let ?y = "seq_slot c k sb t' b' s' m"
      have eq: "?y = ?x \<longleftrightarrow> (t', b', s', m) = (t, b, s, n)"
        using seq_slot_inj [OF B(1), of t' t b' b s' s m n sb] i r j rm
        by (auto simp: item_ok_def BIBOP_BAG_SET_SIZE_def)
      show ?thesis
      proof (cases "?y \<in> set ys")
        case True
        have "(t', b', s', m) \<notin> live c k sb st - {(t, b, s, n)}"
        proof (cases "?y = ?x")
          case False
          then have y: "?y \<in> set (L ?h)" using True sy by simp
          then have "?h = freelist_addr c (threadBagAddr st) t' b' s'" using slot_in_own_list [OF li bi j rm h] by blast
          then show ?thesis using slot_not_live [OF li bi j, of m] y by simp
        qed (simp add: eq)
        then show ?thesis using listed [OF j True rm] by blast
      next
        case False
        then have "?y \<noteq> ?x" using sy by blast
        moreover have "?y \<noteq> ?h" using slot_special(4) [OF B(1,2) j rm] h by auto
        then have "snext (lists ?st) ?y = snext (lists st) ?y" by (rule keep [OF False])
        ultimately show ?thesis using j rm eq by (simp add: live_def)
      qed
    qed (auto simp: live_def)
    then show ?thesis by auto
  qed
  have "lists_inv c k sb N (L(?h := ys)) S ?st"
  proof (rule lists_invI, unfold lv)
    show "pool (freelist_holds c) (lists ?st) (pool_headers c (threadBagAddr ?st)) (L(?h := ys))"
      using pool by simp
    fix t' b' s' x assume j: "item_ok c t' b' s'"
      and x: "x \<in> set ((L(?h := ys)) (freelist_addr c (threadBagAddr ?st) t' b' s'))"
    show "\<exists>m. x = seq_slot c k sb t' b' s' m \<and> m < N t' b' s' \<and> (t', b', s', m) \<notin> S"
    proof (cases "freelist_addr c (threadBagAddr st) t' b' s' = ?h \<and> x = ?x")
      case True
      then have "t' = t \<and> b' = b \<and> s' = s" using freelist_addr_inj [OF j i] by blast
      moreover have "n < N t b s" "(t, b, s, n) \<notin> S" using D(3,5) l by blast+
      ultimately show ?thesis using True by blast
    next
      case False
      then have "x \<in> set (L (freelist_addr c (threadBagAddr st) t' b' s'))"
        using x sy by (auto split: if_splits)
      then show ?thesis by (rule D(2) [OF j])
    qed
  qed (use D(3-5) in \<open>blast+\<close>)
  moreover have "bags_inv c k hb sb N ?st" using bi bags_inv_cong [of ?st st] by simp
  ultimately have "heap_inv c k hb sb N (L(?h := ys)) S ?st" using gi by (simp add: heap_inv_def)
  with run ms lv show ?thesis by (intro exI [of _ ?st] exI [of _ ys]) simp
qed

section \<open>Erasing\<close>

definition zeroed :: "addr \<Rightarrow> nat \<Rightarrow> (addr \<Rightarrow> byte) \<Rightarrow> addr \<Rightarrow> byte" where
  "zeroed a m f = (\<lambda>x. if unat (x - a) < m then 0 else f x)"

lemma heap_access_bytes: "heap_access env (st\<lparr> bytes := f \<rparr>) x = heap_access env st x"
  by (simp add: heap_access_def)

lemma zeroed_Suc:
  assumes "Suc m < 2 ^ 64"
  shows "zeroed (a + 1) m (f(a := 0)) = zeroed a (Suc m) f"
proof
  fix x
  show "zeroed (a + 1) m (f(a := 0)) x = zeroed a (Suc m) f x"
  proof (cases "x = a")
    case True
    have "x - (a + 1) = - 1" using True by simp
    then show ?thesis using True by (simp add: zeroed_def)
  next
    case False
    then have "x - a \<noteq> 0" by simp
    then have "unat (x - a) = Suc (unat (x - a - 1))" using unat_minus_one [of "x - a"]
      by (metis Suc_pred' unat_eq_zero not_gr_zero One_nat_def)
    moreover have "x - a - 1 = x - (a + 1)" by simp
    ultimately show ?thesis using False by (simp add: zeroed_def)
  qed
qed

lemma zero_bytes_ok:
  "m < 2 ^ 64 \<Longrightarrow> \<forall>j<m. heap_access env st (a + of_nat j) \<Longrightarrow>
    zero_bytes env a m st = Inr (st\<lparr> bytes := zeroed a m (bytes st) \<rparr>)"
proof (induction m arbitrary: a st)
  case 0
  show ?case by (simp add: zeroed_def)
next
  case (Suc m)
  have a: "heap_access env st a" using Suc.prems(2) by force
  define st1 where "st1 = st\<lparr> bytes := (bytes st)(a := 0) \<rparr>"
  have st1: "bytes st1 = (bytes st)(a := 0)" "\<And>f. st1\<lparr> bytes := f \<rparr> = st\<lparr> bytes := f \<rparr>"
    by (simp_all add: st1_def)
  have "heap_access env st1 (a + 1 + of_nat j)" if "j < m" for j
    using Suc.prems(2) [rule_format, of "Suc j"] that by (simp add: heap_access_bytes add.assoc st1_def)
  then have acc: "\<forall>j<m. heap_access env st1 (a + 1 + of_nat j)" by blast
  have "m < 2 ^ 64" using Suc.prems(1) by simp
  from Suc.IH [OF this acc] have "zero_bytes env (a + 1) m st1 = Inr (st\<lparr> bytes := zeroed a (Suc m) (bytes st) \<rparr>)"
    unfolding st1 zeroed_Suc [OF Suc.prems(1)] .
  then show ?case unfolding zero_bytes.simps store_byte_def if_P [OF a] bindE_simps st1_def .
qed

text \<open>What \<open>DESTROY_ON_FREE\<close> erases: the object without its canary, up to 2 KB.\<close>

definition erased :: "build \<Rightarrow> nat \<Rightarrow> nat" where
  "erased c b = (let m = (if USE_CANARY c then 2 ^ (4 + b) - 1 else 2 ^ (4 + b))
    in if DESTROY_ON_FREE c \<and> m \<le> TWO_KILOBYTES then m else 0)"

lemma destroy_ok:
  assumes inv: "heap_inv c k hb sb N L S st" and l: "(t, b, s, n) \<in> live c k sb st"
  shows "(if DESTROY_ON_FREE c then destroyObject env (seq_addr c k hb t b s n)
      (if USE_CANARY c then classSize (get_bag st t b) - 1 else classSize (get_bag st t b)) st else Inr st)
    = Inr (st\<lparr> bytes := zeroed (seq_addr c k hb t b s n) (erased c b) (bytes st) \<rparr>)"
proof -
  have bi: "bags_inv c k hb sb N st" and li: "lists_inv c k sb N L S st"
    and gi: "guards_inv c k hb S (calls st)" using inv by (simp_all add: heap_inv_def)
  have i: "item_ok c t b s" and r: "in_room c k b s n" using l by (simp_all add: live_def)
  have t: "t < MAX_ALIVE_THREADS" "b < usable_bags c" using i by (simp_all add: item_ok_def)
  define m :: nat where "m = (if USE_CANARY c then 2 ^ (4 + b) - 1 else 2 ^ (4 + b))"
  have nS: "(t, b, s, n) \<notin> S" using lists_invD(5) [OF li] l by blast
  have m: "m \<le> 2 ^ (4 + b)" by (simp add: m_def)
  have acc: "heap_access env st (seq_addr c k hb t b s n + of_nat j)" if "j < m" for j
    by (rule object_accessible [OF bi gi i r _ nS]) (use that m in simp)
  then have all: "\<forall>j<m. heap_access env st (seq_addr c k hb t b s n + of_nat j)" by blast
  have cs: "(if USE_CANARY c then classSize (get_bag st t b) - 1 else classSize (get_bag st t b)) = of_nat m"
    unfolding bag_isD(4) [OF bags_inv_table(3) [OF bi t]] m_def by (simp add: of_nat_diff)
  have lt: "m < 2 ^ 64" using le_trans [OF m class_word_lt [OF t(2)]] by simp
  have le: "(of_nat m :: size_t) \<le> of_nat TWO_KILOBYTES \<longleftrightarrow> m \<le> TWO_KILOBYTES"
    by (rule of_nat_le_word_iff) (use lt in \<open>simp_all add: TWO_KILOBYTES_def\<close>)
  have u: "unat (of_nat m :: size_t) = m" by (rule unat_of_nat_less) (use lt in simp)
  have z0: "zeroed (seq_addr c k hb t b s n) 0 (bytes st) = bytes st" by (simp add: zeroed_def)
  have er: "erased c b = (if DESTROY_ON_FREE c \<and> m \<le> TWO_KILOBYTES then m else 0)"
    by (simp only: erased_def m_def Let_def)
  show ?thesis
    unfolding cs destroyObject_def le u zero_bytes_ok [OF lt all] er by (simp add: z0)
qed

lemma destroy_inv:
  assumes "heap_inv c k hb sb N L S st"
  shows "heap_inv c k hb sb N L S (st\<lparr> bytes := f \<rparr>)"
    "live c k sb (st\<lparr> bytes := f \<rparr>) = live c k sb st"
  using assms bags_inv_cong [of "st\<lparr> bytes := f \<rparr>" st] lists_inv_cong [of "st\<lparr> bytes := f \<rparr>" st]
  by (simp_all add: heap_inv_def live_def)

section \<open>freeSmallObject\<close>

lemma find_object:
  assumes bi: "bags_inv c k hb sb N st" and i: "item_ok c t b s" and r: "in_room c k b s n"
  shows "getShadowObjectInfo c (geom st) (threadBag st) (seq_addr c k hb t b s n) =
    Inr (seq_slot c k sb t b s n, (t, b), s)"
    and "load_slot (seq_slot c k sb t b s n) st = Inr (snext (lists st) (seq_slot c k sb t b s n))"
proof -
  note B = bags_invD [OF bi]
  have t: "t < MAX_ALIVE_THREADS" "b < usable_bags c" "s < 4"
    using i by (simp_all add: item_ok_def BIBOP_BAG_SET_SIZE_def)
  show "getShadowObjectInfo c (geom st) (threadBag st) (seq_addr c k hb t b s n) =
      Inr (seq_slot c k sb t b s n, (t, b), s)"
    unfolding B(4) seq_addr_def seq_slot_def
    using locate_object [OF B(1,5) seq_valid [OF B(1) t(1,2) r], of sb] seq_item [OF t(3)] by simp
  show "load_slot (seq_slot c k sb t b s n) st = Inr (snext (lists st) (seq_slot c k sb t b s n))"
    unfolding load_slot_def using slot_shadow_access [OF B(1,2) i r B(4)] by simp
qed

lemma freeSmallObject_dead:
  assumes inv: "heap_inv c k hb sb N L S st" and i: "item_ok c t b s" and r: "in_room c k b s n"
    and d: "(t, b, s, n) \<notin> live c k sb st"
  shows "freeSmallObject env c ti (seq_addr c k hb t b s n) st = Inl (Double_free (seq_addr c k hb t b s n))"
proof -
  have bi: "bags_inv c k hb sb N st" using inv by (simp add: heap_inv_def)
  have "isObjectFree (snext (lists st) (seq_slot c k sb t b s n))"
    using d i r by (simp add: live_def isObjectFree_def)
  then show ?thesis
    unfolding freeSmallObject_def find_object [OF bi i r] bindE_simps prod.case by simp
qed

text \<open>The verdict of the checks on a live object.\<close>

definition verdict ::
  "build \<Rightarrow> nat \<Rightarrow> addr \<Rightarrow> addr \<Rightarrow> 'r bibop \<Rightarrow> nat \<Rightarrow> nat \<Rightarrow> nat \<Rightarrow> nat \<Rightarrow> fg_error + unit"
where
  "verdict c k hb sb st t b s n =
    (if \<not> USE_CANARY c then Inr ()
     else if bytes st (canary_addr c k hb t b s n) \<noteq> CANARY_SENTINEL
     then Inl (Canary_broken (seq_addr c k hb t b s n))
     else first_broken c k hb sb st t b s (left_of n @ right_of n))"

lemma freeSmallObject_live:
  assumes inv: "heap_inv c k hb sb N L S st" and l: "(t, b, s, n) \<in> live c k sb st"
  shows "freeSmallObject env c ti (seq_addr c k hb t b s n) st =
    bindE (verdict c k hb sb st t b s n) (\<lambda>_. release_slot c ti t b s (seq_slot c k sb t b s n)
      (st\<lparr> bytes := zeroed (seq_addr c k hb t b s n) (erased c b) (bytes st) \<rparr>))"
proof -
  have bi: "bags_inv c k hb sb N st" using inv by (simp add: heap_inv_def)
  have i: "item_ok c t b s" and r: "in_room c k b s n" using l by (simp_all add: live_def)
  have "\<not> isObjectFree (snext (lists st) (seq_slot c k sb t b s n))"
    using l by (simp add: live_def isObjectFree_def)
  then show ?thesis
    unfolding freeSmallObject_def find_object [OF bi i r] bindE_simps prod.case Let_def
      check_canaries_eq [OF inv l] verdict_def [symmetric] destroy_ok [OF inv l]
    by simp
qed

lemma freeSmallObject_ok:
  assumes inv: "heap_inv c k hb sb N L S st" and l: "(t, b, s, n) \<in> live c k sb st"
    and v: "verdict c k hb sb st t b s n = Inr ()" and cf: "\<not> CFREELIST c"
  shows "\<exists>st' ys. freeSmallObject env c ti (seq_addr c k hb t b s n) st = Inr st' \<and>
    heap_inv c k hb sb N (L(freelist_addr c (threadBagAddr st) t b s := ys)) S st' \<and>
    mset ys = add_mset (seq_slot c k sb t b s n) (mset (L (freelist_addr c (threadBagAddr st) t b s))) \<and>
    live c k sb st' = live c k sb st - {(t, b, s, n)} \<and>
    bytes st' = zeroed (seq_addr c k hb t b s n) (erased c b) (bytes st) \<and>
    threadBagAddr st' = threadBagAddr st"
proof -
  let ?st = "st\<lparr> bytes := zeroed (seq_addr c k hb t b s n) (erased c b) (bytes st) \<rparr>"
  note d = destroy_inv [OF inv, of "zeroed (seq_addr c k hb t b s n) (erased c b) (bytes st)"]
  have "(t, b, s, n) \<in> live c k sb ?st" using l d(2) by simp
  from release_slot_ok [OF d(1) this cf, of ti] obtain st' ys where
    st': "release_slot c ti t b s (seq_slot c k sb t b s n) ?st = Inr st'"
    "heap_inv c k hb sb N (L(freelist_addr c (threadBagAddr st) t b s := ys)) S st'"
    "mset ys = add_mset (seq_slot c k sb t b s n) (mset (L (freelist_addr c (threadBagAddr st) t b s)))"
    "live c k sb st' = live c k sb st - {(t, b, s, n)}" "bytes st' = bytes ?st"
    "threadBagAddr st' = threadBagAddr st" unfolding d(2) by auto
  have "freeSmallObject env c ti (seq_addr c k hb t b s n) st = Inr st'"
    unfolding freeSmallObject_live [OF inv l] v bindE_simps st'(1) ..
  then show ?thesis using st' by (intro exI [of _ st'] exI [of _ ys]) simp
qed

section \<open>Sizes\<close>

lemma getUsableSize_ok:
  assumes bi: "bags_inv c k hb sb N st" and i: "item_ok c t b s" and r: "in_room c k b s n"
  shows "getUsableSize c (seq_addr c k hb t b s n) st = Inr (of_nat (2 ^ (4 + b) - (if USE_CANARY c then 1 else 0)))"
    and "unat (of_nat (2 ^ (4 + b) - (if USE_CANARY c then 1 else 0)) :: size_t)
      = 2 ^ (4 + b) - (if USE_CANARY c then 1 else 0)"
proof -
  have t: "t < MAX_ALIVE_THREADS" and b: "b < usable_bags c" using i by (simp_all add: item_ok_def)
  note bag = bags_inv_table(3) [OF bi t b]
  have "2 ^ (4 + b) - (if USE_CANARY c then 1 else 0) \<le> (2::nat) ^ 22" using class_word_lt [OF b] by linarith
  then show "unat (of_nat (2 ^ (4 + b) - (if USE_CANARY c then 1 else 0)) :: size_t)
      = 2 ^ (4 + b) - (if USE_CANARY c then 1 else 0)" by (intro unat_of_nat_less) simp
  show "getUsableSize c (seq_addr c k hb t b s n) st = Inr (of_nat (2 ^ (4 + b) - (if USE_CANARY c then 1 else 0)))"
    unfolding getUsableSize_def find_object(1) [OF bi i r] bindE_simps prod.case bag_isD(4) [OF bag]
    by (simp add: of_nat_diff)
qed

end
