(* ===== verification/BibopReach.thy ===== *)
theory BibopReach
  imports BibopFree
begin

text \<open>
  Runs of the heap.  \<open>heap_step\<close> is one event: an allocation, a free, or the program
  writing to memory.  An event is labelled with the object it is about, and the
  abstract allocator \<open>abs_step\<close> knows only the set of live objects.  \<open>reach_inv\<close>: every
  reachable state satisfies the invariant; \<open>step_simulated\<close>: every step is a step of the
  abstract allocator.
\<close>

section \<open>Events\<close>

datatype label = Alloc nat nat obj | Free obj | Write

text \<open>Room is read off the bump pointers.  The code has no such check: an allocation without
  room runs off the heap area.\<close>

definition bump_room :: "build \<Rightarrow> nat \<Rightarrow> addr \<Rightarrow> 'r bibop \<Rightarrow> nat \<Rightarrow> nat \<Rightarrow> bool" where
  "bump_room c k hb st t b \<longleftrightarrow> (\<forall>s<BIBOP_BAG_SET_SIZE. \<exists>n.
    position (get_bag st t b) ! s = seq_addr c k hb t b s n \<and> in_room c k b s (n + 2 + page_objs b))"

inductive heap_step ::
  "env \<Rightarrow> build \<Rightarrow> ('r \<Rightarrow> u32 \<times> 'r) \<Rightarrow> nat \<Rightarrow> addr \<Rightarrow> addr \<Rightarrow> 'r bibop \<Rightarrow> label \<Rightarrow> 'r bibop \<Rightarrow> bool"
  for env c rnd k hb sb
where
  alloc: "t < MAX_ALIVE_THREADS \<Longrightarrow> need c (unat sz) \<le> 2 ^ large_shift c \<Longrightarrow>
    b = class_bag (need c (unat sz)) \<Longrightarrow> bump_room c k hb st t b \<Longrightarrow>
    item_ok c t b s \<Longrightarrow> in_room c k b s n \<Longrightarrow>
    allocateSmallObject env c rnd t sz st = Inr (seq_addr c k hb t b s n, st') \<Longrightarrow>
    heap_step env c rnd k hb sb st (Alloc t b (t, b, s, n)) st'"
| free: "item_ok c t b s \<Longrightarrow> in_room c k b s n \<Longrightarrow>
    freeSmallObject env c ti (seq_addr c k hb t b s n) st = Inr st' \<Longrightarrow>
    heap_step env c rnd k hb sb st (Free (t, b, s, n)) st'"
| user: "heap_step env c rnd k hb sb st Write (st\<lparr> bytes := f \<rparr>)"

inductive_cases heap_stepE: "heap_step env c rnd k hb sb st l st'"

inductive reach ::
  "env \<Rightarrow> build \<Rightarrow> ('r \<Rightarrow> u32 \<times> 'r) \<Rightarrow> nat \<Rightarrow> addr \<Rightarrow> addr \<Rightarrow> 'r bibop \<Rightarrow> 'r bibop \<Rightarrow> bool"
  for env c rnd k hb sb st0
where
  start: "reach env c rnd k hb sb st0 st0"
| step: "reach env c rnd k hb sb st0 st \<Longrightarrow> heap_step env c rnd k hb sb st l st' \<Longrightarrow>
    reach env c rnd k hb sb st0 st'"

section \<open>The abstract allocator\<close>

inductive abs_step :: "obj set \<Rightarrow> label \<Rightarrow> obj set \<Rightarrow> bool" where
  abs_alloc: "(t, b, s, n) \<notin> A \<Longrightarrow> abs_step A (Alloc t b (t, b, s, n)) (insert (t, b, s, n) A)"
| abs_free: "x \<in> A \<Longrightarrow> abs_step A (Free x) (A - {x})"
| abs_write: "abs_step A Write A"

section \<open>Simulation\<close>

lemma seq_range_unique:
  assumes k: "bag_shift_ok c k" and i: "item_ok c t b s" and j: "item_ok c t' b' s'"
    and r: "in_room c k b s n" and r': "in_room c k b' s' n'"
    and x: "seq_off c k t b s n \<le> x" "x < seq_off c k t b s n + 2 ^ (4 + b)"
    and y: "seq_off c k t' b' s' n' \<le> x" "x < seq_off c k t' b' s' n' + 2 ^ (4 + b')"
  shows "(t, b, s, n) = (t', b', s', n')"
proof -
  have t: "t < MAX_ALIVE_THREADS" "b < usable_bags c" "s < 4" "t' < MAX_ALIVE_THREADS" "b' < usable_bags c" "s' < 4"
    using i j by (simp_all add: item_ok_def BIBOP_BAG_SET_SIZE_def)
  note v = seq_valid [OF k t(1,2) r] and w = seq_valid [OF k t(4,5) r']
  have "x \<in> obj_range c k (seq_heap c k b s n) t b (seq_idx c k b n)"
    "x \<in> obj_range c k (seq_heap c k b' s' n') t' b' (seq_idx c k b' n')"
    using x y by (simp_all add: obj_range_def seq_off_def)
  then have e: "(seq_heap c k b s n, t, b, seq_idx c k b n) = (seq_heap c k b' s' n', t', b', seq_idx c k b' n')"
    by (rule obj_ranges_disjoint [OF k v w])
  then have tb: "t' = t" "b' = b" by simp_all
  have "s = s' \<and> n = n'"
    by (rule seq_coord_inj [OF t(3,6) objects_pos [OF k t(2)]]) (use e tb in simp_all)
  then show ?thesis using tb by simp
qed

lemma seq_addr_inj:
  assumes k: "bag_shift_ok c k" and i: "item_ok c t b s" and j: "item_ok c t' b' s'"
    and r: "in_room c k b s n" and r': "in_room c k b' s' n'"
    and eq: "seq_addr c k hb t b s n = seq_addr c k hb t' b' s' n'"
  shows "(t, b, s, n) = (t', b', s', n')"
proof -
  have "seq_off c k t b s n = seq_off c k t' b' s' n'" using eq unfolding seq_addr_off
    by (rule offset_eqD) (use seq_off_lt(2) [OF k i r] seq_off_lt(2) [OF k j r'] in simp_all)
  then show ?thesis
    by (intro seq_range_unique [OF k i j r r', of "seq_off c k t b s n"]) simp_all
qed

lemma seq_addr_aligned:
  assumes k: "bag_shift_ok c k" and p: "heap_placed c k hb" and i: "item_ok c t b s" and r: "in_room c k b s n"
  shows "16 dvd unat (seq_addr c k hb t b s n)"
proof -
  have v: "valid_obj c k (seq_heap c k b s n) t b (seq_idx c k b n)"
    using seq_valid [OF k _ _ r] i by (simp add: item_ok_def)
  have pw: "(16::nat) dvd 2 ^ e" if "4 \<le> e" for e using le_imp_power_dvd [OF that, of "2::nat"] by simp
  have "4096 dvd unat hb" using p by (simp add: heap_placed_def dvd_eq_mod_eq_0)
  then have "16 dvd unat hb" by (rule dvd_trans [rotated]) simp
  moreover have "4 \<le> k" "4 \<le> heap_shift c k" using bag_shift_ge [OF k] by (simp_all add: heap_shift_def)
  then have "16 dvd obj_off c k (seq_heap c k b s n) t b (seq_idx c k b n)"
    unfolding obj_off_def bag_off_def by (intro dvd_add dvd_mult pw) simp_all
  ultimately show ?thesis unfolding seq_addr_def unat_obj_addr [OF k p v] by (rule dvd_add)
qed

lemma seq_ranges_disjoint:
  assumes k: "bag_shift_ok c k" and i: "item_ok c t b s" and r: "in_room c k b s n"
    and j: "item_ok c t' b' s'" and r': "in_room c k b' s' n'" and ne: "(t, b, s, n) \<noteq> (t', b', s', n')"
  shows "disjnt {seq_off c k t b s n..<seq_off c k t b s n + 2 ^ (4 + b)}
      {seq_off c k t' b' s' n'..<seq_off c k t' b' s' n' + 2 ^ (4 + b')}"
  using seq_range_unique [OF k i j r r'] ne unfolding disjnt_def by fastforce

lemma bump_room_has_room:
  assumes bi: "bags_inv c k hb sb N st" and r: "bump_room c k hb st t b"
    and t: "t < MAX_ALIVE_THREADS" and b: "b < usable_bags c"
  shows "has_room c k N t b"
  unfolding has_room_def
proof (intro allI impI)
  fix s assume s: "s < BIBOP_BAG_SET_SIZE"
  note B = bags_invD [OF bi]
  have i: "item_ok c t b s" using t b s by (simp add: item_ok_def)
  obtain n where n: "position (get_bag st t b) ! s = seq_addr c k hb t b s n"
    "in_room c k b s (n + 2 + page_objs b)" using r s unfolding bump_room_def by blast
  have "seq_addr c k hb t b s (N t b s) = seq_addr c k hb t b s n"
    using B(8) [OF i] n(1) by (simp add: bump_at_def)
  moreover have "in_room c k b s (N t b s)" by (rule in_room_mono [OF B(9) [OF i]]) simp
  moreover have "in_room c k b s n" by (rule in_room_mono [OF n(2)]) simp
  ultimately have "(t, b, s, N t b s) = (t, b, s, n)" by (intro seq_addr_inj [OF B(1) i i])
  then show "in_room c k b s (N t b s + 2 + page_objs b)" using n(2) by simp
qed

text \<open>One step from a state with the invariant.\<close>

lemma step_ok:
  assumes inv: "heap_inv c k hb sb N L S st" and cf: "\<not> CFREELIST c"
    and st: "heap_step env c rnd k hb sb st l st'"
  shows "(\<exists>N' L' S'. heap_inv c k hb sb N' L' S' st') \<and> abs_step (live c k sb st) l (live c k sb st')"
  using st
proof cases
  case (alloc t sz b s n)
  have bi: "bags_inv c k hb sb N st" using inv by (simp add: heap_inv_def)
  note B = bags_invD [OF bi]
  have b: "b < usable_bags c" using alloc by (simp add: class_bag_usable)
  have room: "has_room c k N t (class_bag (need c (unat sz)))"
    using bump_room_has_room [OF bi _ _ b, of t] alloc by simp
  obtain s' n' st'' N' L' S' where run: "allocateSmallObject env c rnd t sz st = Inr (seq_addr c k hb t b s' n', st'')"
    and r: "heap_inv c k hb sb N' L' S' st''" "item_ok c t b s'" "in_room c k b s' n'"
    "(t, b, s', n') \<notin> live c k sb st" "live c k sb st'' = insert (t, b, s', n') (live c k sb st)"
    using allocateSmallObject_ok [OF inv alloc(2,3) room, of env rnd] unfolding alloc(4) [symmetric] by blast
  have same: "seq_addr c k hb t b s n = seq_addr c k hb t b s' n'" "st' = st''" using run alloc by simp_all
  have "(t, b, s, n) = (t, b, s', n')"
    by (rule seq_addr_inj [OF B(1) _ r(2) _ r(3) same(1)]) (use alloc in simp_all)
  then have "abs_step (live c k sb st) l (live c k sb st')"
    unfolding same(2) r(5) alloc(1) using r(4) by (simp add: abs_alloc)
  then show ?thesis using r(1) same(2) by blast
next
  case (free t b s n ti)
  have l: "(t, b, s, n) \<in> live c k sb st"
  proof (rule ccontr)
    assume "(t, b, s, n) \<notin> live c k sb st"
    from freeSmallObject_dead [OF inv free(2,3) this, of env ti] show False using free(4) by simp
  qed
  have v: "verdict c k hb sb st t b s n = Inr ()"
    using free(4) unfolding freeSmallObject_live [OF inv l] by (cases "verdict c k hb sb st t b s n") auto
  obtain st'' ys where run: "freeSmallObject env c ti (seq_addr c k hb t b s n) st = Inr st''"
    and r: "heap_inv c k hb sb N (L(freelist_addr c (threadBagAddr st) t b s := ys)) S st''"
    "live c k sb st'' = live c k sb st - {(t, b, s, n)}"
    using freeSmallObject_ok [OF inv l v cf, of env ti] by blast
  have same: "st' = st''" using run free(4) by simp
  have "abs_step (live c k sb st) l (live c k sb st')"
    unfolding same r(2) free(1) using l by (rule abs_free)
  then show ?thesis using r(1) same by blast
next
  case (user f)
  then show ?thesis using destroy_inv [OF inv, of f] by (auto intro: abs_write)
qed

lemma reach_inv:
  assumes "reach env c rnd k hb sb st0 st" and "heap_inv c k hb sb N L S st0" and "\<not> CFREELIST c"
  shows "\<exists>N L S. heap_inv c k hb sb N L S st"
  using assms
proof (induction rule: reach.induct)
  case start
  then show ?case by blast
next
  case (step st l st')
  then show ?case using step_ok by blast
qed

end
