(* ===== verification/BibopExample.thy ===== *)
theory BibopExample
  imports BibopReach
begin

text \<open>
  A concrete run, for the witnesses: the default build, an operating system that maps the
  heap at \<open>2^44\<close> and the shadow memory at \<open>2^46\<close>, the static object at \<open>2^20\<close>, and a
  counter in place of the random number generator.  \<open>example_heap\<close> is the state after
  \<open>initialize\<close>, \<open>example_live\<close> the state after one request of 24 bytes.
\<close>

definition zero_geometry :: geometry where
  "zero_geometry = \<lparr> heapBegin = 0, heapEnd = 0, heapMask = 0, heapSizeShiftBits = 0,
     shadowMemBegin = 0, shadowMemEnd = 0, shadowMemSizePerHeap = 0, shadowMemSizePerHeapCeil = 0,
     shadowMemSizePerHeapCeilShiftBits = 0, shadowMemSizePerHeapMask = 0, shadowObjectInfoSize = 0,
     shadowObjectInfoSizeShiftBits = 0, numUsableBags = 0, lastUsableBag = 0, bibopBagSize = 0,
     firstBagPower = 0, threadSize = 0, threadShiftBits = 0, bagShiftBits = 0, bagMask = 0,
     numObjectsPerHeap = 0, numObjectsPerSubHeap = 0, numBagsPerHeap = 0, numBagsPerSubHeapMask = 0,
     numBagsPerHeapShiftBits = 0 \<rparr>"

text \<open>The object before \<open>initialize\<close>: a zeroed static buffer (\<open>getInstance\<close>).\<close>

definition static_object :: "build \<Rightarrow> addr \<Rightarrow> 'r \<Rightarrow> 'r bibop" where
  "static_object c base rg = \<lparr> geom = zero_geometry, threadBagAddr = base,
     threadBag = replicate MAX_ALIVE_THREADS (replicate (BIBOP_NUM_BAGS c) zero_bag),
     lists = \<lparr> snext = \<lambda>_. 0, dnext = \<lambda>_. 0, dprev = \<lambda>_. 0 \<rparr>, bytes = \<lambda>_. 0, calls = [], rng = rg \<rparr>"

definition example_env :: env where
  "example_env tr = (case tr of
     Mmap _ sz _ _ _ # _ \<Rightarrow> if sz = of_nat (2 ^ 44) then of_nat (2 ^ 44) else of_nat (2 ^ 46)
   | _ \<Rightarrow> 0)"

definition example_rnd :: "u32 \<Rightarrow> u32 \<times> u32" where "example_rnd x = (x, x + 1)"

abbreviation "ex_hb \<equiv> (of_nat (2 ^ 44) :: addr)"
abbreviation "ex_sb \<equiv> (of_nat (2 ^ 46) :: addr)"
abbreviation "ex_base \<equiv> (of_nat (2 ^ 20) :: addr)"

definition example_heap :: "u32 bibop" where
  "example_heap = (case initialize example_env default_build example_rnd (static_object default_build ex_base 0) of
     Inl _ \<Rightarrow> static_object default_build ex_base 0 | Inr (_, st) \<Rightarrow> st)"

definition example_live :: "u32 bibop" where
  "example_live = (case allocateSmallObject example_env default_build example_rnd 0 24 example_heap of
     Inl _ \<Rightarrow> example_heap | Inr (_, st) \<Rightarrow> st)"

lemma default_ok: "bag_shift_ok default_build 22" "heap_shift default_build 22 = 34"
  by (simp_all add: size_defs default_build_def heap_shift_def)

lemma example_placed: "placed default_build 22 ex_hb ex_sb ex_base"
proof -
  have "BIBOP_NUM_HEAPS * shadow_per_heap default_build 22 \<le> 2 ^ 43"
    using shadow_per_heap_bounds(2) [OF default_ok(1)] by (simp add: BIBOP_NUM_HEAPS_def)
  moreover have "unat ex_hb = 2 ^ 44" "unat ex_sb = 2 ^ 46" "unat ex_base = 2 ^ 20"
    by (rule unat_of_nat_less, simp)+
  ultimately show ?thesis
    unfolding placed_def heap_placed_def default_ok(2) by (simp add: BIBOP_NUM_HEAPS_def)
qed

lemma example_mapped: "example_env (private_map sz # tr) \<noteq> MAP_FAILED"
  by (simp add: example_env_def private_map_def MAP_FAILED_def)

lemma example_bag_size:
  "bag_size_random default_build example_rnd (0 :: u32) = (0, 1)"
  "choose_bag_size default_build 0 = of_nat (2 ^ 22)"
  by (simp_all add: bag_size_random_def default_build_def example_rnd_def choose_bag_size_def
      MIN_RANDOM_BAG_SIZE_def)

lemma example_heap_initial:
  "initial_heap default_build 22 ex_hb ex_sb (static_object default_build ex_base 0) example_heap"
proof -
  let ?st = "static_object default_build ex_base (0 :: u32)"
  have hsz: "of_nat BIBOP_NUM_HEAPS * of_nat (2 ^ heap_shift default_build 22) = (of_nat (2 ^ 44) :: size_t)"
    unfolding default_ok(2) by (simp add: BIBOP_NUM_HEAPS_def)
  have rng0: "rng ?st = 0" by (simp add: static_object_def)
  obtain st' sb tr where run: "initialize example_env default_build example_rnd ?st = Inr
      (example_env (private_map (of_nat (2 ^ 44)) # calls ?st), st')"
    and sb: "sb = example_env (private_map (of_nat BIBOP_NUM_HEAPS * of_nat (shadow_per_heap default_build 22)) # tr)"
    and ini: "initial_heap default_build 22 (example_env (private_map (of_nat (2 ^ 44)) # calls ?st)) sb ?st st'"
    using initialize_ok [OF default_ok(1), of example_rnd ?st 0 1 example_env] example_bag_size example_mapped rng0
    unfolding hsz by metis
  have hb: "example_env (private_map (of_nat (2 ^ 44)) # calls ?st) = ex_hb"
    by (simp add: example_env_def private_map_def)
  have "BIBOP_NUM_HEAPS * shadow_per_heap default_build 22 \<le> 2 ^ 43"
    using shadow_per_heap_bounds(2) [OF default_ok(1)] by (simp add: BIBOP_NUM_HEAPS_def)
  then have "of_nat (BIBOP_NUM_HEAPS * shadow_per_heap default_build 22) \<noteq> (of_nat (2 ^ 44) :: size_t)"
    by (subst of_nat_eq_word_iff) simp_all
  then have "sb = ex_sb" unfolding sb of_nat_mult [symmetric] private_map_def example_env_def by simp
  moreover have "example_heap = st'" unfolding example_heap_def run by (simp only: sum.case prod.case)
  ultimately show ?thesis using ini unfolding hb by simp
qed

lemma example_inv:
  "heap_inv default_build 22 ex_hb ex_sb (\<lambda>_ _ _. 0) (\<lambda>_. []) {} example_heap"
  "live default_build 22 ex_sb example_heap = {}"
  by (rule initial_heap_inv [OF default_ok(1) example_heap_initial];
      simp add: static_object_def example_placed [simplified])+

lemma example_room: "has_room default_build 22 (\<lambda>_ _ _. 0) t 1"
  unfolding has_room_def
proof (intro allI impI)
  fix s assume s: "s < BIBOP_BAG_SET_SIZE"
  have "objects default_build 22 1 = 130944"
    by (simp add: objects_def guard_reach_def default_build_def size_defs)
  then have "seq_heap default_build 22 1 s (0 + 2 + page_objs 1) = s"
    by (simp add: seq_heap_def page_objs_def)
  then show "in_room default_build 22 1 s (0 + 2 + page_objs 1)"
    unfolding in_room_def using s shadow_fits_half [OF default_ok(1), of s]
    by (simp add: BIBOP_NUM_HEAPS_def BIBOP_BAG_SET_SIZE_def)
qed

lemma example_class: "class_bag (need default_build 24) = 1"
  by (simp add: class_bag_def need_def default_build_def bit_len.simps)

lemma example_live_inv:
  "\<exists>s n N L S. allocateSmallObject example_env default_build example_rnd 0 24 example_heap
      = Inr (seq_addr default_build 22 ex_hb 0 1 s n, example_live) \<and>
    heap_inv default_build 22 ex_hb ex_sb N L S example_live \<and>
    item_ok default_build 0 1 s \<and> in_room default_build 22 1 s n \<and>
    live default_build 22 ex_sb example_live = {(0, 1, s, n)} \<and>
    bytes example_live (canary_addr default_build 22 ex_hb 0 1 s n) = CANARY_SENTINEL"
proof -
  have c: "class_bag (need default_build (unat (24 :: size_t))) = 1" using example_class by simp
  have can: "USE_CANARY default_build" by (simp add: default_build_def)
  have "need default_build (unat (24 :: size_t)) \<le> 2 ^ large_shift default_build"
    by (simp add: need_def large_shift_def default_build_def)
  from allocateSmallObject_ok [OF example_inv(1) _ this, of 0 example_env example_rnd, unfolded c]
  obtain s n st' N' L' S' where
    run: "allocateSmallObject example_env default_build example_rnd 0 24 example_heap
      = Inr (seq_addr default_build 22 ex_hb 0 1 s n, st')"
    and st': "heap_inv default_build 22 ex_hb ex_sb N' L' S' st'" "item_ok default_build 0 1 s"
      "in_room default_build 22 1 s n"
      "live default_build 22 ex_sb st' = insert (0, 1, s, n) (live default_build 22 ex_sb example_heap)"
      "bytes st' = (bytes example_heap)(seq_addr default_build 22 ex_hb 0 1 s n + of_nat (2 ^ (4 + 1) - 1)
        := CANARY_SENTINEL)"
    using example_room can by (auto simp: MAX_ALIVE_THREADS_def)
  have "example_live = st'" unfolding example_live_def run by (simp only: sum.case prod.case)
  then show ?thesis using run st' unfolding example_inv(2) by (auto simp: canary_addr_def)
qed

text \<open>Two neighbours, both live: the first two objects of the 32-byte class in item 0.\<close>

definition example_two :: "u32 bibop" where
  "example_two = (let st = set_bag 0 1 (bumped default_build 22 ex_hb 0 1 0 2 (get_bag example_heap 0 1)) example_heap;
      mark = (\<lambda>n st. case mark_allocated example_env default_build 0 1 (seq_addr default_build 22 ex_hb 0 1 0 n) st of
        Inl _ \<Rightarrow> st | Inr (_, st') \<Rightarrow> st')
    in mark 1 (mark 0 st))"

lemma example_item:
  shows "item_ok default_build 0 1 0" and "n \<le> 130 \<Longrightarrow> in_room default_build 22 1 0 n"
proof -
  show "item_ok default_build 0 1 0"
    by (simp add: item_ok_def MAX_ALIVE_THREADS_def BIBOP_BAG_SET_SIZE_def size_defs default_build_def)
  have "in_room default_build 22 1 0 (0 + 2 + page_objs 1)"
    using example_room [of 0] unfolding has_room_def by (simp add: BIBOP_BAG_SET_SIZE_def)
  then show "n \<le> 130 \<Longrightarrow> in_room default_build 22 1 0 n" by (rule in_room_mono) (simp add: page_objs_def)
qed

lemma example_two_inv:
  "\<exists>N L S. heap_inv default_build 22 ex_hb ex_sb N L S example_two"
  "live default_build 22 ex_sb example_two = {(0, 1, 0, 0), (0, 1, 0, 1)}"
proof -
  let ?N = "upd3 (\<lambda>_ _ _. 0) 0 1 0 2" and ?L = "\<lambda>_. [] :: addr list"
  let ?st0 = "set_bag 0 1 (bumped default_build 22 ex_hb 0 1 0 2 (get_bag example_heap 0 1)) example_heap"
  have parts: "bags_inv default_build 22 ex_hb ex_sb (\<lambda>_ _ _. 0) example_heap"
    "lists_inv default_build 22 ex_sb (\<lambda>_ _ _. 0) ?L {} example_heap"
    "guards_inv default_build 22 ex_hb {} (calls example_heap)"
    using example_inv(1) unfolding heap_inv_def by blast+
  have b0: "bags_inv default_build 22 ex_hb ex_sb ?N ?st0"
    by (rule bags_inv_bumped [OF parts(1) example_item(1) example_item(2)]) (simp_all add: set_bag_def)
  have same: "lists ?st0 = lists example_heap" "threadBagAddr ?st0 = threadBagAddr example_heap"
    "calls ?st0 = calls example_heap" by (simp_all add: set_bag_def)
  have "lists_inv default_build 22 ex_sb ?N ?L {} ?st0"
    unfolding lists_inv_cong [OF same(1,2)] using parts(2) by (rule lists_inv_advance) (simp_all add: upd3_def)
  then have i0: "heap_inv default_build 22 ex_hb ex_sb ?N ?L {} ?st0" using b0 parts(3) same(3) by (simp add: heap_inv_def)
  have l0: "live default_build 22 ex_sb ?st0 = {}" using live_cong [OF same(1)] example_inv(2) by simp
  have n: "0 < ?N 0 1 0" "1 < ?N 0 1 0" by (simp_all add: upd3_def)
  obtain st1 where m1: "mark_allocated example_env default_build 0 1 (seq_addr default_build 22 ex_hb 0 1 0 0) ?st0
      = Inr (seq_addr default_build 22 ex_hb 0 1 0 0, st1)"
    and i1: "heap_inv default_build 22 ex_hb ex_sb ?N ?L {} st1" "live default_build 22 ex_sb st1 = {(0, 1, 0, 0)}"
    using mark_allocated_ok [OF i0 example_item(1) example_item(2) [of 0] n(1), of example_env] l0 by auto
  obtain st2 where m2: "mark_allocated example_env default_build 0 1 (seq_addr default_build 22 ex_hb 0 1 0 1) st1
      = Inr (seq_addr default_build 22 ex_hb 0 1 0 1, st2)"
    and i2: "heap_inv default_build 22 ex_hb ex_sb ?N ?L {} st2"
      "live default_build 22 ex_sb st2 = insert (0, 1, 0, 1) {(0, 1, 0, 0)}"
    using mark_allocated_ok [OF i1(1) example_item(1) example_item(2) [of 1] n(2), of example_env] i1(2) by auto
  have e: "example_two = st2" unfolding example_two_def Let_def m1 by (simp only: sum.case prod.case m2)
  show "\<exists>N L S. heap_inv default_build 22 ex_hb ex_sb N L S example_two"
    "live default_build 22 ex_sb example_two = {(0, 1, 0, 0), (0, 1, 0, 1)}"
    unfolding e using i2 by (blast, auto)
qed

end
