(* ===== verification/HeapProps.thy ===== *)
theory HeapProps
  imports BibopExample
begin

text \<open>
  The properties of the small-object heap, each with a witness on the run of
  \<open>BibopExample\<close>: layout, allocation, freeing and its errors, guard pages, addresses, and
  the refinement of the abstract allocator.
\<close>

section \<open>Layout\<close>

text \<open>C9: \<open>initialize\<close>, in every build that picks the bag size at random, returns the heap whose
  geometry, bags, shadow offsets, guard pages and empty free lists are the closed forms of the
  layout, whatever the random number, when the kernel maps memory.\<close>
theorem initialize_correct:
  assumes "BIBOP_BAG_SIZE c = None" and "\<And>sz tr. env (private_map sz # tr) \<noteq> MAP_FAILED"
  shows "\<exists>k hb sb st'. bag_shift_ok c k \<and> initialize env c rnd st = Inr (hb, st') \<and>
    initial_heap c k hb sb st st'"
proof -
  obtain r rg where size: "bag_size_random c rnd (rng st) = (r, rg)" by fastforce
  obtain k where k: "bag_shift_ok c k" "choose_bag_size c r = of_nat (2 ^ k)"
    using choose_bag_size_random [OF assms(1)] by blast
  show ?thesis using initialize_ok [OF k(1) size k(2), where env = env] assms(2) k(1) by blast
qed

theorem initialize_correct_witness:
  "\<exists>k hb sb st'. bag_shift_ok default_build k \<and>
    initialize example_env default_build example_rnd (static_object default_build ex_base 0) = Inr (hb, st') \<and>
    initial_heap default_build k hb sb (static_object default_build ex_base 0) st'"
  by (rule initialize_correct) (simp add: default_build_def, rule example_mapped)

text \<open>With guard pages, after \<open>initialize\<close> every byte behind the last object of each usable bag
  of the first four heaps, up to the end of the bag, and every byte of their unusable bags is
  closed to access, when \<open>mprotect\<close> succeeds.\<close>
lemma initial_guards_closed:
  assumes "bag_shift_ok c k" and "initial_heap c k hb sb st st'" and "ENABLE_GUARDPAGE c"
    and "\<forall>p n tr. env (Mprotect p n # tr) = 0" and "h < 4" "t < MAX_ALIVE_THREADS" "b < BIBOP_NUM_BAGS c" "d < 2 ^ k"
    and "usable_bags c \<le> b \<or> objects c k b * 2 ^ (4 + b) \<le> d"
  shows "load_byte env (hb + of_nat (h * 2 ^ heap_shift c k + bag_off c k t b + d)) st' =
    Inl (Fault (hb + of_nat (h * 2 ^ heap_shift c k + bag_off c k t b + d)))"
proof -
  let ?x = "h * 2 ^ heap_shift c k + bag_off c k t b + d"
  have h: "h < BIBOP_NUM_HEAPS" using assms(5) by (simp add: BIBOP_NUM_HEAPS_def)
  obtain b' where b': "b' < usable_bags c" "?x \<in> guard_range c k h t b'"
    using guard_byte_in_range [OF assms(1,3,7-9)] by blast
  have "protected env (calls st') (hb + of_nat ?x)"
    by (rule initial_guard_protects [OF assms(1,2,4,5,6) b' heap_offset_lt [OF assms(1) h assms(6-8)]])
  then show ?thesis by (simp add: load_byte_def heap_access_def)
qed

section \<open>Allocation\<close>

text \<open>C1: a request that fits a class, on a heap with room, succeeds: the object was not live and is
  now the only addition to the live set, it is 16-byte aligned, its class holds the request and
  the canary, its bytes overlap no live object, and no byte of the heap changes but the
  canary.\<close>
theorem allocate_fresh_object:
  assumes "heap_inv c k hb sb N L S st" and "t < MAX_ALIVE_THREADS"
    and "need c (unat sz) \<le> 2 ^ large_shift c" and "has_room c k N t (class_bag (need c (unat sz)))"
  shows "\<exists>st' N' L' S' b s n. allocateSmallObject env c rnd t sz st = Inr (seq_addr c k hb t b s n, st') \<and>
    heap_inv c k hb sb N' L' S' st' \<and> (t, b, s, n) \<notin> live c k sb st \<and>
    live c k sb st' = insert (t, b, s, n) (live c k sb st) \<and>
    need c (unat sz) \<le> 2 ^ (4 + b) \<and> 16 dvd unat (seq_addr c k hb t b s n) \<and>
    (\<forall>(t', b', s', n')\<in>live c k sb st. disjnt {seq_off c k t b s n..<seq_off c k t b s n + 2 ^ (4 + b)}
      {seq_off c k t' b' s' n'..<seq_off c k t' b' s' n' + 2 ^ (4 + b')}) \<and>
    (\<forall>x. bytes st' x = bytes st x \<or> USE_CANARY c \<and> x = canary_addr c k hb t b s n)"
proof -
  let ?b = "class_bag (need c (unat sz))"
  obtain s n st' N' L' S' where r: "allocateSmallObject env c rnd t sz st = Inr (seq_addr c k hb t ?b s n, st')"
    "heap_inv c k hb sb N' L' S' st'" "item_ok c t ?b s" "in_room c k ?b s n" "(t, ?b, s, n) \<notin> live c k sb st"
    "live c k sb st' = insert (t, ?b, s, n) (live c k sb st)"
    "bytes st' = (if USE_CANARY c then (bytes st)(seq_addr c k hb t ?b s n + of_nat (2 ^ (4 + ?b) - 1)
      := CANARY_SENTINEL) else bytes st)"
    using allocateSmallObject_ok [OF assms, of env rnd] by blast
  have k: "bag_shift_ok c k" "heap_placed c k hb" using assms(1) bags_invD(1,3) by (auto simp: heap_inv_def)
  have al: "16 dvd unat (seq_addr c k hb t ?b s n)" by (rule seq_addr_aligned [OF k r(3,4)])
  have disj: "disjnt {seq_off c k t ?b s n..<seq_off c k t ?b s n + 2 ^ (4 + ?b)}
      {seq_off c k t' b' s' n'..<seq_off c k t' b' s' n' + 2 ^ (4 + b')}"
    if l: "(t', b', s', n') \<in> live c k sb st" for t' b' s' n'
    by (rule seq_ranges_disjoint [OF k(1) r(3,4)]) (use l r(5) in \<open>auto simp: live_def\<close>)
  have "bytes st' x = bytes st x \<or> USE_CANARY c \<and> x = canary_addr c k hb t ?b s n" for x
    unfolding r(7) canary_addr_def by simp
  then show ?thesis
    by (intro exI [of _ st'] exI [of _ N'] exI [of _ L'] exI [of _ S'] exI [of _ ?b] exI [of _ s] exI [of _ n] conjI
        ballI r(1,2,5,6) al class_bag_least(1)) (use disj in auto)
qed

theorem allocate_fresh_object_witness:
  "\<exists>b s n st'. allocateSmallObject example_env default_build example_rnd 0 24 example_heap
     = Inr (seq_addr default_build 22 ex_hb 0 b s n, st') \<and>
   live default_build 22 ex_sb st' = {(0, b, s, n)} \<and> need default_build 24 \<le> 2 ^ (4 + b)"
proof -
  have "need default_build (unat (24 :: size_t)) \<le> 2 ^ large_shift default_build"
    by (simp add: need_def large_shift_def default_build_def)
  moreover have "has_room default_build 22 (\<lambda>_ _ _. 0) 0 (class_bag (need default_build (unat (24 :: size_t))))"
    using example_room example_class by simp
  ultimately show ?thesis
    using allocate_fresh_object [OF example_inv(1), of 0 24 example_env example_rnd] example_inv(2)
    by (fastforce simp: MAX_ALIVE_THREADS_def)
qed

text \<open>The class of a request is the smallest power of two, at least 16, that holds it, and it is
  the class of a usable bag.\<close>
lemma class_is_smallest:
  assumes "n \<le> 2 ^ large_shift c"
  shows "\<exists>b < usable_bags c. class_size (of_nat n) = of_nat (2 ^ (4 + b)) \<and> n \<le> 2 ^ (4 + b) \<and>
    getBagNum (the_geometry c k hb sb) (class_size (of_nat n)) = of_nat b \<and>
    (\<forall>b'. n \<le> 2 ^ (4 + b') \<longrightarrow> b \<le> b')"
proof -
  have "(2::nat) ^ large_shift c \<le> 2 ^ 22" by (intro power_increasing) (simp_all add: large_shift_def)
  then have "n \<le> 2 ^ 31" using assms by simp
  note cs = class_size_eq [OF this] and u = class_bag_usable [OF assms]
  show ?thesis
    by (intro exI [of _ "class_bag n"]) (use cs u getBagNum_class [OF u] class_bag_least in auto)
qed

section \<open>Freeing\<close>

text \<open>C2: freeing a live object succeeds when its canary and those of its live neighbours are
  intact: it leaves the live set, its slot joins the free list of its item, and with
  \<open>DESTROY_ON_FREE\<close> its bytes are zero, up to 2 KB; nothing else changes.\<close>
theorem free_live_object:
  assumes "heap_inv c k hb sb N L S st" and "(t, b, s, n) \<in> live c k sb st"
    and "verdict c k hb sb st t b s n = Inr ()" and "\<not> CFREELIST c"
  shows "\<exists>st' ys. freeSmallObject env c ti (seq_addr c k hb t b s n) st = Inr st' \<and>
    heap_inv c k hb sb N (L(freelist_addr c (threadBagAddr st) t b s := ys)) S st' \<and>
    mset ys = add_mset (seq_slot c k sb t b s n) (mset (L (freelist_addr c (threadBagAddr st) t b s))) \<and>
    live c k sb st' = live c k sb st - {(t, b, s, n)} \<and>
    bytes st' = zeroed (seq_addr c k hb t b s n) (erased c b) (bytes st)"
  using freeSmallObject_ok [OF assms, of env ti] by blast

lemma example_verdict:
  assumes "live c k sb st = {(t, b, s, n)}" "bytes st (canary_addr c k hb t b s n) = CANARY_SENTINEL"
  shows "verdict c k hb sb st t b s n = Inr ()"
proof -
  have "\<not> broken c k hb sb st t b s m" for m using assms by (auto simp: broken_def)
  then have "first_broken c k hb sb st t b s ms = Inr ()" for ms
    by (induction ms) (simp_all add: first_broken_simps)
  then show ?thesis using assms(2) by (simp add: verdict_def)
qed

theorem free_live_object_witness:
  "\<exists>t b s n st'. (t, b, s, n) \<in> live default_build 22 ex_sb example_live \<and>
    freeSmallObject example_env default_build 0 (seq_addr default_build 22 ex_hb t b s n) example_live = Inr st' \<and>
    live default_build 22 ex_sb st' = {}"
proof -
  obtain s n N L S where i: "heap_inv default_build 22 ex_hb ex_sb N L S example_live"
    "live default_build 22 ex_sb example_live = {(0, 1, s, n)}"
    "bytes example_live (canary_addr default_build 22 ex_hb 0 1 s n) = CANARY_SENTINEL"
    using example_live_inv by blast
  have l: "(0, 1, s, n) \<in> live default_build 22 ex_sb example_live" using i(2) by simp
  have "\<not> CFREELIST default_build" by (simp add: default_build_def)
  from free_live_object [OF i(1) l example_verdict [OF i(2,3)] this, of example_env 0] i(2) l
  show ?thesis by force
qed

text \<open>C3: freeing an object that is not live, because it was freed before or was never handed out,
  ends in the double-free error and nothing is changed.\<close>
theorem double_free_detected:
  assumes "heap_inv c k hb sb N L S st" and "item_ok c t b s" and "in_room c k b s n"
    and "(t, b, s, n) \<notin> live c k sb st"
  shows "freeSmallObject env c ti (seq_addr c k hb t b s n) st = Inl (Double_free (seq_addr c k hb t b s n))"
  using assms by (rule freeSmallObject_dead)

theorem double_free_detected_witness:
  "freeSmallObject example_env default_build 0 (seq_addr default_build 22 ex_hb 5 1 0 7) example_heap =
    Inl (Double_free (seq_addr default_build 22 ex_hb 5 1 0 7))"
proof (rule double_free_detected [OF example_inv(1)])
  show i: "item_ok default_build 5 1 0"
    by (simp add: item_ok_def MAX_ALIVE_THREADS_def BIBOP_BAG_SET_SIZE_def size_defs default_build_def)
  show "in_room default_build 22 1 0 7"
    by (rule example_item(2)) simp
  show "(5, 1, 0, 7) \<notin> live default_build 22 ex_sb example_heap" unfolding example_inv(2) by blast
qed

text \<open>C12: freeing a live object whose canary was overwritten ends in the canary error.\<close>
theorem overflow_detected:
  assumes "heap_inv c k hb sb N L S st" and "(t, b, s, n) \<in> live c k sb st" and "USE_CANARY c"
    and "bytes st (canary_addr c k hb t b s n) \<noteq> CANARY_SENTINEL"
  shows "freeSmallObject env c ti (seq_addr c k hb t b s n) st = Inl (Canary_broken (seq_addr c k hb t b s n))"
  unfolding freeSmallObject_live [OF assms(1,2)] verdict_def using assms(3,4) by simp

theorem overflow_detected_witness:
  "\<exists>t b s n. freeSmallObject example_env default_build 0 (seq_addr default_build 22 ex_hb t b s n)
      (example_live\<lparr> bytes := \<lambda>_. 0 \<rparr>) = Inl (Canary_broken (seq_addr default_build 22 ex_hb t b s n))"
proof -
  obtain s n N L S where i: "heap_inv default_build 22 ex_hb ex_sb N L S example_live"
    "live default_build 22 ex_sb example_live = {(0, 1, s, n)}"
    using example_live_inv by blast
  note d = destroy_inv [OF i(1), of "\<lambda>_. 0"]
  have "(0, 1, s, n) \<in> live default_build 22 ex_sb (example_live\<lparr> bytes := \<lambda>_. 0 \<rparr>)" using d(2) i(2) by simp
  from overflow_detected [OF d(1) this, of example_env 0] show ?thesis
    by (auto simp: default_build_def CANARY_SENTINEL_def)
qed

text \<open>C13: an overflow of a live neighbour is found as well: when the object's own canary is intact and
  one of the two objects before or after it in the item's sequence is live with a broken
  canary, the free ends in the error for the first such neighbour.\<close>
theorem neighbor_overflow_detected:
  assumes "heap_inv c k hb sb N L S st" and "(t, b, s, n) \<in> live c k sb st" and "USE_CANARY c"
    and "bytes st (canary_addr c k hb t b s n) = CANARY_SENTINEL"
    and "m \<in> {n - 2..n + 2}" and "(t, b, s, m) \<in> live c k sb st"
    and "bytes st (canary_addr c k hb t b s m) \<noteq> CANARY_SENTINEL"
  shows "\<exists>m'. m' \<in> {n - 2..n + 2} \<and> broken c k hb sb st t b s m' \<and>
    freeSmallObject env c ti (seq_addr c k hb t b s n) st = Inl (Neighbor_canary_broken (seq_addr c k hb t b s m'))"
proof -
  let ?ns = "left_of n @ right_of n"
  have ns: "set ?ns = {n - 2..n + 2} - {n}"
    by (auto simp: left_of_def right_of_def NUM_MORE_CANARIES_TO_CHECK_def)
  have "m \<noteq> n" using assms(4,7) by auto
  then have "m \<in> set ?ns" "broken c k hb sb st t b s m" unfolding ns broken_def using assms(5-7) by auto
  then have "List.find (broken c k hb sb st t b s) ?ns \<noteq> None" unfolding find_None_iff by blast
  then obtain m' where m': "List.find (broken c k hb sb st t b s) ?ns = Some m'" by blast
  then have "m' \<in> set ?ns" "broken c k hb sb st t b s m'" unfolding find_Some_iff by (metis nth_mem)+
  moreover have "freeSmallObject env c ti (seq_addr c k hb t b s n) st = Inl (Neighbor_canary_broken (seq_addr c k hb t b s m'))"
    unfolding freeSmallObject_live [OF assms(1,2)] verdict_def first_broken_def m' using assms(3,4) by simp
  ultimately show ?thesis unfolding ns by blast
qed

theorem neighbor_overflow_detected_witness:
  "\<exists>m. freeSmallObject example_env default_build 0 (seq_addr default_build 22 ex_hb 0 1 0 0)
      (example_two\<lparr> bytes := (\<lambda>_. 0)(canary_addr default_build 22 ex_hb 0 1 0 0 := CANARY_SENTINEL) \<rparr>)
    = Inl (Neighbor_canary_broken (seq_addr default_build 22 ex_hb 0 1 0 m))"
proof -
  let ?f = "(\<lambda>_. 0)(canary_addr default_build 22 ex_hb 0 1 0 0 := CANARY_SENTINEL)"
  obtain N L S where i: "heap_inv default_build 22 ex_hb ex_sb N L S example_two" using example_two_inv(1) by blast
  note d = destroy_inv [OF i, of ?f]
  let ?st = "example_two\<lparr> bytes := ?f \<rparr>"
  have l: "(0, 1, 0, 0) \<in> live default_build 22 ex_sb ?st" "(0, 1, 0, 1) \<in> live default_build 22 ex_sb ?st"
    unfolding d(2) example_two_inv(2) by simp_all
  have k: "bag_shift_ok default_build 22" by (rule default_ok)
  have "canary_addr default_build 22 ex_hb 0 1 0 1 \<noteq> canary_addr default_build 22 ex_hb 0 1 0 0"
    using seq_addr_inj [OF k example_item(1) example_item(1) example_item(2) [of 1] example_item(2) [of 0], of ex_hb]
    by (auto simp: canary_addr_def)
  then have "bytes ?st (canary_addr default_build 22 ex_hb 0 1 0 1) \<noteq> CANARY_SENTINEL"
    by (simp add: CANARY_SENTINEL_def)
  moreover have "USE_CANARY default_build" by (simp add: default_build_def)
  ultimately show ?thesis
    using neighbor_overflow_detected [OF d(1) l(1), of 1 example_env 0] l(2) by auto
qed

section \<open>Addresses\<close>

text \<open>Freeing any address inside the object area of a usable bag that is not the start of an
  object ends in the invalid-object error.\<close>
lemma misaligned_free_detected:
  assumes "heap_inv c k hb sb N L S st" and "h < BIBOP_NUM_HEAPS" "t < MAX_ALIVE_THREADS" "b < usable_bags c"
    and "d < 2 ^ k" and "\<not> 2 ^ (4 + b) dvd d"
    and "a = hb + of_nat (h * 2 ^ heap_shift c k + bag_off c k t b + d)"
  shows "freeSmallObject env c ti a st = Inl (Invalid_object a)"
proof -
  have bi: "bags_inv c k hb sb N st" using assms(1) by (simp add: heap_inv_def)
  note B = bags_invD [OF bi]
  have "getShadowObjectInfo c (geom st) (threadBag st) a = Inl (Invalid_object a)"
    unfolding B(4) using locate_bag_address [OF B(1,5) assms(2-5,7), of sb] assms(6) by simp
  then show ?thesis by (simp add: freeSmallObject_def)
qed

text \<open>C10: addresses and shadow slots translate into each other: looking up the slot of an object and
  translating it back gives the object, with the bag it belongs to, and looking that up again
  gives the same slot.\<close>
theorem address_slot_roundtrip:
  fixes sb :: addr
  assumes "bag_shift_ok c k" and "table_ok c k hb tb" and "valid_obj c k h t b i"
  defines "g \<equiv> the_geometry c k hb sb" and "a \<equiv> obj_addr c k hb h t b i"
  shows "\<exists>s. getShadowObjectInfo c g tb a = Inr (s, (t, b), h mod 4) \<and>
    getAddrFromShadowInfo g s (tb ! t ! b) = a \<and> getShadowObjectInfo_bag c g a (tb ! t ! b) = s \<and>
    getHeapNumber_shadow g s = of_nat h \<and> getHeapNumber_addr g a = of_nat h"
proof -
  have x: "(h, t, b, i) \<in> heap_objs c k hb tb" using assms(1-3) by (simp add: heap_objs_def)
  show ?thesis unfolding g_def a_def
    using codec.encode_obj [OF x, of sb] codec.reslot_obj [OF x, of sb] locate_object [OF assms(1-3), of sb]
      slot_heap_number [OF assms(1,3)] addr_heap_number [OF assms(1,3)]
    by (intro exI [of _ "slot_addr c k sb h t b i"]) simp
qed

lemma example_obj: "valid_obj default_build 22 500 100 18 0"
  by (simp add: valid_obj_def BIBOP_NUM_HEAPS_def MAX_ALIVE_THREADS_def size_defs default_build_def
      objects_def guard_reach_def)

theorem address_slot_roundtrip_witness:
  "\<exists>s. getShadowObjectInfo default_build (the_geometry default_build 22 ex_hb ex_sb)
      (map (fresh_row default_build 22 ex_hb) [0..<MAX_ALIVE_THREADS]) (obj_addr default_build 22 ex_hb 500 100 18 0)
      = Inr (s, (100, 18), 500 mod 4)"
  using address_slot_roundtrip [OF default_ok(1) table_ok_initial example_obj, of ex_hb ex_sb] by blast

text \<open>The shadow slots of different objects are different and do not overlap, so marking one object
  never marks another.\<close>
lemma slots_disjoint:
  assumes "valid_obj c k h t b i" and "valid_obj c k h' t' b' i'" and "(h, t, b, i) \<noteq> (h', t', b', i')"
  shows "slot_off c k h t b i + 2 ^ info_shift c \<le> slot_off c k h' t' b' i' \<or>
    slot_off c k h' t' b' i' + 2 ^ info_shift c \<le> slot_off c k h t b i"
proof (rule ccontr)
  assume no: "\<not> ?thesis"
  let ?x = "max (slot_off c k h t b i) (slot_off c k h' t' b' i')"
  have "0 < (2::nat) ^ info_shift c" by simp
  then have "?x \<in> slot_range c k h t b i" "?x \<in> slot_range c k h' t' b' i'"
    using no by (auto simp: slot_range_def)
  then show False using slot_off_inj [OF assms(1,2)] assms(3) by blast
qed

text \<open>The canary neighbours of an object are the objects before and after it in its item's
  sequence: a step to the right and a step to the left cancel out, and only the very first
  object has no left neighbour.\<close>
lemma neighbors_inverse:
  assumes "bag_shift_ok c k" and "bag_is c k hb t b bag" and "item_ok c t b s" and "in_room c k b s (Suc n)"
  shows "getNextCanaryNeighbor c (the_geometry c k hb sb) (seq_slot c k sb t b s n) bag RIGHT
      = Some (seq_slot c k sb t b s (Suc n)) \<and>
    getNextCanaryNeighbor c (the_geometry c k hb sb) (seq_slot c k sb t b s (Suc n)) bag LEFT
      = Some (seq_slot c k sb t b s n) \<and>
    getNextCanaryNeighbor c (the_geometry c k hb sb) (seq_slot c k sb t b s 0) bag LEFT = None"
proof -
  have t: "t < MAX_ALIVE_THREADS" "b < usable_bags c" "s < 4"
    using assms(3) by (simp_all add: item_ok_def BIBOP_BAG_SET_SIZE_def)
  have r: "in_room c k b s n" "in_room c k b s 0" by (rule in_room_mono [OF assms(4)], simp)+
  show ?thesis
    using seq_neighbor_right [OF assms(1,2) t(1,2) r(1), of sb] seq_neighbor_left [OF assms(1,2) t assms(4), of sb]
      seq_neighbor_left [OF assms(1,2) t r(2), of sb] by simp
qed

text \<open>C11: no byte of a live object is ever on a guard page: every load and store of the program inside a
  live object succeeds.\<close>
theorem live_object_accessible:
  assumes "heap_inv c k hb sb N L S st" and "(t, b, s, n) \<in> live c k sb st" and "e < 2 ^ (4 + b)"
  shows "load_byte env (seq_addr c k hb t b s n + of_nat e) st = Inr (bytes st (seq_addr c k hb t b s n + of_nat e)) \<and>
    store_byte env (seq_addr c k hb t b s n + of_nat e) v st
      = Inr (st\<lparr> bytes := (bytes st)(seq_addr c k hb t b s n + of_nat e := v) \<rparr>)"
proof -
  have bi: "bags_inv c k hb sb N st" and li: "lists_inv c k sb N L S st"
    and gi: "guards_inv c k hb S (calls st)" using assms(1) by (simp_all add: heap_inv_def)
  have "(t, b, s, n) \<notin> S" using lists_invD(5) [OF li] assms(2) by blast
  then have "heap_access env st (seq_addr c k hb t b s n + of_nat e)"
    using object_accessible [OF bi gi _ _ assms(3)] assms(2) by (simp add: live_def)
  then show ?thesis by (simp add: load_byte_def store_byte_def)
qed

theorem live_object_accessible_witness:
  "load_byte example_env (seq_addr default_build 22 ex_hb 0 1 0 1 + of_nat 20) example_two =
    Inr (bytes example_two (seq_addr default_build 22 ex_hb 0 1 0 1 + of_nat 20))"
proof -
  obtain N L S where i: "heap_inv default_build 22 ex_hb ex_sb N L S example_two" using example_two_inv(1) by blast
  have "(0, 1, 0, 1) \<in> live default_build 22 ex_sb example_two" unfolding example_two_inv(2) by blast
  from live_object_accessible [OF i this, of 20 example_env 0] show ?thesis by simp
qed

section \<open>Runs\<close>



text \<open>Any sequence of allocations, frees and writes keeps the invariant.\<close>
lemma runs_keep_invariant:
  assumes "reach env c rnd k hb sb st0 st" and "heap_inv c k hb sb N L S st0" and "\<not> CFREELIST c"
  shows "\<exists>N' L' S'. heap_inv c k hb sb N' L' S' st"
  using assms by (rule reach_inv)

section \<open>Sizes and limits\<close>

text \<open>The usable size of an object is its class size, less the canary byte, and thus at least the size
  that was asked for.\<close>
lemma usable_size_enough:
  assumes "heap_inv c k hb sb N L S st" and "item_ok c t b s" and "in_room c k b s n"
    and "b = class_bag (need c m)"
  shows "\<exists>u. getUsableSize c (seq_addr c k hb t b s n) st = Inr u \<and> m \<le> unat u \<and>
    u = of_nat (2 ^ (4 + b) - (if USE_CANARY c then 1 else 0))"
proof -
  have bi: "bags_inv c k hb sb N st" using assms(1) by (simp add: heap_inv_def)
  let ?u = "2 ^ (4 + b) - (if USE_CANARY c then 1 else 0) :: nat"
  have "m \<le> ?u" using class_bag_least(1) [of "need c m"] unfolding assms(4) [symmetric] by (simp add: need_def split: if_splits)
  then show ?thesis using getUsableSize_ok [OF bi assms(2,3)] by auto
qed

lemma example_objects: "objects_per_thread default_build 22 = 523767"
proof -
  have "objects_per_thread default_build 22 = sum_list (map (objects default_build 22) [0..<19])"
    by (simp add: objects_per_thread_def objects_below_def usable_bags_def large_shift_def default_build_def
        interv_sum_list_conv_sum_set_nat atLeast0LessThan)
  moreover have "[0..<19] = [0, 1, 2, 3, 4, 5, 6, 7, 8, 9, 10, 11, 12, 13, 14, 15, 16, 17, 18]" by (simp add: upt_conv_Cons)
  moreover have "objects default_build 22 b = (2 ^ 22 - (if b = 18 then 0 else max (2 ^ (4 + b)) 4096)) div 2 ^ (4 + b)" for b
    by (simp add: objects_def guard_reach_def default_build_def usable_bags_def large_shift_def)
  ultimately show ?thesis by simp
qed


end
