(* ===== verification/CList.thy ===== *)
theory CList
  imports FGPrelude
begin

text \<open>
  \<open>list.hh\<close>: circular doubly linked lists threaded through a store of \<open>prev\<close> and \<open>next\<close>
  pointers.  \<open>ring m h xs\<close> says that the list with head \<open>h\<close> has exactly the nodes \<open>xs\<close>, in order.

  Lemmas: the effect of every operation on rings, a frame rule, and the two operations that do
  not do what their comments say (\<open>listInsertList\<close>, and \<open>listRetrieveAllItems\<close> on an empty list).
\<close>

section \<open>Operations\<close>

record clist_mem =
  cprev :: "addr \<Rightarrow> addr"
  cnext :: "addr \<Rightarrow> addr"

definition set_cnext :: "addr \<Rightarrow> addr \<Rightarrow> clist_mem \<Rightarrow> clist_mem" where
  "set_cnext p v m = m\<lparr> cnext := (cnext m)(p := v) \<rparr>"

definition set_cprev :: "addr \<Rightarrow> addr \<Rightarrow> clist_mem \<Rightarrow> clist_mem" where
  "set_cprev p v m = m\<lparr> cprev := (cprev m)(p := v) \<rparr>"

definition nodeInit :: "addr \<Rightarrow> clist_mem \<Rightarrow> clist_mem" where
  "nodeInit node m = set_cnext node node (set_cprev node node m)"

definition listInit :: "addr \<Rightarrow> clist_mem \<Rightarrow> clist_mem" where
  "listInit node m = nodeInit node m"

definition isListEmpty :: "addr \<Rightarrow> clist_mem \<Rightarrow> bool" where
  "isListEmpty head m \<longleftrightarrow> cnext m head = head"

definition tailList :: "addr \<Rightarrow> clist_mem \<Rightarrow> addr" where
  "tailList head m = (if \<not> isListEmpty head m then cprev m head else 0)"

text \<open>The four stores of \<open>__insert_between\<close>, in the order of the code.\<close>

definition insert_between :: "addr \<Rightarrow> addr \<Rightarrow> addr \<Rightarrow> clist_mem \<Rightarrow> clist_mem" where
  "insert_between node prv nxt m =
    set_cprev nxt node (set_cnext prv node (set_cprev node prv (set_cnext node nxt m)))"

definition listInsertNode :: "addr \<Rightarrow> addr \<Rightarrow> clist_mem \<Rightarrow> clist_mem" where
  "listInsertNode node prv m = insert_between node prv (cnext m prv) m"

definition listInsertTail :: "addr \<Rightarrow> addr \<Rightarrow> clist_mem \<Rightarrow> clist_mem" where
  "listInsertTail node head m = insert_between node (cprev m head) head m"

definition listInsertHead :: "addr \<Rightarrow> addr \<Rightarrow> clist_mem \<Rightarrow> clist_mem" where
  "listInsertHead node head m = insert_between node head (cnext m head) m"

definition list_link :: "addr \<Rightarrow> addr \<Rightarrow> clist_mem \<Rightarrow> clist_mem" where
  "list_link p n m = set_cprev n p (set_cnext p n m)"

definition listInsertList :: "addr \<Rightarrow> addr \<Rightarrow> clist_mem \<Rightarrow> clist_mem" where
  "listInsertList lst place m =
    (let m1 = list_link place lst m in list_link (cprev m1 lst) (cnext m1 place) m1)"

definition listInsertListTail :: "addr \<Rightarrow> addr \<Rightarrow> clist_mem \<Rightarrow> clist_mem" where
  "listInsertListTail lst place m =
    (let m1 = list_link (cprev m place) (cnext m lst) m in list_link (cprev m1 lst) place m1)"

definition listRemoveNode :: "addr \<Rightarrow> clist_mem \<Rightarrow> clist_mem" where
  "listRemoveNode node m = nodeInit node (list_link (cprev m node) (cnext m node) m)"

definition isListTail :: "addr \<Rightarrow> addr \<Rightarrow> clist_mem \<Rightarrow> bool" where
  "isListTail node head m \<longleftrightarrow> cnext m node = head"

definition listRetrieveItem :: "addr \<Rightarrow> clist_mem \<Rightarrow> addr \<times> clist_mem" where
  "listRetrieveItem lst m =
    (if \<not> isListEmpty lst m
     then let first = cnext m lst in (first, listRemoveNode first m)
     else (0, m))"

definition listRetrieveAllItems :: "addr \<Rightarrow> addr \<Rightarrow> clist_mem \<Rightarrow> clist_mem" where
  "listRetrieveAllItems dest src m =
    (let first = cnext m src; last = cprev m src;
         m1 = set_cprev first dest m;
         m2 = set_cnext last dest m1;
         m3 = set_cnext dest first m2;
         m4 = set_cprev dest last m3
     in listInit src m4)"

text \<open>The loop of \<open>listPrintItems\<close>: the prints are commented out and \<open>i\<close> is never increased.
  The result is the number of steps, when the loop ends.\<close>

partial_function (option) print_loop :: "addr \<Rightarrow> addr \<Rightarrow> int \<Rightarrow> clist_mem \<Rightarrow> nat option" where
  "print_loop first entry num m =
    (if entry \<noteq> first \<and> 0 < num
     then Option.bind (print_loop first (cnext m entry) num m) (\<lambda>n. Some (Suc n))
     else Some 0)"

definition listPrintItems :: "addr \<Rightarrow> int \<Rightarrow> clist_mem \<Rightarrow> nat option" where
  "listPrintItems head num m = print_loop head (cnext m head) num m"

section \<open>Rings\<close>

fun links :: "clist_mem \<Rightarrow> addr list \<Rightarrow> bool" where
  "links m (x # y # zs) \<longleftrightarrow> cnext m x = y \<and> cprev m y = x \<and> links m (y # zs)"
| "links m _ \<longleftrightarrow> True"

definition ring :: "clist_mem \<Rightarrow> addr \<Rightarrow> addr list \<Rightarrow> bool" where
  "ring m h xs \<longleftrightarrow> distinct (h # xs) \<and> links m (h # xs @ [h])"

lemmas clist_defs = set_cnext_def set_cprev_def nodeInit_def listInit_def insert_between_def list_link_def

lemma links_append:
  "xs \<noteq> [] \<Longrightarrow> ys \<noteq> [] \<Longrightarrow>
    links m (xs @ ys) \<longleftrightarrow>
      links m xs \<and> links m ys \<and> cnext m (last xs) = hd ys \<and> cprev m (hd ys) = last xs"
by (induction m xs rule: links.induct) (auto simp: neq_Nil_conv)

text \<open>Links depend on \<open>next\<close> of all nodes but the last and on \<open>prev\<close> of all but the first.\<close>

lemma links_cong:
  assumes "\<And>x. x \<in> set (butlast xs) \<Longrightarrow> cnext m' x = cnext m x"
    and "\<And>x. x \<in> set (tl xs) \<Longrightarrow> cprev m' x = cprev m x"
  shows "links m' xs \<longleftrightarrow> links m xs"
  using assms by (induction m xs rule: links.induct) auto

lemma ring_frame:
  assumes "\<And>x. x \<in> set (h # xs) \<Longrightarrow> cnext m' x = cnext m x \<and> cprev m' x = cprev m x"
  shows "ring m' h xs \<longleftrightarrow> ring m h xs"
proof -
  have "links m' (h # xs @ [h]) \<longleftrightarrow> links m (h # xs @ [h])"
    by (rule links_cong) (use assms in \<open>auto dest: in_set_butlastD split: if_splits\<close>)
  then show ?thesis by (simp add: ring_def)
qed

text \<open>A ring cut open between \<open>xs\<close> and \<open>ys\<close>.\<close>

lemma ring_cut:
  "ring m h (xs @ ys) \<longleftrightarrow> distinct (h # xs @ ys) \<and> links m (h # xs) \<and> links m (ys @ [h]) \<and>
    cnext m (last (h # xs)) = hd (ys @ [h]) \<and> cprev m (hd (ys @ [h])) = last (h # xs)"
  using links_append [of "h # xs" "ys @ [h]" m] by (auto simp: ring_def)

lemma ring_last: "ring m h xs \<Longrightarrow> cprev m h = last (h # xs)"
  using ring_cut [of m h xs "[]"] by simp

lemma ring_first: "ring m h xs \<Longrightarrow> cnext m h = hd (xs @ [h])"
  using ring_cut [of m h "[]" xs] by simp

lemma ring_empty_iff: "ring m h xs \<Longrightarrow> isListEmpty h m \<longleftrightarrow> xs = []"
  using ring_first [of m h xs] by (cases xs) (auto simp: isListEmpty_def ring_def)

lemma ring_rotate: "ring m h (xs @ y # ys) \<longleftrightarrow> ring m y (ys @ h # xs)"
proof -
  have "links m (h # xs @ y # ys @ [h]) \<longleftrightarrow> links m (h # xs @ [y]) \<and> links m (y # ys @ [h])"
    using links_append [of "h # xs" "y # ys @ [h]" m] links_append [of "h # xs" "[y]" m] by auto
  moreover have "links m (y # ys @ h # xs @ [y]) \<longleftrightarrow> links m (y # ys @ [h]) \<and> links m (h # xs @ [y])"
    using links_append [of "y # ys" "h # xs @ [y]" m] links_append [of "y # ys" "[h]" m] by auto
  ultimately show ?thesis by (auto simp: ring_def)
qed

section \<open>Insertion and removal\<close>

text \<open>Changing \<open>next\<close> before the cut, \<open>prev\<close> after it and a node outside keeps both sides.\<close>

lemma last_notin_butlast: "distinct zs \<Longrightarrow> zs \<noteq> [] \<Longrightarrow> last zs \<notin> set (butlast zs)"
  by (induction zs) auto

lemma links_frame:
  assumes "distinct zs" and "zs \<noteq> []"
    and "\<And>x. x \<in> set zs \<Longrightarrow> x \<noteq> last zs \<Longrightarrow> cnext m' x = cnext m x"
    and "\<And>x. x \<in> set zs \<Longrightarrow> x \<noteq> hd zs \<Longrightarrow> cprev m' x = cprev m x"
  shows "links m' zs \<longleftrightarrow> links m zs"
proof (rule links_cong)
  show "cnext m' x = cnext m x" if "x \<in> set (butlast zs)" for x
    using that assms(3) [of x] last_notin_butlast [OF assms(1,2)] by (auto dest: in_set_butlastD)
  show "cprev m' x = cprev m x" if "x \<in> set (tl zs)" for x
    using that assms(1,2) assms(4) [of x] by (cases zs) auto
qed

lemma links_cut_frame:
  assumes "distinct (h # xs @ ys)" and "node \<notin> set (h # xs @ ys)"
    and m: "\<And>x. x \<noteq> last (h # xs) \<Longrightarrow> x \<noteq> node \<Longrightarrow> cnext m' x = cnext m x"
      "\<And>x. x \<noteq> hd (ys @ [h]) \<Longrightarrow> x \<noteq> node \<Longrightarrow> cprev m' x = cprev m x"
  shows "links m' (h # xs) \<longleftrightarrow> links m (h # xs)" and "links m' (ys @ [h]) \<longleftrightarrow> links m (ys @ [h])"
proof -
  have l: "last (h # xs) \<in> set (h # xs)" and q: "hd (ys @ [h]) \<in> set (ys @ [h])"
    by (rule last_in_set hd_in_set, simp)+
  show "links m' (h # xs) \<longleftrightarrow> links m (h # xs)"
  proof (rule links_frame)
    fix x assume x: "x \<in> set (h # xs)"
    then have "x \<noteq> node" using assms(2) by auto
    then show "x \<noteq> last (h # xs) \<Longrightarrow> cnext m' x = cnext m x" using m(1) by blast
    show "cprev m' x = cprev m x" if "x \<noteq> hd (h # xs)"
      using x that q assms(1) \<open>x \<noteq> node\<close> by (intro m(2)) auto
  qed (use assms(1) in simp_all)
  show "links m' (ys @ [h]) \<longleftrightarrow> links m (ys @ [h])"
  proof (rule links_frame)
    fix x assume x: "x \<in> set (ys @ [h])"
    then have "x \<noteq> node" using assms(2) by auto
    then show "x \<noteq> hd (ys @ [h]) \<Longrightarrow> cprev m' x = cprev m x" using m(2) by blast
    show "cnext m' x = cnext m x" if "x \<noteq> last (ys @ [h])"
    proof (rule m(1) [OF _ \<open>x \<noteq> node\<close>])
      have "x \<in> set ys" using x that by auto
      then show "x \<noteq> last (h # xs)" using l assms(1) by (metis (no_types) disjoint_iff distinct_append append_Cons)
    qed
  qed (use assms(1) in simp_all)
qed

lemma insert_between_ring:
  assumes r: "ring m h (xs @ ys)" and n: "node \<notin> set (h # xs @ ys)"
    and e: "p = last (h # xs)" "q = hd (ys @ [h])"
  shows "ring (insert_between node p q m) h (xs @ node # ys)"
proof -
  let ?m = "insert_between node p q m"
  note cut = r [unfolded ring_cut]
  have "p \<in> set (h # xs)" "q \<in> set (ys @ [h])" unfolding e by (rule last_in_set hd_in_set, simp)+
  then have ne: "node \<noteq> p" "node \<noteq> q" using n by auto
  have l: "links ?m (h # xs)" "links ?m (ys @ [h])"
    using links_cut_frame [of h xs ys node ?m m] cut n e by (auto simp: clist_defs)
  have "links ?m (node # ys @ [h])"
    using links_append [of "[node]" "ys @ [h]" ?m] l ne e by (simp add: clist_defs)
  then show ?thesis unfolding ring_cut using cut n l ne e by (auto simp: clist_defs)
qed

lemma listInsertTail_ring:
  assumes "ring m h xs" and "node \<notin> set (h # xs)"
  shows "ring (listInsertTail node h m) h (xs @ [node])"
  using insert_between_ring [of m h xs "[]" node] assms ring_last [OF assms(1)]
  by (simp add: listInsertTail_def)

lemma listInsertHead_ring:
  assumes "ring m h xs" and "node \<notin> set (h # xs)"
  shows "ring (listInsertHead node h m) h (node # xs)"
  using insert_between_ring [of m h "[]" xs node] assms ring_first [OF assms(1)]
  by (simp add: listInsertHead_def)

lemma listInsertNode_ring:
  assumes "ring m h (xs @ p # ys)" and "node \<notin> set (h # xs @ p # ys)"
  shows "ring (listInsertNode node p m) h (xs @ p # node # ys)"
proof -
  have "cnext m p = hd (ys @ [h])" using assms(1) ring_cut [of m h "xs @ [p]" ys] by simp
  then show ?thesis
    using insert_between_ring [of m h "xs @ [p]" ys node] assms by (simp add: listInsertNode_def)
qed

lemma listRemoveNode_ring:
  assumes r: "ring m h (xs @ node # ys)"
  shows "ring (listRemoveNode node m) h (xs @ ys)"
    and "ring (listRemoveNode node m) node []"
proof -
  let ?p = "last (h # xs)" and ?q = "hd (ys @ [h])" and ?m = "listRemoveNode node m"
  note c1 = r [unfolded ring_cut]
  have "ring m h ((xs @ [node]) @ ys)" using r by simp
  note c2 = this [unfolded ring_cut]
  have pq: "cprev m node = ?p" "cnext m node = ?q" using c1 c2 by simp_all
  have "?p \<in> set (h # xs)" "?q \<in> set (ys @ [h])" by (rule last_in_set hd_in_set, simp)+
  then have ne: "node \<noteq> ?p" "node \<noteq> ?q" using c1 by auto
  have l: "links ?m (h # xs)" "links ?m (ys @ [h])"
    using links_cut_frame [of h xs ys node ?m m] c1 c2 by (auto simp: clist_defs listRemoveNode_def pq)
  show "ring ?m h (xs @ ys)" unfolding ring_cut
    using c1 l ne by (auto simp: clist_defs listRemoveNode_def pq)
  show "ring ?m node []" by (simp add: ring_def clist_defs listRemoveNode_def)
qed

lemma listRetrieveItem_ring:
  assumes "ring m h xs"
  shows "listRetrieveItem h m =
      (case xs of [] \<Rightarrow> (0, m) | x # _ \<Rightarrow> (x, listRemoveNode x m))"
    and "ring (snd (listRetrieveItem h m)) h (tl xs)"
proof -
  show *: "listRetrieveItem h m = (case xs of [] \<Rightarrow> (0, m) | x # _ \<Rightarrow> (x, listRemoveNode x m))"
    using ring_empty_iff [OF assms] ring_first [OF assms]
    by (auto simp: listRetrieveItem_def Let_def split: list.splits)
  show "ring (snd (listRetrieveItem h m)) h (tl xs)" unfolding *
    using assms listRemoveNode_ring(1) [of m h "[]"] by (cases xs) auto
qed

lemma tailList_ring: "ring m h xs \<Longrightarrow> tailList h m = (if xs = [] then 0 else last xs)"
  using ring_empty_iff [of m h xs] ring_last [of m h xs] by (simp add: tailList_def)

lemma isListTail_ring: "ring m h (xs @ x # ys) \<Longrightarrow> isListTail x h m \<longleftrightarrow> ys = []"
  using ring_cut [of m h "xs @ [x]" ys] by (cases ys) (auto simp: isListTail_def)

lemma listInsertTail_frame:
  assumes "ring m h xs" and "x \<notin> set (node # h # xs)"
  shows "cnext (listInsertTail node h m) x = cnext m x \<and> cprev (listInsertTail node h m) x = cprev m x"
proof -
  have "last (h # xs) \<in> set (h # xs)" by (rule last_in_set) simp
  then show ?thesis using assms(2) ring_last [OF assms(1)] by (auto simp: listInsertTail_def clist_defs)
qed

lemma listRemoveNode_frame:
  assumes "ring m h xs" and "node \<in> set xs" and "x \<notin> set (h # xs)"
  shows "cnext (listRemoveNode node m) x = cnext m x \<and> cprev (listRemoveNode node m) x = cprev m x"
proof -
  obtain ys zs where xs: "xs = ys @ node # zs" using split_list [OF assms(2)] by blast
  have "cprev m node = last (h # ys)" "cnext m node = hd (zs @ [h])"
    using assms(1) ring_cut [of m h ys "node # zs"] ring_cut [of m h "ys @ [node]" zs] by (simp_all add: xs)
  moreover have "last (h # ys) \<in> set (h # ys)" "hd (zs @ [h]) \<in> set (zs @ [h])"
    by (rule last_in_set hd_in_set, simp)+
  ultimately show ?thesis using assms(3) by (auto simp: listRemoveNode_def clist_defs xs)
qed

section \<open>Whole lists\<close>

text \<open>\<open>listInsertListTail\<close> moves the nodes of one ring in front of \<open>where\<close> in another.\<close>

lemma listInsertListTail_ring:
  assumes r: "ring m h xs" and s: "ring m l ys" and d: "set (h # xs) \<inter> set (l # ys) = {}"
  shows "ring (listInsertListTail l h m) h (xs @ ys)"
proof (cases "ys = []")
  case True
  let ?m = "listInsertListTail l h m"
  have e: "cprev m h = last (h # xs)" "cnext m l = l" using ring_last [OF r] ring_first [OF s] True by simp_all
  have nl: "l \<notin> set (h # xs)" "l \<noteq> last (h # xs)" using d last_in_set [of "h # xs"] by auto
  have m: "cnext ?m = (cnext m)(last (h # xs) := h)" "cprev ?m = (cprev m)(l := last (h # xs), h := last (h # xs))"
    using nl by (simp_all add: listInsertListTail_def list_link_def set_cnext_def set_cprev_def Let_def e)
  have cut: "distinct (h # xs)" "links m (h # xs)" "cnext m (last (h # xs)) = h"
    using r ring_cut [of m h xs "[]"] by simp_all
  have "links ?m (h # xs) \<longleftrightarrow> links m (h # xs)"
    by (rule links_frame [OF cut(1)]) (use nl in \<open>auto simp: m simp del: last.simps\<close>)
  then show ?thesis using cut nl True ring_cut [of ?m h xs "[]"] by (simp add: m del: last.simps)
next
  case False
  let ?m = "listInsertListTail l h m"
  have cr: "distinct (h # xs)" "links m (h # xs)" using r ring_cut [of m h xs "[]"] by simp_all
  have cs: "distinct (l # ys)" "links m ys"
    using s ring_cut [of m l "[]" ys] links_append [of ys "[l]" m] False by simp_all
  have ends: "last (h # xs) \<in> set (h # xs)" "last ys \<in> set ys" "hd ys \<in> set ys" using False by auto
  have e: "cprev m h = last (h # xs)" "cnext m l = hd ys" "cprev m l = last ys"
    using ring_last [OF r] ring_first [OF s] ring_last [OF s] False by simp_all
  have ne: "l \<noteq> h" "l \<noteq> hd ys" "h \<noteq> hd ys" "last (h # xs) \<noteq> last ys" "l \<noteq> last ys"
    using d ends cs by (auto simp del: last.simps)
  have m: "cnext ?m = (cnext m)(last (h # xs) := hd ys, last ys := h)"
    "cprev ?m = (cprev m)(hd ys := last (h # xs), h := last ys)"
    using ne by (simp_all add: listInsertListTail_def list_link_def set_cnext_def set_cprev_def Let_def e)
  have "links ?m (h # xs) \<longleftrightarrow> links m (h # xs)"
  proof (rule links_frame [OF cr(1)])
    fix x assume "x \<in> set (h # xs)"
    then have "x \<noteq> last ys" "x \<noteq> hd ys" using d ends(2,3) by auto
    then show "x \<noteq> last (h # xs) \<Longrightarrow> cnext ?m x = cnext m x"
      "x \<noteq> hd (h # xs) \<Longrightarrow> cprev ?m x = cprev m x" by (simp_all add: m)
  qed simp
  then have a: "links ?m (h # xs)" using cr(2) by blast
  have "links ?m ys \<longleftrightarrow> links m ys"
  proof (rule links_frame [OF _ False])
    fix x assume "x \<in> set ys"
    then have "x \<noteq> last (h # xs)" "x \<noteq> h" using d ends(1) by auto
    then show "x \<noteq> last ys \<Longrightarrow> cnext ?m x = cnext m x"
      "x \<noteq> hd ys \<Longrightarrow> cprev ?m x = cprev m x" by (simp_all add: m)
  qed (use cs in simp)
  then have b: "links ?m ys" using cs(2) by blast
  have c: "links ?m (ys @ [h])"
    using links_append [of ys "[h]" ?m] b False by (simp add: m del: last.simps)
  show ?thesis unfolding ring_cut
    using cr cs d a c False ne by (auto simp: m simp del: last.simps)
qed

text \<open>\<open>listRetrieveAllItems\<close> moves all nodes when there are any.\<close>

lemma listRetrieveAllItems_ring:
  assumes s: "ring m src xs" and ne: "xs \<noteq> []" and d: "dest \<notin> set (src # xs)"
  shows "ring (listRetrieveAllItems dest src m) dest xs"
    and "ring (listRetrieveAllItems dest src m) src []"
proof -
  let ?m = "listRetrieveAllItems dest src m"
  have c: "distinct (src # xs)" "links m xs"
    using s ring_cut [of m src "[]" xs] links_append [of xs "[src]" m] ne by simp_all
  have e: "cnext m src = hd xs" "cprev m src = last xs"
    using ring_first [OF s] ring_last [OF s] ne by simp_all
  have ends: "last xs \<in> set xs" "hd xs \<in> set xs" using ne by auto
  have m: "cnext ?m = (cnext m)(last xs := dest, dest := hd xs, src := src)"
    "cprev ?m = (cprev m)(hd xs := dest, dest := last xs, src := src)"
    using ends d c(1) by (simp_all add: listRetrieveAllItems_def clist_defs Let_def e)
  have "links ?m xs \<longleftrightarrow> links m xs"
    by (rule links_frame) (use c ne d ends in \<open>auto simp: m\<close>)
  then have "links ?m (xs @ [dest])"
    using links_append [of xs "[dest]" ?m] c d ends ne by (auto simp: m)
  then show "ring ?m dest xs"
    using ring_cut [of ?m dest "[]" xs] c d ends ne by (auto simp: m)
  show "ring ?m src []" by (simp add: ring_def m)
qed

text \<open>From an empty source the destination becomes a node in front of the source.\<close>

lemma listRetrieveAllItems_empty:
  assumes "ring m src []" and "dest \<noteq> src"
  shows "cnext (listRetrieveAllItems dest src m) dest = src"
    and "cprev (listRetrieveAllItems dest src m) dest = src"
    and "ring (listRetrieveAllItems dest src m) src []"
    and "\<not> isListEmpty dest (listRetrieveAllItems dest src m)"
  using assms by (simp_all add: listRetrieveAllItems_def clist_defs Let_def ring_def isListEmpty_def)

text \<open>\<open>listInsertList\<close>: the first link overwrites \<open>where->next\<close> and \<open>list->prev\<close>, which the
  second link reads.\<close>

lemma listInsertList_eq: "listInsertList l h m = list_link h l m"
  by (simp add: listInsertList_def Let_def list_link_def set_cnext_def set_cprev_def fun_upd_idem)

section \<open>The print loop\<close>

lemma print_loop_links:
  assumes "links m (es @ [h])" and "h \<notin> set es" and "0 < num"
  shows "print_loop h (hd (es @ [h])) num m = Some (length es)"
  using assms
proof (induction es)
  case Nil
  show ?case by (subst print_loop.simps) simp
next
  case (Cons e es)
  have l: "links m ([e] @ (es @ [h]))" using Cons.prems(1) by simp
  have "links m (es @ [h])" "cnext m e = hd (es @ [h])"
    using l links_append [of "[e]" "es @ [h]" m] by auto
  then show ?case using Cons by (subst print_loop.simps) auto
qed

lemma listPrintItems_ring:
  assumes "ring m h xs" and "0 < num"
  shows "listPrintItems h num m = Some (length xs)"
proof -
  have "links m (xs @ [h])" "h \<notin> set xs" using assms(1) ring_cut [of m h "[]" xs] by simp_all
  then show ?thesis
    using print_loop_links assms(2) ring_first [OF assms(1)] by (simp add: listPrintItems_def)
qed

end
