(* ===== verification/HashFuncs.thy ===== *)
theory HashFuncs
  imports FGPrelude
begin

text \<open>
  \<open>hashfuncs.hh\<close>: the hash and comparison functions.  Memory that a string lies in is a
  function from addresses to bytes.

  Lemmas: \<open>hashAddr\<close> is injective, so that two addresses collide only by the remainder that picks
  the bucket; \<open>hashString\<close> reads one byte more than \<open>compareString\<close> compares.
\<close>

section \<open>Functions\<close>

text \<open>\<open>char\<close> is signed: it is sign-extended before it is added.  The loop runs for
  \<open>i = 0, ..., (int) len\<close>.\<close>

fun hashString_loop :: "(addr \<Rightarrow> byte) \<Rightarrow> addr \<Rightarrow> nat \<Rightarrow> size_t \<Rightarrow> size_t" where
  "hashString_loop mem s 0 h = h"
| "hashString_loop mem s (Suc n) h = hashString_loop mem (s + 1) n (5 * h + scast (mem s))"

definition hashString :: "(addr \<Rightarrow> byte) \<Rightarrow> addr \<Rightarrow> size_t \<Rightarrow> size_t" where
  "hashString mem start len = hashString_loop mem start (nat (sint (ucast len :: u32) + 1)) 0"

definition hashInt :: "u32 \<Rightarrow> size_t \<Rightarrow> size_t" where "hashInt x len = scast x"
definition hashLong :: "64 word \<Rightarrow> size_t \<Rightarrow> size_t" where "hashLong x len = x"
definition hashUnsignedlong :: "64 word \<Rightarrow> size_t \<Rightarrow> size_t" where "hashUnsignedlong x len = x"

definition hashAddr :: "addr \<Rightarrow> size_t \<Rightarrow> size_t" where
  "hashAddr a len =
    (let key = a;
         key = key XOR (push_bit 15 key XOR 0xcd7dcd7d);
         key = key XOR drop_bit 10 key;
         key = key XOR push_bit 3 key;
         key = key XOR drop_bit 6 key;
         key = key XOR (push_bit 2 key + push_bit 14 key);
         key = key XOR drop_bit 16 key
     in key)"

text \<open>\<open>a i\<close> is the \<open>i\<close>th word of the array.\<close>

definition hashAddrs :: "(nat \<Rightarrow> 64 word) \<Rightarrow> size_t \<Rightarrow> size_t" where
  "hashAddrs a len = fold (\<lambda>i r. r XOR a i) [0..<unat len] (NOT 0)"

definition compareAddr :: "addr \<Rightarrow> addr \<Rightarrow> size_t \<Rightarrow> bool" where "compareAddr x y len \<longleftrightarrow> x = y"
definition compareInt :: "u32 \<Rightarrow> u32 \<Rightarrow> size_t \<Rightarrow> bool" where "compareInt x y len \<longleftrightarrow> x = y"

text \<open>\<open>strncmp (s, t, n) == 0\<close>.\<close>

fun strncmp_equal :: "(addr \<Rightarrow> byte) \<Rightarrow> addr \<Rightarrow> addr \<Rightarrow> nat \<Rightarrow> bool" where
  "strncmp_equal mem s t 0 \<longleftrightarrow> True"
| "strncmp_equal mem s t (Suc n) \<longleftrightarrow>
    mem s = mem t \<and> (mem s = 0 \<or> strncmp_equal mem (s + 1) (t + 1) n)"

definition compareString :: "(addr \<Rightarrow> byte) \<Rightarrow> addr \<Rightarrow> addr \<Rightarrow> size_t \<Rightarrow> bool" where
  "compareString mem s t len = strncmp_equal mem s t (unat len)"

section \<open>Injectivity of hashAddr\<close>

text \<open>A word can be read back from \<open>x XOR f x\<close> when every bit of \<open>f x\<close> depends on lower bits of \<open>x\<close>
  only, or on higher bits only.\<close>

lemma inj_xor_lower:
  fixes f :: "'a::len word \<Rightarrow> 'a word"
  assumes "\<And>x y i. i < LENGTH('a) \<Longrightarrow> (\<And>j. j < i \<Longrightarrow> bit x j = bit y j) \<Longrightarrow> bit (f x) i = bit (f y) i"
  shows "inj (\<lambda>x. x XOR f x)"
proof (rule injI)
  fix x y assume e: "x XOR f x = y XOR f y"
  have "i < LENGTH('a) \<longrightarrow> bit x i = bit y i" for i
  proof (induction i rule: less_induct)
    case (less i)
    show ?case
    proof
      assume i: "i < LENGTH('a)"
      then have "bit (f x) i = bit (f y) i" using less by (intro assms) auto
      moreover have "bit (x XOR f x) i = bit (y XOR f y) i" using e by simp
      ultimately show "bit x i = bit y i" by (auto simp: bit_xor_iff)
    qed
  qed
  then show "x = y" by (intro bit_word_eqI) simp
qed

lemma inj_xor_higher:
  fixes f :: "'a::len word \<Rightarrow> 'a word"
  assumes "\<And>x y i. i < LENGTH('a) \<Longrightarrow>
    (\<And>j. i < j \<Longrightarrow> j < LENGTH('a) \<Longrightarrow> bit x j = bit y j) \<Longrightarrow> bit (f x) i = bit (f y) i"
  shows "inj (\<lambda>x. x XOR f x)"
proof (rule injI)
  fix x y assume e: "x XOR f x = y XOR f y"
  have "i < LENGTH('a) \<longrightarrow> bit x i = bit y i" for i
  proof (induction "LENGTH('a) - i" arbitrary: i rule: less_induct)
    case less
    show ?case
    proof
      assume i: "i < LENGTH('a)"
      then have "bit (f x) i = bit (f y) i" using less by (intro assms) auto
      moreover have "bit (x XOR f x) i = bit (y XOR f y) i" using e by simp
      ultimately show "bit x i = bit y i" by (auto simp: bit_xor_iff)
    qed
  qed
  then show "x = y" by (intro bit_word_eqI) simp
qed

lemma inj_xor_drop: "0 < n \<Longrightarrow> inj (\<lambda>x :: 64 word. x XOR drop_bit n x)"
proof (rule inj_xor_higher)
  fix x y :: "64 word" and i
  assume n: "0 < n" and e: "\<And>j. i < j \<Longrightarrow> j < LENGTH(64) \<Longrightarrow> bit x j = bit y j"
  show "bit (drop_bit n x) i = bit (drop_bit n y) i"
  proof (cases "n + i < LENGTH(64)")
    case True
    then show ?thesis using n e [of "n + i"] by (simp add: bit_drop_bit_eq)
  next
    case False
    then show ?thesis using bit_imp_le_length [of x "n + i"] bit_imp_le_length [of y "n + i"]
      by (auto simp: bit_drop_bit_eq)
  qed
qed

lemma inj_xor_push: "0 < n \<Longrightarrow> inj (\<lambda>x :: 64 word. x XOR push_bit n x)"
  by (rule inj_xor_lower) (auto simp: bit_push_bit_iff)

lemma inj_xor_push_const: "0 < n \<Longrightarrow> inj (\<lambda>x :: 64 word. x XOR (push_bit n x XOR k))"
  by (rule inj_xor_lower) (auto simp: bit_push_bit_iff bit_xor_iff)

lemma take_bit_add_cong:
  fixes a b :: "64 word"
  assumes "take_bit n a = take_bit n a'" and "take_bit n b = take_bit n b'" and "n \<le> 64"
  shows "take_bit n (a + b) = take_bit n (a' + b')"
proof -
  have "(2::nat) ^ n dvd 2 ^ 64" by (rule le_imp_power_dvd [OF assms(3)])
  then have "unat (take_bit n (c + d)) = (unat (take_bit n c) + unat (take_bit n d)) mod 2 ^ n" for c d :: "64 word"
    unfolding unsigned_take_bit_eq unfolding take_bit_eq_mod unat_word_ariths(1)
    by (simp add: mod_mod_cancel mod_add_eq)
  from this [of a b] this [of a' b'] show ?thesis
    unfolding assms(1,2) by (simp add: word_unat_eq_iff)
qed

lemma inj_xor_sum:
  assumes "0 < m" and "0 < n"
  shows "inj (\<lambda>x :: 64 word. x XOR (push_bit m x + push_bit n x))"
proof (rule inj_xor_lower)
  fix x y :: "64 word" and i
  assume i: "i < LENGTH(64)" and e: "\<And>j. j < i \<Longrightarrow> bit x j = bit y j"
  have t: "take_bit i x = take_bit i y"
    by (rule bit_word_eqI) (use e in \<open>auto simp: bit_take_bit_iff\<close>)
  have p: "take_bit (Suc i) (push_bit k x) = take_bit (Suc i) (push_bit k y)" if "0 < k" for k
  proof -
    have "Suc i - k \<le> i" using that by simp
    then have "take_bit (Suc i - k) z = take_bit (Suc i - k) (take_bit i z)" for z :: "64 word"
      by (simp add: take_bit_take_bit min_absorb1)
    from this [of x] this [of y] have "take_bit (Suc i - k) x = take_bit (Suc i - k) y"
      unfolding t by (rule trans [OF _ sym])
    then show ?thesis unfolding take_bit_push_bit by (rule arg_cong)
  qed
  have "take_bit (Suc i) (push_bit m x + push_bit n x) = take_bit (Suc i) (push_bit m y + push_bit n y)"
    by (intro take_bit_add_cong p assms) (use i in simp)
  then have "bit (take_bit (Suc i) (push_bit m x + push_bit n x)) i
    = bit (take_bit (Suc i) (push_bit m y + push_bit n y)) i" by simp
  then show "bit (push_bit m x + push_bit n x) i = bit (push_bit m y + push_bit n y) i"
    by (simp add: bit_take_bit_iff)
qed

lemma inj_hashAddr: "inj (\<lambda>a. hashAddr a len)"
proof -
  have "(\<lambda>a. hashAddr a len) = (\<lambda>x. x XOR drop_bit 16 x) \<circ> (\<lambda>x. x XOR (push_bit 2 x + push_bit 14 x)) \<circ>
      (\<lambda>x. x XOR drop_bit 6 x) \<circ> (\<lambda>x. x XOR push_bit 3 x) \<circ> (\<lambda>x. x XOR drop_bit 10 x) \<circ>
      (\<lambda>x. x XOR (push_bit 15 x XOR 0xcd7dcd7d))"
    by (rule ext) (simp only: hashAddr_def Let_def o_apply)
  moreover have "inj \<dots>"
    by (intro inj_compose inj_xor_drop inj_xor_sum inj_xor_push inj_xor_push_const; simp only:)
  ultimately show ?thesis by (simp only:)
qed

section \<open>Strings\<close>

lemma hashString_loop_eq:
  "hashString_loop mem s n h = 5 ^ n * h + (\<Sum>i<n. 5 ^ (n - 1 - i) * scast (mem (s + of_nat i)))"
proof (induction n arbitrary: s h)
  case (Suc n)
  have "(\<Sum>i<Suc n. 5 ^ (n - i) * scast (mem (s + of_nat i)))
    = 5 ^ n * scast (mem s) + (\<Sum>i<n. 5 ^ (n - Suc i) * scast (mem (s + of_nat (Suc i))))"
    by (subst sum.lessThan_Suc_shift) simp
  from this [symmetric] show ?case unfolding hashString_loop.simps Suc.IH
    by (simp add: algebra_simps del: sum.lessThan_Suc)
qed simp

lemma strncmp_equal_refl [simp]: "strncmp_equal mem s s n"
  by (induction n arbitrary: s) auto

lemma strncmp_equal_iff:
  "strncmp_equal mem s t n \<longleftrightarrow>
    (\<forall>i<n. (\<forall>j<i. mem (s + of_nat j) \<noteq> 0) \<longrightarrow> mem (s + of_nat i) = mem (t + of_nat i))"
proof (induction n arbitrary: s t)
  case (Suc n)
  show ?case unfolding strncmp_equal.simps Suc All_less_Suc2 by (auto simp: algebra_simps)
qed simp

end
