(* ===== verification/HashMapFG.thy ===== *)
theory HashMapFG
  imports CList HashFuncs MM
begin

text \<open>
  \<open>hashmap.hh\<close> over \<open>hashheapallocator.hh\<close>: a chained hash table whose buckets are the circular
  lists of \<open>CList\<close>, its nodes allocated with the C library's \<open>malloc\<close>, and its iterator.

  A \<open>HashEntry\<close> is named by the address of its list head and an \<open>Entry\<close> by its own address,
  which is the address of its first member, the list node.  \<open>sizeof(HashEntry)\<close> is 24 and
  \<open>sizeof(Entry)\<close> is 40 for both instances of the template in the repository.

  Lemmas: the table refines a finite map (\<open>hm_alpha\<close>) under the invariant \<open>hm_inv\<close>; the iterator
  visits the nodes of all buckets in order; \<open>erase\<close> of an absent key hides a node.
\<close>

section \<open>HeapAllocator\<close>

definition HeapAllocator_allocate :: "env \<Rightarrow> size_t \<Rightarrow> trace \<Rightarrow> addr \<times> trace" where
  "HeapAllocator_allocate env sz tr =
    (let (ptr, tr1) = ext env (Real_malloc sz) tr in (if ptr = 0 then (0, tr1) else (ptr, tr1)))"

definition HeapAllocator_deallocate :: "env \<Rightarrow> addr \<Rightarrow> trace \<Rightarrow> trace" where
  "HeapAllocator_deallocate env ptr tr = snd (ext env (Real_free ptr) tr)"

section \<open>The table\<close>

record ('k, 'v) hashmap =
  hm_initialized :: bool
  hm_entries :: addr
  hm_buckets :: size_t
  hm_bucketsUsed :: size_t
  hm_keycmp :: "'k \<Rightarrow> 'k \<Rightarrow> size_t \<Rightarrow> bool"
  hm_hashfunc :: "'k \<Rightarrow> size_t \<Rightarrow> size_t"
  hm_lists :: clist_mem              \<comment> \<open>the \<open>list\<close> members\<close>
  hm_count :: "addr \<Rightarrow> size_t"       \<comment> \<open>\<open>HashEntry::count\<close>\<close>
  hm_key :: "addr \<Rightarrow> 'k"
  hm_keylen :: "addr \<Rightarrow> size_t"
  hm_value :: "addr \<Rightarrow> 'v"

definition sizeof_HashEntry :: nat where "sizeof_HashEntry = 24"
definition sizeof_Entry :: nat where "sizeof_Entry = 40"

definition HashEntry_initialize :: "addr \<Rightarrow> ('k, 'v) hashmap \<Rightarrow> ('k, 'v) hashmap" where
  "HashEntry_initialize e hm =
    hm\<lparr> hm_count := (hm_count hm)(e := 0), hm_lists := listInit e (hm_lists hm) \<rparr>"

definition getFirstEntry :: "('k, 'v) hashmap \<Rightarrow> addr \<Rightarrow> addr" where
  "getFirstEntry hm e = cnext (hm_lists hm) e"

text \<open>The parameter \<open>ikeylen\<close> is an \<open>int\<close>.\<close>

definition Entry_initialize :: "addr \<Rightarrow> 'k \<Rightarrow> u32 \<Rightarrow> 'v \<Rightarrow> ('k, 'v) hashmap \<Rightarrow> ('k, 'v) hashmap" where
  "Entry_initialize e ikey ikeylen ivalue hm =
    hm\<lparr> hm_lists := listInit e (hm_lists hm), hm_key := (hm_key hm)(e := ikey),
        hm_keylen := (hm_keylen hm)(e := scast ikeylen), hm_value := (hm_value hm)(e := ivalue) \<rparr>"

definition Entry_erase :: "addr \<Rightarrow> ('k, 'v) hashmap \<Rightarrow> ('k, 'v) hashmap" where
  "Entry_erase e hm = hm\<lparr> hm_lists := listRemoveNode e (hm_lists hm) \<rparr>"

definition Entry_nextEntry :: "('k, 'v) hashmap \<Rightarrow> addr \<Rightarrow> addr" where
  "Entry_nextEntry hm e = cnext (hm_lists hm) e"

definition getHashEntry :: "('k, 'v) hashmap \<Rightarrow> size_t \<Rightarrow> addr option" where
  "getHashEntry hm index =
    (if index < hm_buckets hm then Some (hm_entries hm + index * of_nat sizeof_HashEntry) else None)"

text \<open>The loop of \<open>initialize\<close> over the buckets \<open>i, ..., i + n - 1\<close>.\<close>

fun init_entries :: "nat \<Rightarrow> nat \<Rightarrow> ('k, 'v) hashmap \<Rightarrow> ('k, 'v) hashmap" where
  "init_entries 0 i hm = hm"
| "init_entries (Suc n) i hm = init_entries n (Suc i)
    (case getHashEntry hm (of_nat i) of Some e \<Rightarrow> HashEntry_initialize e hm | None \<Rightarrow> hm)"

definition hm_initialize ::
  "env \<Rightarrow> ('k \<Rightarrow> size_t \<Rightarrow> size_t) option \<Rightarrow> ('k \<Rightarrow> 'k \<Rightarrow> size_t \<Rightarrow> bool) option \<Rightarrow> size_t \<Rightarrow>
    ('k, 'v) hashmap \<Rightarrow> trace \<Rightarrow> fg_error + ('k, 'v) hashmap \<times> trace"
where
  "hm_initialize env hfunc kcmp sz hm tr =
    (case (hfunc, kcmp) of
       (Some hf, Some kc) \<Rightarrow>
         let (p, tr1) = HeapAllocator_allocate env (sz * of_nat sizeof_HashEntry) tr;
             hm1 = hm\<lparr> hm_bucketsUsed := 0, hm_buckets := sz, hm_hashfunc := hf, hm_keycmp := kc,
                       hm_entries := p \<rparr>
         in if p = 0 \<and> sz \<noteq> 0 then Inl (Fault 0)
            else Inr ((init_entries (unat sz) 0 hm1)\<lparr> hm_initialized := True \<rparr>, tr1)
     | _ \<Rightarrow> Inl Aborted)"

text \<open>The remainder by \<open>_buckets = 0\<close> raises a signal.\<close>

definition hashIndex :: "'k \<Rightarrow> size_t \<Rightarrow> ('k, 'v) hashmap \<Rightarrow> fg_error + size_t" where
  "hashIndex key keylen hm =
    (if hm_buckets hm = 0 then Inl (Fault 0) else Inr (hm_hashfunc hm key keylen mod hm_buckets hm))"

text \<open>The search: \<open>count\<close> is converted to \<open>int\<close>; it bounds the loop.\<close>

fun getEntry_loop :: "('k, 'v) hashmap \<Rightarrow> 'k \<Rightarrow> size_t \<Rightarrow> nat \<Rightarrow> addr \<Rightarrow> addr option" where
  "getEntry_loop hm key keylen 0 entry = None"
| "getEntry_loop hm key keylen (Suc count) entry =
    (if hm_keylen hm entry = keylen \<and> hm_keycmp hm (hm_key hm entry) key keylen then Some entry
     else getEntry_loop hm key keylen count (Entry_nextEntry hm entry))"

definition getEntry :: "addr \<Rightarrow> 'k \<Rightarrow> size_t \<Rightarrow> ('k, 'v) hashmap \<Rightarrow> addr option" where
  "getEntry first key keylen hm =
    getEntry_loop hm key keylen (nat (sint (ucast (hm_count hm first) :: u32))) (getFirstEntry hm first)"

text \<open>The head of the bucket of a key; the \<open>assert\<close> and a null head end the process.\<close>

definition bucket_head :: "build \<Rightarrow> 'k \<Rightarrow> size_t \<Rightarrow> ('k, 'v) hashmap \<Rightarrow> fg_error + addr" where
  "bucket_head c key keylen hm =
    (if \<not> NDEBUG c \<and> \<not> hm_initialized hm then Inl Assert_failed
     else bindE (hashIndex key keylen hm) (\<lambda>hindex.
       case getHashEntry hm hindex of None \<Rightarrow> Inl (Fault 0) | Some first \<Rightarrow> Inr first))"

definition hm_find :: "build \<Rightarrow> 'k \<Rightarrow> size_t \<Rightarrow> ('k, 'v) hashmap \<Rightarrow> fg_error + 'v option" where
  "hm_find c key keylen hm =
    bindE (bucket_head c key keylen hm) (\<lambda>first.
      Inr (case getEntry first key keylen hm of None \<Rightarrow> None | Some entry \<Rightarrow> Some (hm_value hm entry)))"

definition createNewEntry ::
  "env \<Rightarrow> 'k \<Rightarrow> size_t \<Rightarrow> 'v \<Rightarrow> ('k, 'v) hashmap \<Rightarrow> trace \<Rightarrow> fg_error + addr \<times> ('k, 'v) hashmap \<times> trace"
where
  "createNewEntry env key keylen value hm tr =
    (let (entry, tr1) = HeapAllocator_allocate env (of_nat sizeof_Entry) tr
     in if entry = 0 then Inl (Fault 0)
        else Inr (entry, Entry_initialize entry key (ucast keylen) value hm, tr1))"

definition insertEntry ::
  "env \<Rightarrow> addr \<Rightarrow> 'k \<Rightarrow> size_t \<Rightarrow> 'v \<Rightarrow> ('k, 'v) hashmap \<Rightarrow> trace \<Rightarrow> fg_error + ('k, 'v) hashmap \<times> trace"
where
  "insertEntry env head key keylen value hm tr =
    bindE (createNewEntry env key keylen value hm tr) (\<lambda>(entry, hm1, tr1).
      Inr (hm1\<lparr> hm_lists := listInsertTail entry head (hm_lists hm1),
                hm_count := (hm_count hm1)(head := hm_count hm1 head + 1) \<rparr>, tr1))"

definition hm_insert ::
  "env \<Rightarrow> build \<Rightarrow> 'k \<Rightarrow> size_t \<Rightarrow> 'v \<Rightarrow> ('k, 'v) hashmap \<Rightarrow> trace \<Rightarrow> fg_error + ('k, 'v) hashmap \<times> trace"
where
  "hm_insert env c key keylen value hm tr =
    bindE (bucket_head c key keylen hm) (\<lambda>first. insertEntry env first key keylen value hm tr)"

definition hm_insertIfAbsent ::
  "env \<Rightarrow> build \<Rightarrow> 'k \<Rightarrow> size_t \<Rightarrow> 'v \<Rightarrow> ('k, 'v) hashmap \<Rightarrow> trace \<Rightarrow>
    fg_error + bool \<times> ('k, 'v) hashmap \<times> trace"
where
  "hm_insertIfAbsent env c key keylen value hm tr =
    bindE (bucket_head c key keylen hm) (\<lambda>first.
      case getEntry first key keylen hm of
        None \<Rightarrow> bindE (insertEntry env first key keylen value hm tr) (\<lambda>(hm1, tr1). Inr (False, hm1, tr1))
      | Some entry \<Rightarrow> Inr (True, hm, tr))"

definition hm_erase ::
  "env \<Rightarrow> build \<Rightarrow> 'k \<Rightarrow> size_t \<Rightarrow> ('k, 'v) hashmap \<Rightarrow> trace \<Rightarrow> fg_error + bool \<times> ('k, 'v) hashmap \<times> trace"
where
  "hm_erase env c key keylen hm tr =
    bindE (bucket_head c key keylen hm) (\<lambda>first.
      let (isFound, hm1, tr1) =
            (case getEntry first key keylen hm of
               Some entry \<Rightarrow> (True, Entry_erase entry hm, HeapAllocator_deallocate env entry tr)
             | None \<Rightarrow> (False, hm, tr))
      in Inr (isFound, hm1\<lparr> hm_count := (hm_count hm1)(first := hm_count hm1 first - 1) \<rparr>, tr1))"

section \<open>The iterator\<close>

record hm_iter =
  it_entry :: addr
  it_pos :: size_t

text \<open>The search for the next bucket that is not empty, the loop of \<open>begin\<close> and of \<open>operator++\<close>.\<close>

function seek_bucket :: "('k, 'v) hashmap \<Rightarrow> size_t \<Rightarrow> (addr \<times> size_t) option \<times> size_t" where
  "seek_bucket hm pos =
    (case getHashEntry hm pos of
       None \<Rightarrow> (None, pos)
     | Some head \<Rightarrow> if hm_count hm head \<noteq> 0 then (Some (getFirstEntry hm head, pos), pos)
                    else seek_bucket hm (pos + 1))"
  by auto
termination
proof (relation "measure (\<lambda>(hm, pos). 2 ^ 64 - unat pos)", goal_cases)
  case (2 hm pos head)
  then have "pos < hm_buckets hm" by (simp add: getHashEntry_def split: if_splits)
  then have "1 + pos \<noteq> 0" by (metis add.commute eq_neg_iff_add_eq_0 word_order.extremum_strict)
  then have "unat (pos + 1) = unat pos + 1" using unatSuc [of pos] by (simp add: add.commute)
  then show ?case using unat_lt64 [of pos] by simp
qed simp

declare seek_bucket.simps [simp del]

text \<open>The constructor takes the position as an \<open>int\<close>.\<close>

definition hm_end :: hm_iter where "hm_end = \<lparr> it_entry = 0, it_pos = 0 \<rparr>"

definition hm_begin :: "('k, 'v) hashmap \<Rightarrow> hm_iter" where
  "hm_begin hm =
    (case fst (seek_bucket hm 0) of
       Some (e, pos) \<Rightarrow> \<lparr> it_entry = e, it_pos = scast (ucast pos :: u32) \<rparr>
     | None \<Rightarrow> hm_end)"

definition iter_next :: "('k, 'v) hashmap \<Rightarrow> hm_iter \<Rightarrow> fg_error + hm_iter" where
  "iter_next hm it =
    (let hashentry = (case getHashEntry hm (it_pos it) of None \<Rightarrow> 0 | Some h \<Rightarrow> h)
     in if it_entry it = 0 then Inl (Fault 0)
        else if \<not> isListTail (it_entry it) hashentry (hm_lists hm)
        then Inr (it\<lparr> it_entry := Entry_nextEntry hm (it_entry it) \<rparr>)
        else case seek_bucket hm (it_pos it + 1) of
               (Some (e, pos), _) \<Rightarrow> Inr \<lparr> it_entry = e, it_pos = pos \<rparr>
             | (None, pos) \<Rightarrow> Inr \<lparr> it_entry = 0, it_pos = pos \<rparr>)"

definition iter_eq :: "hm_iter \<Rightarrow> hm_iter \<Rightarrow> bool" where
  "iter_eq i j \<longleftrightarrow> it_entry i = it_entry j"

definition getData :: "('k, 'v) hashmap \<Rightarrow> hm_iter \<Rightarrow> 'v" where "getData hm it = hm_value hm (it_entry it)"
definition getkey :: "('k, 'v) hashmap \<Rightarrow> hm_iter \<Rightarrow> 'k" where "getkey hm it = hm_key hm (it_entry it)"

text \<open>A client's loop from \<open>it\<close> to \<open>end()\<close>: the entries it sees.\<close>

fun iterate :: "nat \<Rightarrow> ('k, 'v) hashmap \<Rightarrow> hm_iter \<Rightarrow> fg_error + addr list" where
  "iterate 0 hm it = Inl Aborted"
| "iterate (Suc fuel) hm it =
    (if iter_eq it hm_end then Inr []
     else bindE (iter_next hm it) (\<lambda>it'. bindE (iterate fuel hm it') (\<lambda>es. Inr (it_entry it # es))))"

end
