(* ===== verification/HashMapInv.thy ===== *)
theory HashMapInv
  imports HashMapFG
begin

text \<open>
  The hash table of \<open>hashmap.hh\<close> as a finite map: its invariant, the abstraction \<open>hm_alpha\<close>, and the
  refinement of every operation.
\<close>

section \<open>Buckets\<close>

definition bucket_count :: "('k, 'v) hashmap \<Rightarrow> nat" where
  "bucket_count hm = unat (hm_buckets hm)"

definition head :: "('k, 'v) hashmap \<Rightarrow> nat \<Rightarrow> addr" where
  "head hm i = hm_entries hm + of_nat i * of_nat sizeof_HashEntry"

definition key_index :: "('k, 'v) hashmap \<Rightarrow> 'k \<Rightarrow> size_t \<Rightarrow> nat" where
  "key_index hm k l = unat (hm_hashfunc hm k l mod hm_buckets hm)"

fun walk :: "(addr \<Rightarrow> addr) \<Rightarrow> nat \<Rightarrow> addr \<Rightarrow> addr list" where
  "walk nxt 0 p = []"
| "walk nxt (Suc n) p = p # walk nxt n (nxt p)"

text \<open>The entries that a search of bucket \<open>i\<close> looks at.\<close>

definition nodes :: "('k, 'v) hashmap \<Rightarrow> nat \<Rightarrow> addr list" where
  "nodes hm i = walk (cnext (hm_lists hm)) (unat (hm_count hm (head hm i))) (cnext (hm_lists hm) (head hm i))"

definition entry_matches :: "('k, 'v) hashmap \<Rightarrow> 'k \<Rightarrow> size_t \<Rightarrow> addr \<Rightarrow> bool" where
  "entry_matches hm k l x \<longleftrightarrow> hm_keylen hm x = l \<and> hm_key hm x = k"

definition hm_alpha :: "('k, 'v) hashmap \<Rightarrow> 'k \<times> size_t \<Rightarrow> 'v option" where
  "hm_alpha hm = (\<lambda>(k, l). map_option (hm_value hm)
     (List.find (entry_matches hm k l) (nodes hm (key_index hm k l))))"

lemma walk_links:
  "links m (x # xs @ [h]) \<Longrightarrow> walk (cnext m) (length xs) (cnext m x) = xs"
proof (induction xs arbitrary: x)
  case (Cons y ys)
  then show ?case by simp
qed simp

lemma walk_ring: "ring m h xs \<Longrightarrow> walk (cnext m) (length xs) (cnext m h) = xs"
  unfolding ring_def by (blast intro: walk_links)

lemma getEntry_loop_find:
  assumes "\<And>a b n. hm_keycmp hm a b n \<longleftrightarrow> a = b"
  shows "getEntry_loop hm k l n e = List.find (entry_matches hm k l) (walk (cnext (hm_lists hm)) n e)"
  by (induction n arbitrary: e) (simp_all add: assms entry_matches_def Entry_nextEntry_def)

section \<open>The invariant\<close>

definition bucket_ok :: "('k, 'v) hashmap \<Rightarrow> nat \<Rightarrow> addr list \<Rightarrow> bool" where
  "bucket_ok hm i xs \<longleftrightarrow>
    ring (hm_lists hm) (head hm i) xs \<and> hm_count hm (head hm i) = of_nat (length xs) \<and> length xs < 2 ^ 31 \<and>
    inj_on (\<lambda>x. (hm_key hm x, hm_keylen hm x)) (set xs) \<and>
    (\<forall>x\<in>set xs. x \<noteq> 0 \<and> x \<notin> head hm ` {..<bucket_count hm} \<and>
      key_index hm (hm_key hm x) (hm_keylen hm x) = i)"

definition hm_inv :: "('k, 'v) hashmap \<Rightarrow> bool" where
  "hm_inv hm \<longleftrightarrow> hm_initialized hm \<and> hm_buckets hm \<noteq> 0 \<and> (\<forall>a b n. hm_keycmp hm a b n \<longleftrightarrow> a = b) \<and>
    inj_on (head hm) {..<bucket_count hm} \<and> (\<forall>i<bucket_count hm. bucket_ok hm i (nodes hm i))"

lemma bucket_ok_nodes: "bucket_ok hm i xs \<Longrightarrow> nodes hm i = xs"
  by (simp add: bucket_ok_def nodes_def walk_ring unat_of_nat_less)

lemma hm_invI:
  assumes "hm_initialized hm" "hm_buckets hm \<noteq> 0" "\<And>a b n. hm_keycmp hm a b n \<longleftrightarrow> a = b"
    "inj_on (head hm) {..<bucket_count hm}" "\<And>i. i < bucket_count hm \<Longrightarrow> bucket_ok hm i (B i)"
  shows "hm_inv hm" and "i < bucket_count hm \<Longrightarrow> nodes hm i = B i"
proof -
  have *: "nodes hm i = B i" if "i < bucket_count hm" for i
    by (rule bucket_ok_nodes [OF assms(5) [OF that]])
  show "i < bucket_count hm \<Longrightarrow> nodes hm i = B i" by (rule *)
  show "hm_inv hm" unfolding hm_inv_def using assms(1-4) * assms(5) by simp
qed

lemma hm_invD:
  assumes "hm_inv hm"
  shows "hm_initialized hm" "hm_buckets hm \<noteq> 0" "\<And>a b n. hm_keycmp hm a b n \<longleftrightarrow> a = b"
    "inj_on (head hm) {..<bucket_count hm}" "\<And>i. i < bucket_count hm \<Longrightarrow> bucket_ok hm i (nodes hm i)"
  using assms unfolding hm_inv_def by auto

lemma key_index_less: "hm_buckets hm \<noteq> 0 \<Longrightarrow> key_index hm k l < bucket_count hm"
proof -
  assume "hm_buckets hm \<noteq> 0"
  then have "0 < hm_buckets hm" by (simp add: word_gt_0)
  from word_mod_less_divisor [OF this, of "hm_hashfunc hm k l"] show ?thesis
    unfolding key_index_def bucket_count_def word_less_nat_alt .
qed

lemma nodes_disjoint:
  assumes "bucket_ok hm i xs" and "bucket_ok hm j ys" and "i \<noteq> j"
  shows "set xs \<inter> set ys = {}"
proof -
  have "\<forall>x\<in>set xs. key_index hm (hm_key hm x) (hm_keylen hm x) = i"
    "\<forall>x\<in>set ys. key_index hm (hm_key hm x) (hm_keylen hm x) = j"
    using assms(1,2) by (simp_all add: bucket_ok_def)
  then show ?thesis using assms(3) by auto
qed

text \<open>The rings of two buckets share no cell.\<close>

lemma rings_apart:
  assumes "bucket_ok hm i xs" "bucket_ok hm j ys" "i \<noteq> j" "i < bucket_count hm" "j < bucket_count hm"
    and "inj_on (head hm) {..<bucket_count hm}"
  shows "set (head hm i # xs) \<inter> set (head hm j # ys) = {}"
proof -
  have "head hm i \<noteq> head hm j" using assms(3-6) by (auto dest: inj_onD)
  moreover have "\<forall>x\<in>set xs. x \<notin> head hm ` {..<bucket_count hm}" "\<forall>x\<in>set ys. x \<notin> head hm ` {..<bucket_count hm}"
    using assms(1,2) by (simp_all add: bucket_ok_def)
  then have "head hm i \<notin> set ys" "head hm j \<notin> set xs" using assms(4,5) by blast+
  ultimately show ?thesis using nodes_disjoint [OF assms(1-3)] by auto
qed

section \<open>Searching\<close>

lemma bucket_head_ok:
  assumes "hm_inv hm"
  shows "bucket_head c k l hm = Inr (head hm (key_index hm k l))"
proof -
  note I = hm_invD [OF assms]
  have "hm_hashfunc hm k l mod hm_buckets hm < hm_buckets hm"
    using key_index_less [OF I(2), of k l] by (simp add: key_index_def bucket_count_def word_less_nat_alt)
  then show ?thesis using I(1,2)
    by (simp add: bucket_head_def hashIndex_def getHashEntry_def head_def key_index_def)
qed

lemma getEntry_ok:
  assumes "hm_inv hm" and "i < bucket_count hm"
  shows "getEntry (head hm i) k l hm = List.find (entry_matches hm k l) (nodes hm i)"
proof -
  note I = hm_invD [OF assms(1)]
  have b: "ring (hm_lists hm) (head hm i) (nodes hm i)" "hm_count hm (head hm i) = of_nat (length (nodes hm i))"
    "length (nodes hm i) < 2 ^ 31" using I(5) [OF assms(2)] by (simp_all add: bucket_ok_def)
  have "ucast (hm_count hm (head hm i)) = (of_nat (length (nodes hm i)) :: u32)"
    unfolding b(2) using b(3) by (intro ucast_of_nat_less) simp
  then have "nat (sint (ucast (hm_count hm (head hm i)) :: u32)) = length (nodes hm i)"
    using sint_of_nat_less [of "length (nodes hm i)", where ?'a = 32] b(3) by simp
  then show ?thesis
    unfolding getEntry_def getFirstEntry_def using getEntry_loop_find [OF I(3)] walk_ring [OF b(1)] by simp
qed

theorem hm_find_ok:
  assumes "hm_inv hm"
  shows "hm_find c k l hm = Inr (hm_alpha hm (k, l))"
  unfolding hm_find_def bucket_head_ok [OF assms]
  using getEntry_ok [OF assms key_index_less [OF hm_invD(2) [OF assms]]]
  by (simp add: hm_alpha_def split: option.splits)

section \<open>Insertion\<close>

definition fresh_node :: "('k, 'v) hashmap \<Rightarrow> addr \<Rightarrow> bool" where
  "fresh_node hm p \<longleftrightarrow> p \<noteq> 0 \<and> p \<notin> head hm ` {..<bucket_count hm} \<and>
    (\<forall>i<bucket_count hm. p \<notin> set (nodes hm i))"

text \<open>The room for one more entry of the key: its length fits the \<open>int\<close> it is passed as, and
  its bucket is not at the limit of the search's \<open>int\<close> counter.\<close>

definition key_fits :: "('k, 'v) hashmap \<Rightarrow> 'k \<Rightarrow> size_t \<Rightarrow> bool" where
  "key_fits hm k l \<longleftrightarrow> scast (ucast l :: u32) = l \<and> Suc (length (nodes hm (key_index hm k l))) < 2 ^ 31"

definition inserted :: "'k \<Rightarrow> size_t \<Rightarrow> 'v \<Rightarrow> addr \<Rightarrow> ('k, 'v) hashmap \<Rightarrow> ('k, 'v) hashmap" where
  "inserted k l v p hm =
    (let h = head hm (key_index hm k l)
     in hm\<lparr> hm_lists := listInsertTail p h (listInit p (hm_lists hm)),
            hm_count := (hm_count hm)(h := hm_count hm h + 1), hm_key := (hm_key hm)(p := k),
            hm_keylen := (hm_keylen hm)(p := scast (ucast l :: u32)), hm_value := (hm_value hm)(p := v) \<rparr>)"

lemma insertEntry_eq:
  "insertEntry env (head hm (key_index hm k l)) k l v hm tr =
    (let tr1 = Real_malloc (of_nat sizeof_Entry) # tr
     in if env tr1 = 0 then Inl (Fault 0) else Inr (inserted k l v (env tr1) hm, tr1))"
  by (simp add: insertEntry_def createNewEntry_def HeapAllocator_allocate_def ext_def Entry_initialize_def
      inserted_def Let_def)

lemma inserted_same [simp]:
  "hm_buckets (inserted k l v p hm) = hm_buckets hm"
  "hm_initialized (inserted k l v p hm) = hm_initialized hm"
  "hm_keycmp (inserted k l v p hm) = hm_keycmp hm"
  "head (inserted k l v p hm) = head hm"
  "key_index (inserted k l v p hm) = key_index hm"
  "bucket_count (inserted k l v p hm) = bucket_count hm"
  by (simp_all add: inserted_def Let_def head_def key_index_def bucket_count_def fun_eq_iff)

lemma find_app: "List.find P (xs @ ys) = (case List.find P xs of None \<Rightarrow> List.find P ys | Some x \<Rightarrow> Some x)"
  by (induction xs) auto

lemma find_eqI: "(\<And>x. x \<in> set xs \<Longrightarrow> P x = Q x) \<Longrightarrow> List.find P xs = List.find Q xs"
  by (induction xs) auto

lemma absent_keys:
  "hm_alpha hm (k, l) = None \<longleftrightarrow>
    (\<forall>x\<in>set (nodes hm (key_index hm k l)). (hm_key hm x, hm_keylen hm x) \<noteq> (k, l))"
  by (auto simp: hm_alpha_def find_None_iff entry_matches_def)

lemma inserted_bucket_ok:
  assumes inv: "hm_inv hm" and p: "fresh_node hm p" and a: "hm_alpha hm (k, l) = None" and f: "key_fits hm k l"
    and i: "i < bucket_count hm"
  shows "bucket_ok (inserted k l v p hm) i (if i = key_index hm k l then nodes hm i @ [p] else nodes hm i)"
proof -
  note I = hm_invD [OF inv]
  let ?i = "key_index hm k l" and ?h = "head hm (key_index hm k l)" and ?m = "listInit p (hm_lists hm)"
  have i0: "?i < bucket_count hm" by (rule key_index_less [OF I(2)])
  note b0 = I(5) [OF i0, unfolded bucket_ok_def] and b = I(5) [OF i, unfolded bucket_ok_def]
  have pn: "p \<notin> set (head hm j # nodes hm j)" if "j < bucket_count hm" for j
    using p that by (auto simp: fresh_node_def)
  have r: "ring ?m (head hm j) (nodes hm j)" if "j < bucket_count hm" for j
  proof -
    have "ring (hm_lists hm) (head hm j) (nodes hm j)" using I(5) [OF that] by (simp add: bucket_ok_def)
    then show ?thesis
      by (subst ring_frame [where m = "hm_lists hm"]) (use pn [OF that] in \<open>auto simp: clist_defs\<close>)
  qed
  have l: "hm_lists (inserted k l v p hm) = listInsertTail p ?h ?m"
    "hm_count (inserted k l v p hm) = (hm_count hm)(?h := hm_count hm ?h + 1)"
    "hm_key (inserted k l v p hm) = (hm_key hm)(p := k)" "hm_keylen (inserted k l v p hm) = (hm_keylen hm)(p := l)"
    using f by (simp_all add: inserted_def Let_def key_fits_def)
  show ?thesis
  proof (cases "i = ?i")
    case True
    have "ring (listInsertTail p ?h ?m) ?h (nodes hm ?i @ [p])"
      by (rule listInsertTail_ring [OF r [OF i0] pn [OF i0]])
    moreover have "inj_on (\<lambda>x. (((hm_key hm)(p := k)) x, ((hm_keylen hm)(p := l)) x)) (set (nodes hm ?i)) =
        inj_on (\<lambda>x. (hm_key hm x, hm_keylen hm x)) (set (nodes hm ?i))"
      by (rule inj_on_cong) (use pn [OF i0] in auto)
    moreover have "(k, l) \<notin> (\<lambda>x. (((hm_key hm)(p := k)) x, ((hm_keylen hm)(p := l)) x)) ` set (nodes hm ?i)"
      using pn [OF i0] a unfolding absent_keys by (auto split: if_splits)
    moreover have "p \<noteq> 0" "p \<notin> head hm ` {..<bucket_count hm}" using p by (simp_all add: fresh_node_def)
    ultimately show ?thesis unfolding bucket_ok_def
      using True b0 f pn [OF i0] by (simp add: l key_fits_def add.commute)
  next
    case False
    have d: "set (?h # nodes hm ?i) \<inter> set (head hm i # nodes hm i) = {}"
      by (rule rings_apart [OF I(5) [OF i0] I(5) [OF i] False [symmetric] i0 i I(4)])
    have "ring (listInsertTail p ?h ?m) (head hm i) (nodes hm i) \<longleftrightarrow> ring ?m (head hm i) (nodes hm i)"
      by (rule ring_frame, rule listInsertTail_frame [OF r [OF i0]]) (use d pn [OF i] in auto)
    moreover have "inj_on (\<lambda>x. (((hm_key hm)(p := k)) x, ((hm_keylen hm)(p := l)) x)) (set (nodes hm i)) =
        inj_on (\<lambda>x. (hm_key hm x, hm_keylen hm x)) (set (nodes hm i))"
      by (rule inj_on_cong) (use pn [OF i] in auto)
    moreover have "head hm i \<noteq> ?h" using d by auto
    ultimately show ?thesis unfolding bucket_ok_def
      using False b r [OF i] pn [OF i] by (auto simp: l)
  qed
qed

lemma inserted_inv:
  assumes "hm_inv hm" and "fresh_node hm p" and "hm_alpha hm (k, l) = None" and "key_fits hm k l"
  shows "hm_inv (inserted k l v p hm)"
    and "i < bucket_count hm \<Longrightarrow>
      nodes (inserted k l v p hm) i = (if i = key_index hm k l then nodes hm i @ [p] else nodes hm i)"
proof -
  let ?B = "\<lambda>i. if i = key_index hm k l then nodes hm i @ [p] else nodes hm i"
  have *: "bucket_ok (inserted k l v p hm) i (?B i)" if "i < bucket_count hm" for i
    by (rule inserted_bucket_ok [OF assms that])
  note I = hm_invD [OF assms(1)]
  show "hm_inv (inserted k l v p hm)" by (rule hm_invI(1) [of _ ?B]) (simp_all add: I * del: fun_upd_apply)
  show "i < bucket_count hm \<Longrightarrow> nodes (inserted k l v p hm) i = ?B i" by (rule bucket_ok_nodes [OF *])
qed

lemma inserted_alpha:
  assumes "hm_inv hm" and "fresh_node hm p" and "hm_alpha hm (k, l) = None" and "key_fits hm k l"
  shows "hm_alpha (inserted k l v p hm) = (hm_alpha hm)((k, l) \<mapsto> v)"
proof
  fix x :: "'a \<times> size_t"
  obtain k' l' where x: "x = (k', l')" by fastforce
  let ?j = "key_index hm k' l'" and ?hm = "inserted k l v p hm"
  have j: "?j < bucket_count hm" by (rule key_index_less [OF hm_invD(2) [OF assms(1)]])
  have pn: "p \<notin> set (nodes hm ?j)" using assms(2) j by (simp add: fresh_node_def)
  have f: "List.find (entry_matches ?hm k' l') (nodes hm ?j) = List.find (entry_matches hm k' l') (nodes hm ?j)"
    by (rule find_eqI) (use pn in \<open>auto simp: entry_matches_def inserted_def Let_def\<close>)
  have v: "hm_value ?hm y = (if y = p then v else hm_value hm y)" for y by (simp add: inserted_def Let_def)
  have m: "entry_matches ?hm k' l' p \<longleftrightarrow> (k', l') = (k, l)"
    using assms(4) by (auto simp: entry_matches_def inserted_def Let_def key_fits_def)
  show "hm_alpha ?hm x = ((hm_alpha hm)((k, l) \<mapsto> v)) x"
  proof (cases "(k', l') = (k, l)")
    case True
    then have "List.find (entry_matches hm k' l') (nodes hm ?j) = None"
      using assms(3) by (simp add: hm_alpha_def)
    then show ?thesis using inserted_inv(2) [OF assms j, of v] f m True
      by (simp add: hm_alpha_def x find_app v)
  next
    case False
    have "\<not> entry_matches ?hm k' l' p" using m False by blast
    then have "List.find (entry_matches ?hm k' l') (nodes ?hm ?j) = List.find (entry_matches hm k' l') (nodes hm ?j)"
      unfolding inserted_inv(2) [OF assms j, of v] f [symmetric] find_app
      by (cases "?j = key_index hm k l"; cases "List.find (entry_matches ?hm k' l') (nodes hm ?j)")
        (simp_all add: find_app)
    moreover have "map_option (hm_value ?hm) w = map_option (hm_value hm) w"
      if w: "List.find (entry_matches hm k' l') (nodes hm ?j) = w" for w
    proof (cases w)
      case (Some y)
      then have "y \<in> set (nodes hm ?j)" using w by (auto simp: find_Some_iff)
      then show ?thesis using Some pn by (auto simp: v)
    qed simp
    ultimately show ?thesis using False by (auto simp: hm_alpha_def x)
  qed
qed

section \<open>Removal\<close>

definition erased :: "nat \<Rightarrow> addr \<Rightarrow> ('k, 'v) hashmap \<Rightarrow> ('k, 'v) hashmap" where
  "erased i e hm = hm\<lparr> hm_lists := listRemoveNode e (hm_lists hm),
     hm_count := (hm_count hm)(head hm i := hm_count hm (head hm i) - 1) \<rparr>"

lemma erased_same [simp]:
  "hm_buckets (erased i e hm) = hm_buckets hm" "hm_initialized (erased i e hm) = hm_initialized hm"
  "hm_keycmp (erased i e hm) = hm_keycmp hm" "hm_key (erased i e hm) = hm_key hm"
  "hm_keylen (erased i e hm) = hm_keylen hm" "hm_value (erased i e hm) = hm_value hm"
  "head (erased i e hm) = head hm" "key_index (erased i e hm) = key_index hm"
  "bucket_count (erased i e hm) = bucket_count hm" "entry_matches (erased i e hm) = entry_matches hm"
  by (simp_all add: erased_def head_def key_index_def bucket_count_def entry_matches_def fun_eq_iff)

lemma erased_bucket_ok:
  assumes inv: "hm_inv hm" and i: "i < bucket_count hm" and n: "nodes hm i = ys @ e # zs" and j: "j < bucket_count hm"
  shows "bucket_ok (erased i e hm) j (if j = i then ys @ zs else nodes hm j)"
proof -
  note I = hm_invD [OF inv]
  note bi = I(5) [OF i] and bj = I(5) [OF j]
  have r: "ring (hm_lists hm) (head hm i) (ys @ e # zs)" using bi n by (simp add: bucket_ok_def)
  have l: "hm_lists (erased i e hm) = listRemoveNode e (hm_lists hm)"
    "hm_count (erased i e hm) = (hm_count hm)(head hm i := hm_count hm (head hm i) - 1)"
    by (simp_all add: erased_def)
  show ?thesis
  proof (cases "j = i")
    case True
    have "inj_on (\<lambda>x. (hm_key hm x, hm_keylen hm x)) (set (ys @ zs))"
      using bi n by (auto simp: bucket_ok_def intro: inj_on_subset)
    then show ?thesis
      using True bi n listRemoveNode_ring(1) [OF r] unfolding bucket_ok_def by (simp add: l)
  next
    case False
    have d: "set (head hm i # nodes hm i) \<inter> set (head hm j # nodes hm j) = {}"
      by (rule rings_apart [OF bi bj False [symmetric] i j I(4)])
    have "ring (listRemoveNode e (hm_lists hm)) (head hm j) (nodes hm j) \<longleftrightarrow> ring (hm_lists hm) (head hm j) (nodes hm j)"
      by (rule ring_frame, rule listRemoveNode_frame [OF r]) (use d n in auto)
    moreover have "head hm j \<noteq> head hm i" using d by auto
    ultimately show ?thesis using False bj unfolding bucket_ok_def by (simp add: l)
  qed
qed

lemma erased_inv:
  assumes "hm_inv hm" and "i < bucket_count hm" and "nodes hm i = ys @ e # zs"
  shows "hm_inv (erased i e hm)"
    and "j < bucket_count hm \<Longrightarrow> nodes (erased i e hm) j = (if j = i then ys @ zs else nodes hm j)"
proof -
  let ?B = "\<lambda>j. if j = i then ys @ zs else nodes hm j"
  have *: "bucket_ok (erased i e hm) j (?B j)" if "j < bucket_count hm" for j
    by (rule erased_bucket_ok [OF assms that])
  note I = hm_invD [OF assms(1)]
  show "hm_inv (erased i e hm)" by (rule hm_invI(1) [of _ ?B]) (simp_all add: I *)
  show "j < bucket_count hm \<Longrightarrow> nodes (erased i e hm) j = ?B j" by (rule bucket_ok_nodes [OF *])
qed

lemma erased_alpha:
  assumes inv: "hm_inv hm" and n: "nodes hm (key_index hm k l) = ys @ e # zs" and e: "entry_matches hm k l e"
  shows "hm_alpha (erased (key_index hm k l) e hm) = (hm_alpha hm)((k, l) := None)"
proof
  fix x :: "'a \<times> size_t"
  obtain k' l' where x: "x = (k', l')" by fastforce
  let ?i = "key_index hm k l" and ?j = "key_index hm k' l'"
  note I = hm_invD [OF inv]
  have ij: "?i < bucket_count hm" "?j < bucket_count hm" by (rule key_index_less [OF I(2)])+
  note N = erased_inv(2) [OF inv ij(1) n ij(2)]
  note b = I(5) [OF ij(1), unfolded bucket_ok_def ring_def]
  have inj: "inj_on (\<lambda>x. (hm_key hm x, hm_keylen hm x)) (set (nodes hm ?i))" using b by (elim conjE)
  have "distinct (nodes hm ?i)" using b by simp
  then have dis: "distinct (ys @ e # zs)" unfolding n .
  show "hm_alpha (erased ?i e hm) x = ((hm_alpha hm)((k, l) := None)) x"
  proof (cases "(k', l') = (k, l)")
    case True
    have "\<not> entry_matches hm k l y" if "y \<in> set (ys @ zs)" for y
      using that inj_onD [OF inj, of y e] e dis n by (auto simp: entry_matches_def)
    then have "List.find (entry_matches hm k l) (ys @ zs) = None" by (auto simp: find_None_iff)
    then show ?thesis using N True by (simp add: hm_alpha_def x)
  next
    case False
    then have "\<not> entry_matches hm k' l' e" using e by (auto simp: entry_matches_def)
    then have "List.find (entry_matches hm k' l') (if ?j = ?i then ys @ zs else nodes hm ?j)
      = List.find (entry_matches hm k' l') (nodes hm ?j)"
      using n by (cases "?j = ?i"; cases "List.find (entry_matches hm k' l') ys") (simp_all add: find_app)
    then show ?thesis using N False by (auto simp: hm_alpha_def x)
  qed
qed

section \<open>The operations\<close>

lemma hm_insert_ok:
  assumes "hm_inv hm" and "hm_alpha hm (k, l) = None" and "key_fits hm k l"
    and "fresh_node hm (env (Real_malloc (of_nat sizeof_Entry) # tr))"
  defines "tr1 \<equiv> Real_malloc (of_nat sizeof_Entry) # tr"
  shows "hm_insert env c k l v hm tr = Inr (inserted k l v (env tr1) hm, tr1)"
    and "hm_inv (inserted k l v (env tr1) hm)"
    and "hm_alpha (inserted k l v (env tr1) hm) = (hm_alpha hm)((k, l) \<mapsto> v)"
  unfolding hm_insert_def bucket_head_ok [OF assms(1)] bindE_simps insertEntry_eq tr1_def
  using assms(4) inserted_inv(1) [OF assms(1,4,2,3)] inserted_alpha [OF assms(1,4,2,3)]
  by (simp_all add: Let_def fresh_node_def)

lemma getEntry_alpha:
  assumes "hm_inv hm"
  shows "map_option (hm_value hm) (getEntry (head hm (key_index hm k l)) k l hm) = hm_alpha hm (k, l)"
  using getEntry_ok [OF assms key_index_less [OF hm_invD(2) [OF assms]]] by (simp add: hm_alpha_def)

lemma hm_insertIfAbsent_absent:
  assumes "hm_inv hm" and "hm_alpha hm (k, l) = None" and "key_fits hm k l"
    and "fresh_node hm (env (Real_malloc (of_nat sizeof_Entry) # tr))"
  defines "tr1 \<equiv> Real_malloc (of_nat sizeof_Entry) # tr"
  shows "hm_insertIfAbsent env c k l v hm tr = Inr (False, inserted k l v (env tr1) hm, tr1)"
  using getEntry_alpha [OF assms(1), of k l] assms(2,4)
  by (simp add: hm_insertIfAbsent_def bucket_head_ok [OF assms(1)] insertEntry_eq tr1_def Let_def fresh_node_def)

lemma hm_insertIfAbsent_present:
  assumes "hm_inv hm" and "hm_alpha hm (k, l) = Some w"
  shows "hm_insertIfAbsent env c k l v hm tr = Inr (True, hm, tr)"
  using getEntry_alpha [OF assms(1), of k l] assms(2)
  by (auto simp: hm_insertIfAbsent_def bucket_head_ok [OF assms(1)])

lemma hm_erase_ok:
  assumes "hm_inv hm" and "hm_alpha hm (k, l) = Some w"
  shows "\<exists>e hm'. hm_erase env c k l hm tr = Inr (True, hm', Real_free e # tr) \<and> hm_inv hm' \<and>
    e \<in> set (nodes hm (key_index hm k l)) \<and> hm_value hm e = w \<and> hm_alpha hm' = (hm_alpha hm)((k, l) := None)"
proof -
  let ?i = "key_index hm k l"
  have i: "?i < bucket_count hm" by (rule key_index_less [OF hm_invD(2) [OF assms(1)]])
  obtain e where e: "getEntry (head hm ?i) k l hm = Some e" "hm_value hm e = w"
    using getEntry_alpha [OF assms(1), of k l] assms(2) by auto
  then have f: "List.find (entry_matches hm k l) (nodes hm ?i) = Some e" using getEntry_ok [OF assms(1) i] by simp
  then have m: "e \<in> set (nodes hm ?i)" "entry_matches hm k l e" by (auto simp: find_Some_iff)
  obtain ys zs where n: "nodes hm ?i = ys @ e # zs" using split_list [OF m(1)] by blast
  have "hm_erase env c k l hm tr = Inr (True, erased ?i e hm, Real_free e # tr)"
    unfolding hm_erase_def bucket_head_ok [OF assms(1)] bindE_simps e(1)
    by (simp add: Entry_erase_def erased_def HeapAllocator_deallocate_def ext_def)
  then show ?thesis using erased_inv(1) [OF assms(1) i n] erased_alpha [OF assms(1) n m(2)] m(1) e(2) by blast
qed

text \<open>\<open>erase\<close> of an absent key decreases the counter of its bucket all the same.\<close>

definition shortened :: "nat \<Rightarrow> ('k, 'v) hashmap \<Rightarrow> ('k, 'v) hashmap" where
  "shortened i hm = hm\<lparr> hm_count := (hm_count hm)(head hm i := hm_count hm (head hm i) - 1) \<rparr>"

lemma hm_erase_absent:
  assumes "hm_inv hm" and "hm_alpha hm (k, l) = None"
  shows "hm_erase env c k l hm tr = Inr (False, shortened (key_index hm k l) hm, tr)"
  using getEntry_alpha [OF assms(1), of k l] assms(2)
  by (simp add: hm_erase_def bucket_head_ok [OF assms(1)] shortened_def)

text \<open>The last entry of a non-empty bucket is then out of reach of every search.\<close>

lemma shortened_find:
  assumes inv: "hm_inv hm" and i: "i < bucket_count hm" and n: "nodes hm i = xs @ [x]"
  shows "hm_find c (hm_key hm x) (hm_keylen hm x) (shortened i hm) = Inr None"
proof -
  note I = hm_invD [OF inv]
  let ?hm = "shortened i hm" and ?k = "hm_key hm x" and ?l = "hm_keylen hm x"
  have b: "ring (hm_lists hm) (head hm i) (xs @ [x])" "hm_count hm (head hm i) = of_nat (Suc (length xs))"
    "Suc (length xs) < 2 ^ 31" "inj_on (\<lambda>x. (hm_key hm x, hm_keylen hm x)) (set (xs @ [x]))" "key_index hm ?k ?l = i"
    using I(5) [OF i] n by (simp_all add: bucket_ok_def)
  have e: "key_index ?hm = key_index hm" "head ?hm = head hm" "hm_lists ?hm = hm_lists hm"
    "hm_count ?hm (head hm i) = of_nat (length xs)" "entry_matches ?hm = entry_matches hm" "bucket_count ?hm = bucket_count hm"
    "hm_buckets ?hm = hm_buckets hm" "hm_keycmp ?hm = hm_keycmp hm" "hm_initialized ?hm"
    using b(2) I(1) by (simp_all add: shortened_def key_index_def head_def entry_matches_def bucket_count_def fun_eq_iff)
  have hd: "bucket_head c ?k ?l ?hm = Inr (head hm i)"
  proof -
    have "bucket_head c ?k ?l ?hm = bucket_head c ?k ?l hm"
      by (simp add: bucket_head_def hashIndex_def getHashEntry_def shortened_def)
    then show ?thesis using bucket_head_ok [OF inv, of c ?k ?l] b(5) by simp
  qed
  have "ucast (of_nat (length xs) :: size_t) = (of_nat (length xs) :: u32)"
    using b(3) by (intro ucast_of_nat_less) simp
  then have cnt: "nat (sint (ucast (hm_count ?hm (head hm i)) :: u32)) = length xs"
    using sint_of_nat_less [of "length xs", where ?'a = 32] b(3) e(4) by simp
  have "walk (cnext (hm_lists hm)) (length xs) (cnext (hm_lists hm) (head hm i)) = xs"
    by (rule walk_links [of _ _ _ x]) (use b(1) links_append [of "head hm i # xs" "[x]" "hm_lists hm"]
      links_append [of "head hm i # xs @ [x]" "[head hm i]" "hm_lists hm"] in \<open>auto simp: ring_def\<close>)
  moreover have "List.find (entry_matches hm ?k ?l) xs = None"
  proof -
    have "x \<notin> set xs" using b(1) by (auto simp: ring_def)
    then have "\<not> entry_matches hm ?k ?l y" if "y \<in> set xs" for y
      using that inj_onD [OF b(4), of y x] by (auto simp: entry_matches_def)
    then show ?thesis by (auto simp: find_None_iff)
  qed
  ultimately show ?thesis
    unfolding hm_find_def hd bindE_simps getEntry_def getFirstEntry_def cnt
    using getEntry_loop_find [of ?hm ?k ?l] I(3) e by simp
qed

section \<open>Initialisation\<close>

definition empty_bucket :: "('k, 'v) hashmap \<Rightarrow> nat \<Rightarrow> bool" where
  "empty_bucket hm i \<longleftrightarrow> ring (hm_lists hm) (head hm i) [] \<and> hm_count hm (head hm i) = 0"

lemma empty_bucket_ok: "empty_bucket hm i \<Longrightarrow> bucket_ok hm i []"
  by (simp add: empty_bucket_def bucket_ok_def)

lemma HashEntry_initialize_same [simp]:
  "head (HashEntry_initialize e hm) = head hm" "hm_buckets (HashEntry_initialize e hm) = hm_buckets hm"
  "hm_entries (HashEntry_initialize e hm) = hm_entries hm"
  "hm_keycmp (HashEntry_initialize e hm) = hm_keycmp hm" "hm_hashfunc (HashEntry_initialize e hm) = hm_hashfunc hm"
  by (simp_all add: HashEntry_initialize_def head_def fun_eq_iff)

lemma init_entries_same:
  "hm_buckets (init_entries n i hm) = hm_buckets hm" "hm_entries (init_entries n i hm) = hm_entries hm"
  "hm_keycmp (init_entries n i hm) = hm_keycmp hm" "hm_hashfunc (init_entries n i hm) = hm_hashfunc hm"
  by (induction n arbitrary: i hm) (auto split: option.splits)

lemma empty_bucket_step:
  "empty_bucket (HashEntry_initialize (head hm i) hm) i"
  "empty_bucket hm j \<Longrightarrow> empty_bucket (HashEntry_initialize (head hm i) hm) j"
  by (auto simp: empty_bucket_def HashEntry_initialize_def head_def clist_defs ring_def)

lemma getHashEntry_head: "i < bucket_count hm \<Longrightarrow> getHashEntry hm (of_nat i) = Some (head hm i)"
proof -
  assume i: "i < bucket_count hm"
  then have "(of_nat i :: size_t) < hm_buckets hm"
    using unat_lt64 [of "hm_buckets hm"] by (simp add: bucket_count_def word_less_nat_alt unat_of_nat_less)
  then show ?thesis by (simp add: getHashEntry_def head_def)
qed

lemma init_entries_empty:
  "i + n \<le> bucket_count hm \<Longrightarrow> (\<And>j. j < i \<Longrightarrow> empty_bucket hm j) \<Longrightarrow> j < i + n \<Longrightarrow>
    empty_bucket (init_entries n i hm) j"
proof (induction n arbitrary: i hm)
  case (Suc n)
  let ?hm = "HashEntry_initialize (head hm i) hm"
  have i: "i < bucket_count hm" using Suc.prems(1) by simp
  have "empty_bucket ?hm j" if "j < Suc i" for j
  proof (cases "j = i")
    case True
    then show ?thesis using empty_bucket_step(1) by blast
  next
    case False
    then show ?thesis using empty_bucket_step(2) [of hm j i] Suc.prems(2) [of j] that by simp
  qed
  then have "empty_bucket (init_entries n (Suc i) ?hm) j"
    using Suc.prems by (intro Suc.IH) (simp_all add: bucket_count_def)
  then show ?case using getHashEntry_head [OF i] by simp
qed simp

lemma head_inj:
  assumes "unat (hm_entries hm) + sizeof_HashEntry * bucket_count hm < 2 ^ 64"
  shows "inj_on (head hm) {..<bucket_count hm}"
proof (rule inj_onI)
  fix i j assume ij: "i \<in> {..<bucket_count hm}" "j \<in> {..<bucket_count hm}" and e: "head hm i = head hm j"
  have lt: "x * sizeof_HashEntry < 2 ^ 64" if "x < bucket_count hm" for x
    using that assms by (simp add: sizeof_HashEntry_def)
  have "hm_entries hm + of_nat (i * sizeof_HashEntry) = hm_entries hm + of_nat (j * sizeof_HashEntry)"
    using e by (simp add: head_def)
  from offset_eqD [OF this] show "i = j" using ij lt by (simp add: sizeof_HashEntry_def)
qed

lemma hm_initialize_ok:
  assumes "env (Real_malloc (sz * of_nat sizeof_HashEntry) # tr) = p" and "p \<noteq> 0" and "sz \<noteq> 0"
    and "unat p + sizeof_HashEntry * unat sz < 2 ^ 64" and "\<And>a b n. kc a b n \<longleftrightarrow> a = b"
  shows "\<exists>hm'. hm_initialize env (Some hf) (Some kc) sz hm tr
      = Inr (hm', Real_malloc (sz * of_nat sizeof_HashEntry) # tr) \<and>
    hm_inv hm' \<and> hm_alpha hm' = Map.empty \<and> hm_hashfunc hm' = hf \<and> bucket_count hm' = unat sz \<and>
    (\<forall>i<unat sz. nodes hm' i = []) \<and> hm_entries hm' = p"
proof -
  let ?hm1 = "hm\<lparr> hm_bucketsUsed := 0, hm_buckets := sz, hm_hashfunc := hf, hm_keycmp := kc, hm_entries := p \<rparr>"
  let ?hm = "(init_entries (unat sz) 0 ?hm1)\<lparr> hm_initialized := True \<rparr>"
  have r: "hm_initialize env (Some hf) (Some kc) sz hm tr = Inr (?hm, Real_malloc (sz * of_nat sizeof_HashEntry) # tr)"
    using assms(1,2) by (simp add: hm_initialize_def HeapAllocator_allocate_def ext_def)
  have same: "hm_buckets ?hm = sz" "hm_entries ?hm = p" "hm_keycmp ?hm = kc" "hm_hashfunc ?hm = hf"
    "bucket_count ?hm = unat sz" by (simp_all add: init_entries_same bucket_count_def)
  have b: "bucket_ok ?hm i []" if "i < unat sz" for i
  proof (rule empty_bucket_ok)
    have "empty_bucket (init_entries (unat sz) 0 ?hm1) i"
      by (rule init_entries_empty) (use that in \<open>simp_all add: bucket_count_def\<close>)
    then show "empty_bucket ?hm i" by (simp add: empty_bucket_def head_def)
  qed
  have "inj_on (head ?hm) {..<bucket_count ?hm}"
    by (rule head_inj) (simp only: same assms(4))
  then have "hm_inv ?hm" by (intro hm_invI(1) [where B = "\<lambda>_. []"]) (use assms(3,5) same b in simp_all)
  moreover have n: "nodes ?hm i = []" if "i < unat sz" for i by (rule bucket_ok_nodes [OF b [OF that]])
  moreover have "hm_alpha ?hm = Map.empty"
  proof
    fix x :: "'a \<times> size_t"
    obtain k l where x: "x = (k, l)" by fastforce
    have "key_index ?hm k l < unat sz" using key_index_less [of ?hm k l] assms(3) same by simp
    then show "hm_alpha ?hm x = None" using n by (simp add: hm_alpha_def x)
  qed
  ultimately show ?thesis using r same by blast
qed

end
