(* ===== verification/HashMapIter.thy ===== *)
theory HashMapIter
  imports HashMapInv
begin

text \<open>
  The iterator of \<open>hashmap.hh\<close> visits the entries of all buckets, each once, bucket by bucket.
  The locale \<open>dictionary\<close> is what a user of the table relies on; the table is its
  interpretation.
\<close>

section \<open>Seeking the next bucket\<close>

lemma scast_ucast_small: "j < 2 ^ 31 \<Longrightarrow> scast (ucast (of_nat j :: size_t) :: u32) = (of_nat j :: size_t)"
proof -
  assume j: "j < 2 ^ 31"
  then have "(ucast (of_nat j :: size_t) :: u32) = of_nat j" by (intro ucast_of_nat_less) simp
  moreover have "sint (of_nat j :: u32) = int j" using j by (intro sint_of_nat_less) simp
  ultimately show ?thesis by (simp add: scast_eq)
qed

lemma bucket_empty_iff:
  assumes "bucket_ok hm j (nodes hm j)"
  shows "hm_count hm (head hm j) = 0 \<longleftrightarrow> nodes hm j = []"
    and "nodes hm j \<noteq> [] \<Longrightarrow> getFirstEntry hm (head hm j) = hd (nodes hm j)"
proof -
  let ?xs = "nodes hm j"
  have b: "ring (hm_lists hm) (head hm j) ?xs" "hm_count hm (head hm j) = of_nat (length ?xs)" "length ?xs < 2 ^ 31"
    using assms by (simp_all add: bucket_ok_def)
  have "(of_nat (length ?xs) :: size_t) = of_nat 0 \<longleftrightarrow> length ?xs = 0"
    using b(3) by (intro of_nat_eq_word_iff) simp_all
  then show "hm_count hm (head hm j) = 0 \<longleftrightarrow> ?xs = []" unfolding b(2) by simp
  show "?xs \<noteq> [] \<Longrightarrow> getFirstEntry hm (head hm j) = hd ?xs"
    using ring_first [OF b(1)] by (simp add: getFirstEntry_def)
qed

lemma seek_bucket_eq:
  assumes inv: "hm_inv hm"
  shows "i \<le> bucket_count hm \<Longrightarrow> seek_bucket hm (of_nat i) =
    (case dropWhile (\<lambda>j. nodes hm j = []) [i..<bucket_count hm] of
       [] \<Rightarrow> (None, of_nat (bucket_count hm))
     | j # _ \<Rightarrow> (Some (hd (nodes hm j), of_nat j), of_nat j))"
proof (induction "bucket_count hm - i" arbitrary: i)
  case 0
  then have "i = bucket_count hm" by simp
  then have "getHashEntry hm (of_nat i) = None" by (simp add: getHashEntry_def bucket_count_def)
  then show ?case using \<open>i = bucket_count hm\<close> by (subst seek_bucket.simps) simp
next
  case (Suc n)
  then have i: "i < bucket_count hm" by simp
  note b = bucket_empty_iff [OF hm_invD(5) [OF inv i]]
  have u: "[i..<bucket_count hm] = i # [Suc i..<bucket_count hm]" using i by (simp add: upt_conv_Cons)
  have IH: "seek_bucket hm (of_nat (Suc i)) =
    (case dropWhile (\<lambda>j. nodes hm j = []) [Suc i..<bucket_count hm] of
       [] \<Rightarrow> (None, of_nat (bucket_count hm))
     | j # _ \<Rightarrow> (Some (hd (nodes hm j), of_nat j), of_nat j))"
    using Suc i by (intro Suc.hyps(1)) simp_all
  have s: "(of_nat i :: size_t) + 1 = of_nat (Suc i)" by simp
  show ?case
  proof (cases "nodes hm i = []")
    case True
    then have c: "hm_count hm (head hm i) = 0" using b(1) by blast
    have "seek_bucket hm (of_nat i) = seek_bucket hm (of_nat (Suc i))"
      by (subst seek_bucket.simps) (simp add: getHashEntry_head [OF i] c s)
    then show ?thesis unfolding u IH using True by simp
  next
    case False
    then show ?thesis
      unfolding u by (subst seek_bucket.simps) (simp add: getHashEntry_head [OF i] b)
  qed
qed

section \<open>The visit\<close>

definition all_nodes :: "('k, 'v) hashmap \<Rightarrow> addr list" where
  "all_nodes hm = concat (map (nodes hm) [0..<bucket_count hm])"

lemma concat_skip: "concat (map f (dropWhile (\<lambda>j. f j = []) js)) = concat (map f js)"
  by (induction js) auto

lemma dropWhile_upt:
  assumes "dropWhile P [i..<n] = j # js"
  shows "i \<le> j" "j < n" "js = [Suc j..<n]" "\<not> P j"
proof -
  have d: "[i + length (takeWhile P [i..<n])..<n] = j # js"
    using assms unfolding dropWhile_eq_drop drop_upt .
  then show "i \<le> j" "j < n" "js = [Suc j..<n]" by (auto simp: upt_eq_Cons_conv)
  show "\<not> P j" using assms by (auto simp: dropWhile_eq_Cons_conv)
qed

lemma iterate_step:
  assumes inv: "hm_inv hm" and j: "j < bucket_count hm"
    and n: "nodes hm j = ys @ x # zs" and f: "length (zs @ concat (map (nodes hm) [Suc j..<bucket_count hm])) < fuel"
  shows "iterate (Suc fuel) hm \<lparr> it_entry = x, it_pos = of_nat j \<rparr>
    = Inr (x # zs @ concat (map (nodes hm) [Suc j..<bucket_count hm]))"
  using assms(2-)
proof (induction fuel arbitrary: j ys x zs)
  case (Suc fuel)
  note j = Suc.prems(1) and n = Suc.prems(2)
  note b = hm_invD(5) [OF inv j, unfolded bucket_ok_def]
  have r: "ring (hm_lists hm) (head hm j) (ys @ x # zs)" using b n by simp
  have x: "x \<noteq> 0" using b n by simp
  have nxt: "cnext (hm_lists hm) x = hd (zs @ [head hm j])" using r ring_cut [of "hm_lists hm" "head hm j" "ys @ [x]" zs] by simp
  let ?it = "\<lparr> it_entry = x, it_pos = of_nat j \<rparr>" and ?rest = "concat (map (nodes hm) [Suc j..<bucket_count hm])"
  have step: "iterate (Suc (Suc fuel)) hm ?it
      = bindE (iter_next hm ?it) (\<lambda>it'. bindE (iterate (Suc fuel) hm it') (\<lambda>es. Inr (x # es)))"
    using x by (simp add: iter_eq_def hm_end_def)
  show ?case
  proof (cases zs)
    case (Cons z zs')
    have "iter_next hm ?it = Inr \<lparr> it_entry = z, it_pos = of_nat j \<rparr>"
      using isListTail_ring [OF r] getHashEntry_head [OF j] x nxt Cons
      by (simp add: iter_next_def Entry_nextEntry_def)
    moreover have "iterate (Suc fuel) hm \<lparr> it_entry = z, it_pos = of_nat j \<rparr> = Inr (z # zs' @ ?rest)"
      using Suc.IH [OF j, of "ys @ [x]" z zs'] n Suc.prems(3) Cons by simp
    ultimately show ?thesis unfolding step using Cons by simp
  next
    case Nil
    have i: "Suc j \<le> bucket_count hm" using j by simp
    have s: "(of_nat j :: size_t) + 1 = of_nat (Suc j)" by simp
    have next_it: "iter_next hm ?it = (case seek_bucket hm (of_nat (Suc j)) of
        (Some (e, pos), _) \<Rightarrow> Inr \<lparr> it_entry = e, it_pos = pos \<rparr> | (None, pos) \<Rightarrow> Inr \<lparr> it_entry = 0, it_pos = pos \<rparr>)"
      using isListTail_ring [OF r] getHashEntry_head [OF j] x Nil unfolding s [symmetric] by (simp add: iter_next_def)
    let ?d = "dropWhile (\<lambda>j. nodes hm j = []) [Suc j..<bucket_count hm]"
    show ?thesis
    proof (cases ?d)
      case d: Nil
      then have "?rest = []" using concat_skip [of "nodes hm" "[Suc j..<bucket_count hm]"] by simp
      moreover have "iter_next hm ?it = Inr \<lparr> it_entry = 0, it_pos = of_nat (bucket_count hm) \<rparr>"
        unfolding next_it seek_bucket_eq [OF inv i] d by simp
      ultimately show ?thesis unfolding step by (simp add: iter_eq_def hm_end_def Nil)
    next
      case d: (Cons j' js)
      note u = dropWhile_upt [OF d]
      obtain y zs' where n': "nodes hm j' = y # zs'" using u(4) by (cases "nodes hm j'") auto
      have rest: "?rest = y # zs' @ concat (map (nodes hm) [Suc j'..<bucket_count hm])"
        using concat_skip [of "nodes hm" "[Suc j..<bucket_count hm]"] unfolding d u(3) by (simp add: n')
      have "iter_next hm ?it = Inr \<lparr> it_entry = y, it_pos = of_nat j' \<rparr>"
        unfolding next_it seek_bucket_eq [OF inv i] d by (simp add: n')
      moreover have "iterate (Suc fuel) hm \<lparr> it_entry = y, it_pos = of_nat j' \<rparr> = Inr ?rest"
        unfolding rest by (rule Suc.IH [OF u(2), of "[]"]) (use n' Suc.prems(3) rest in simp_all)
      ultimately show ?thesis unfolding step by (simp add: Nil)
    qed
  qed
qed simp

lemma iterate_all:
  assumes inv: "hm_inv hm" and b: "bucket_count hm < 2 ^ 31" and f: "length (all_nodes hm) < fuel"
  shows "iterate fuel hm (hm_begin hm) = Inr (all_nodes hm)"
proof -
  obtain f' where f': "fuel = Suc f'" using f by (cases fuel) auto
  let ?d = "dropWhile (\<lambda>j. nodes hm j = []) [0..<bucket_count hm]"
  have s: "seek_bucket hm 0 = (case ?d of [] \<Rightarrow> (None, of_nat (bucket_count hm))
     | j # _ \<Rightarrow> (Some (hd (nodes hm j), of_nat j), of_nat j))"
    using seek_bucket_eq [OF inv, of 0] by simp
  show ?thesis
  proof (cases ?d)
    case Nil
    then have "all_nodes hm = []" using concat_skip [of "nodes hm" "[0..<bucket_count hm]"] by (simp add: all_nodes_def)
    then show ?thesis unfolding hm_begin_def s Nil f' by (simp add: iter_eq_def hm_end_def)
  next
    case (Cons j js)
    note u = dropWhile_upt [OF Cons]
    obtain y zs where n: "nodes hm j = y # zs" using u(4) by (cases "nodes hm j") auto
    have all: "all_nodes hm = y # zs @ concat (map (nodes hm) [Suc j..<bucket_count hm])"
      using concat_skip [of "nodes hm" "[0..<bucket_count hm]"] unfolding Cons u(3) all_nodes_def by (simp add: n)
    have "hm_begin hm = \<lparr> it_entry = y, it_pos = of_nat j \<rparr>"
      unfolding hm_begin_def s Cons using scast_ucast_small [of j] u(2) b by (simp add: n)
    then show ?thesis unfolding f' all using iterate_step [OF inv u(2), of "[]" y zs f'] n f all f' by simp
  qed
qed

section \<open>The interface of the table\<close>

locale dictionary =
  fixes inv :: "'s \<Rightarrow> bool" and lookup :: "'s \<Rightarrow> 'k \<Rightarrow> 'v option" and ready :: "'s \<Rightarrow> 'k \<Rightarrow> 'n \<Rightarrow> bool"
    and ins :: "'k \<Rightarrow> 'v \<Rightarrow> 'n \<Rightarrow> 's \<Rightarrow> 's" and del :: "'k \<Rightarrow> 's \<Rightarrow> 's"
  assumes ins_inv: "inv s \<Longrightarrow> lookup s k = None \<Longrightarrow> ready s k n \<Longrightarrow> inv (ins k v n s)"
    and ins_lookup: "inv s \<Longrightarrow> lookup s k = None \<Longrightarrow> ready s k n \<Longrightarrow> lookup (ins k v n s) = (lookup s)(k \<mapsto> v)"
    and del_inv: "inv s \<Longrightarrow> inv (del k s)"
    and del_lookup: "inv s \<Longrightarrow> lookup (del k s) = (lookup s)(k := None)"
begin

lemma ins_del:
  assumes "inv s" and "lookup s k = None" and "ready s k n"
  shows "inv (del k (ins k v n s))" and "lookup (del k (ins k v n s)) = lookup s"
  using del_inv [OF ins_inv [OF assms]] del_lookup [OF ins_inv [OF assms]] ins_lookup [OF assms] assms(2)
  by (auto simp: fun_eq_iff)

lemma del_twice: "inv s \<Longrightarrow> lookup (del k (del k s)) = lookup (del k s)"
  by (simp add: del_lookup del_inv)

lemma dom_ins: "inv s \<Longrightarrow> lookup s k = None \<Longrightarrow> ready s k n \<Longrightarrow> dom (lookup (ins k v n s)) = insert k (dom (lookup s))"
  by (simp add: ins_lookup)

lemma dom_del: "inv s \<Longrightarrow> dom (lookup (del k s)) = dom (lookup s) - {k}"
  by (simp add: del_lookup)

end

definition hm_del :: "'k \<times> size_t \<Rightarrow> ('k, 'v) hashmap \<Rightarrow> ('k, 'v) hashmap" where
  "hm_del = (\<lambda>(k, l) hm. case getEntry (head hm (key_index hm k l)) k l hm of
     None \<Rightarrow> hm | Some e \<Rightarrow> erased (key_index hm k l) e hm)"

lemma hm_del_ok:
  assumes "hm_inv hm"
  shows "hm_inv (hm_del (k, l) hm)" and "hm_alpha (hm_del (k, l) hm) = (hm_alpha hm)((k, l) := None)"
proof -
  let ?i = "key_index hm k l"
  have i: "?i < bucket_count hm" by (rule key_index_less [OF hm_invD(2) [OF assms]])
  note g = getEntry_ok [OF assms i, of k l]
  have "hm_inv (hm_del (k, l) hm) \<and> hm_alpha (hm_del (k, l) hm) = (hm_alpha hm)((k, l) := None)"
  proof (cases "getEntry (head hm ?i) k l hm")
    case None
    then have "hm_alpha hm (k, l) = None" using g by (simp add: hm_alpha_def)
    then show ?thesis using None assms by (auto simp: hm_del_def)
  next
    case (Some e)
    then have m: "e \<in> set (nodes hm ?i)" "entry_matches hm k l e" using g by (auto simp: find_Some_iff)
    obtain ys zs where n: "nodes hm ?i = ys @ e # zs" using split_list [OF m(1)] by blast
    show ?thesis using erased_inv(1) [OF assms i n] erased_alpha [OF assms n m(2)] Some by (simp add: hm_del_def)
  qed
  then show "hm_inv (hm_del (k, l) hm)" "hm_alpha (hm_del (k, l) hm) = (hm_alpha hm)((k, l) := None)" by simp_all
qed

interpretation hmap: dictionary hm_inv hm_alpha "\<lambda>hm (k, l) p. fresh_node hm p \<and> key_fits hm k l"
    "\<lambda>(k, l) v p hm. inserted k l v p hm" hm_del
  by unfold_locales (auto simp: inserted_inv(1) inserted_alpha hm_del_ok)

end
