(* ===== verification/BigHeap.thy ===== *)
theory BigHeap
  imports HashMapIter
begin

text \<open>
  \<open>bigheap.hh\<close>: large objects, each in a mapping of its own, found by a hash table from the
  address of the object to its \<open>bigObjectStatus\<close> record.

  The fields of the status records are functions of the record's address.  The global lock is not
  modelled: the operations run one at a time.  Lemmas: the invariant \<open>big_inv\<close>, what each operation
  does to the map of the live large objects (\<open>big_objects\<close>), and the placement of an object at
  the end of its pages.
\<close>

section \<open>State and operations\<close>

record bigheap =
  xmap :: "(addr, addr) hashmap"
  ob_start :: "addr \<Rightarrow> addr"
  ob_size :: "addr \<Rightarrow> size_t"
  ob_pageUpSize :: "addr \<Rightarrow> size_t"
  big_calls :: trace

definition sizeof_bigObjectStatus :: nat where "sizeof_bigObjectStatus = 24"
definition sizeof_pointer :: size_t where "sizeof_pointer = 8"

definition initBigHeap :: "env \<Rightarrow> bigheap \<Rightarrow> fg_error + bigheap" where
  "initBigHeap env bh =
    bindE (hm_initialize env (Some hashAddr) (Some compareAddr) (of_nat THREAD_MAP_SIZE) (xmap bh) (big_calls bh))
      (\<lambda>(hm, tr). Inr (bh\<lparr> xmap := hm, big_calls := tr \<rparr>))"

definition allocateAtBigHeap :: "env \<Rightarrow> build \<Rightarrow> size_t \<Rightarrow> bigheap \<Rightarrow> fg_error + addr \<times> bigheap" where
  "allocateAtBigHeap env c sz bh =
    (if \<not> NDEBUG c \<and> \<not> IF_CANARY_CONDITION c sz then Inl Assert_failed
     else
       let pageUpSize = alignup sz PageSize;
           diff = pageUpSize - sz;
           (objStatus, tr1) = HeapAllocator_allocate env (of_nat sizeof_bigObjectStatus) (big_calls bh)
       in bindE (mmapAllocatePrivate env pageUpSize tr1) (\<lambda>(ptr, tr2).
            let objStartPtr = ptr + diff
            in bindE (hm_insert env c objStartPtr sizeof_pointer objStatus (xmap bh) tr2) (\<lambda>(hm, tr3).
                 if objStatus = 0 then Inl (Fault 0)
                 else Inr (objStartPtr,
                   bh\<lparr> xmap := hm, ob_start := (ob_start bh)(objStatus := ptr),
                       ob_pageUpSize := (ob_pageUpSize bh)(objStatus := pageUpSize),
                       ob_size := (ob_size bh)(objStatus := sz), big_calls := tr3 \<rparr>))))"

text \<open>\<open>return -1\<close> in a function of type \<open>size_t\<close>.\<close>

definition big_getObjectSize :: "build \<Rightarrow> addr \<Rightarrow> bigheap \<Rightarrow> fg_error + size_t" where
  "big_getObjectSize c a bh =
    bindE (hm_find c a sizeof_pointer (xmap bh)) (\<lambda>r.
      case r of None \<Rightarrow> Inr (- 1) | Some objStatus \<Rightarrow> Inr (ob_size bh objStatus))"

definition isLargeObject :: "build \<Rightarrow> addr \<Rightarrow> bigheap \<Rightarrow> fg_error + bool" where
  "isLargeObject c a bh = bindE (hm_find c a sizeof_pointer (xmap bh)) (\<lambda>r. Inr (r \<noteq> None))"

definition deallocateToBigHeap :: "env \<Rightarrow> build \<Rightarrow> addr \<Rightarrow> bigheap \<Rightarrow> fg_error + bigheap" where
  "deallocateToBigHeap env c ptr bh =
    bindE (hm_find c ptr sizeof_pointer (xmap bh)) (\<lambda>r.
      case r of
        None \<Rightarrow> Inl (Invalid_big_free ptr)
      | Some objStatus \<Rightarrow>
          bindE (hm_erase env c ptr sizeof_pointer (xmap bh) (big_calls bh)) (\<lambda>(isFound, hm, tr1).
            let tr2 = mmapDeallocate env (ob_start bh objStatus) (ob_pageUpSize bh objStatus) tr1;
                tr3 = HeapAllocator_deallocate env objStatus tr2
            in Inr (bh\<lparr> xmap := hm, big_calls := tr3 \<rparr>)))"

section \<open>Invariant\<close>

definition big_objects :: "bigheap \<Rightarrow> addr \<Rightarrow> addr option" where
  "big_objects bh a = hm_alpha (xmap bh) (a, sizeof_pointer)"

text \<open>The abstract view: the live large objects with the sizes that were asked for.\<close>

definition big_sizes :: "bigheap \<Rightarrow> addr \<Rightarrow> size_t option" where
  "big_sizes bh a = map_option (ob_size bh) (big_objects bh a)"

definition big_inv :: "bigheap \<Rightarrow> bool" where
  "big_inv bh \<longleftrightarrow> hm_inv (xmap bh) \<and> inj_on (big_objects bh) (dom (big_objects bh)) \<and>
    (\<forall>a ob. big_objects bh a = Some ob \<longrightarrow> ob \<noteq> 0 \<and> ob_pageUpSize bh ob = alignup (ob_size bh ob) PageSize \<and>
      a = ob_start bh ob + (ob_pageUpSize bh ob - ob_size bh ob))"

lemma big_invD:
  assumes "big_inv bh"
  shows "hm_inv (xmap bh)" "inj_on (big_objects bh) (dom (big_objects bh))"
    "big_objects bh a = Some ob \<Longrightarrow> ob \<noteq> 0"
    "big_objects bh a = Some ob \<Longrightarrow> ob_pageUpSize bh ob = alignup (ob_size bh ob) PageSize"
    "big_objects bh a = Some ob \<Longrightarrow> ob_start bh ob + (ob_pageUpSize bh ob - ob_size bh ob) = a"
  using assms unfolding big_inv_def by (blast, blast, blast, blast, metis)

text \<open>What the C library and the kernel have to give for a request of \<open>sz\<close> bytes: a status record
  that is not in use, a mapping, and a fresh table entry; the object's address must be new.\<close>

definition big_status :: "env \<Rightarrow> bigheap \<Rightarrow> addr" where
  "big_status env bh = env (Real_malloc (of_nat sizeof_bigObjectStatus) # big_calls bh)"

definition big_mapped :: "env \<Rightarrow> size_t \<Rightarrow> bigheap \<Rightarrow> trace" where
  "big_mapped env sz bh =
    private_map (alignup sz PageSize) # Real_malloc (of_nat sizeof_bigObjectStatus) # big_calls bh"

definition big_addr :: "env \<Rightarrow> size_t \<Rightarrow> bigheap \<Rightarrow> addr" where
  "big_addr env sz bh = env (big_mapped env sz bh) + (alignup sz PageSize - sz)"

definition big_ready :: "env \<Rightarrow> size_t \<Rightarrow> bigheap \<Rightarrow> bool" where
  "big_ready env sz bh \<longleftrightarrow>
    big_status env bh \<noteq> 0 \<and> big_status env bh \<notin> ran (big_objects bh) \<and> env (big_mapped env sz bh) \<noteq> MAP_FAILED \<and>
    big_objects bh (big_addr env sz bh) = None \<and>
    fresh_node (xmap bh) (env (Real_malloc (of_nat sizeof_Entry) # big_mapped env sz bh)) \<and>
    key_fits (xmap bh) (big_addr env sz bh) sizeof_pointer"

definition big_allocated :: "env \<Rightarrow> size_t \<Rightarrow> bigheap \<Rightarrow> bigheap" where
  "big_allocated env sz bh =
    (let ob = big_status env bh; tr = Real_malloc (of_nat sizeof_Entry) # big_mapped env sz bh
     in bh\<lparr> xmap := inserted (big_addr env sz bh) sizeof_pointer ob (env tr) (xmap bh),
            ob_start := (ob_start bh)(ob := env (big_mapped env sz bh)),
            ob_pageUpSize := (ob_pageUpSize bh)(ob := alignup sz PageSize),
            ob_size := (ob_size bh)(ob := sz), big_calls := tr \<rparr>)"

lemma initBigHeap_ok:
  assumes "env (Real_malloc (of_nat (THREAD_MAP_SIZE * sizeof_HashEntry)) # big_calls bh) = p" and "p \<noteq> 0"
    and "unat p + sizeof_HashEntry * THREAD_MAP_SIZE < 2 ^ 64"
  shows "\<exists>bh'. initBigHeap env bh = Inr bh' \<and> big_inv bh' \<and> big_sizes bh' = Map.empty \<and>
    big_calls bh' = Real_malloc (of_nat (THREAD_MAP_SIZE * sizeof_HashEntry)) # big_calls bh \<and>
    hm_entries (xmap bh') = p \<and> hm_hashfunc (xmap bh') = hashAddr \<and> bucket_count (xmap bh') = THREAD_MAP_SIZE \<and>
    (\<forall>i<THREAD_MAP_SIZE. nodes (xmap bh') i = [])"
proof -
  have u: "unat (of_nat THREAD_MAP_SIZE :: size_t) = THREAD_MAP_SIZE" "(of_nat THREAD_MAP_SIZE :: size_t) \<noteq> 0"
    by (simp_all add: THREAD_MAP_SIZE_def)
  have e: "env (Real_malloc (of_nat THREAD_MAP_SIZE * of_nat sizeof_HashEntry) # big_calls bh) = p"
    using assms(1) by simp
  obtain hm where hm: "hm_initialize env (Some hashAddr) (Some compareAddr) (of_nat THREAD_MAP_SIZE) (xmap bh) (big_calls bh)
      = Inr (hm, Real_malloc (of_nat (THREAD_MAP_SIZE * sizeof_HashEntry)) # big_calls bh)"
    "hm_inv hm" "hm_alpha hm = Map.empty" "bucket_count hm = THREAD_MAP_SIZE" "hm_entries hm = p"
    "hm_hashfunc hm = hashAddr" "\<forall>i<THREAD_MAP_SIZE. nodes hm i = []"
    using hm_initialize_ok [where env = env and tr = "big_calls bh" and kc = compareAddr and hf = hashAddr
        and hm = "xmap bh", OF e assms(2) u(2)] assms(3)
    unfolding u by (auto simp: compareAddr_def)
  define tr where "tr = Real_malloc (of_nat (THREAD_MAP_SIZE * sizeof_HashEntry)) # big_calls bh"
  define bh1 where "bh1 = bh\<lparr> xmap := hm, big_calls := tr \<rparr>"
  have r: "initBigHeap env bh = Inr bh1" by (simp add: initBigHeap_def hm(1) bh1_def tr_def)
  have o: "big_objects bh1 = Map.empty" by (simp add: big_objects_def hm(3) fun_eq_iff bh1_def)
  then have s: "big_sizes bh1 = Map.empty" by (simp add: big_sizes_def fun_eq_iff)
  have i: "big_inv bh1" unfolding big_inv_def o using hm(2) by (simp add: bh1_def)
  have "xmap bh1 = hm" "big_calls bh1 = tr" by (simp_all add: bh1_def)
  then show ?thesis using r s i hm(4-7) unfolding tr_def by (intro exI [of _ bh1]) (simp only: simp_thms)
qed

section \<open>Allocation\<close>

lemma allocateAtBigHeap_ok:
  assumes inv: "big_inv bh" and r: "big_ready env sz bh" and c: "NDEBUG c \<or> IF_CANARY_CONDITION c sz"
  shows "allocateAtBigHeap env c sz bh = Inr (big_addr env sz bh, big_allocated env sz bh)"
    and "big_objects (big_allocated env sz bh) = (big_objects bh)(big_addr env sz bh \<mapsto> big_status env bh)"
    and "big_inv (big_allocated env sz bh)"
proof -
  let ?a = "big_addr env sz bh" and ?ob = "big_status env bh" and ?tr2 = "big_mapped env sz bh"
  let ?bh = "big_allocated env sz bh"
  have hi: "hm_inv (xmap bh)" using inv by (simp add: big_inv_def)
  note R = r [unfolded big_ready_def]
  have absent: "hm_alpha (xmap bh) (?a, sizeof_pointer) = None" using R by (simp add: big_objects_def)
  have kf: "key_fits (xmap bh) ?a sizeof_pointer" and fr: "fresh_node (xmap bh) (env (Real_malloc (of_nat sizeof_Entry) # ?tr2))"
    using R by blast+
  note ins = hm_insert_ok [where env = env and tr = ?tr2, OF hi absent kf fr]
  have ma: "mmapAllocatePrivate env (alignup sz PageSize) (Real_malloc (of_nat sizeof_bigObjectStatus) # big_calls bh)
      = Inr (env ?tr2, ?tr2)"
    using R by (simp add: mmapAllocatePrivate_eq Let_def big_mapped_def)
  show "allocateAtBigHeap env c sz bh = Inr (?a, ?bh)"
  proof -
    have "(if env (Real_malloc (of_nat sizeof_bigObjectStatus) # big_calls bh) = 0
       then (0, Real_malloc (of_nat sizeof_bigObjectStatus) # big_calls bh)
       else (env (Real_malloc (of_nat sizeof_bigObjectStatus) # big_calls bh), Real_malloc (of_nat sizeof_bigObjectStatus) # big_calls bh))
      = (?ob, Real_malloc (of_nat sizeof_bigObjectStatus) # big_calls bh)" by (simp add: big_status_def)
    then show ?thesis
      using c R ins(1) [of c ?ob] unfolding allocateAtBigHeap_def HeapAllocator_allocate_def ext_def Let_def
      by (auto simp: ma big_addr_def [symmetric] big_allocated_def Let_def)
  qed
  show ob: "big_objects ?bh = (big_objects bh)(?a \<mapsto> ?ob)"
    using ins(3) by (auto simp: big_objects_def big_allocated_def Let_def fun_eq_iff)
  have st: "ob_start ?bh = (ob_start bh)(?ob := env ?tr2)" "ob_pageUpSize ?bh = (ob_pageUpSize bh)(?ob := alignup sz PageSize)"
    "ob_size ?bh = (ob_size bh)(?ob := sz)" "hm_inv (xmap ?bh)"
    using ins(2) by (simp_all add: big_allocated_def Let_def)
  have ran: "?ob \<noteq> 0" "?ob \<notin> ran (big_objects bh)" "big_objects bh ?a = None" using R by blast+
  show "big_inv ?bh" unfolding big_inv_def
  proof (intro conjI st(4))
    have old: "inj_on (big_objects bh) (dom (big_objects bh))" using inv by (simp add: big_inv_def)
    show "inj_on (big_objects ?bh) (dom (big_objects ?bh))"
    proof (rule inj_onI)
      fix x y assume d: "x \<in> dom (big_objects ?bh)" "y \<in> dom (big_objects ?bh)" and e: "big_objects ?bh x = big_objects ?bh y"
      show "x = y"
      proof (rule ccontr)
        assume "x \<noteq> y"
        then have "x \<noteq> ?a" "y \<noteq> ?a" using e ran(2) unfolding ob by (auto simp: ran_def split: if_splits)
        then show False using inj_onD [OF old, of x y] d e \<open>x \<noteq> y\<close> unfolding ob by (auto simp: dom_def)
      qed
    qed
    have a: "?a = env ?tr2 + (alignup sz PageSize - sz)" by (simp add: big_addr_def)
    show "\<forall>a ob. big_objects ?bh a = Some ob \<longrightarrow> ob \<noteq> 0 \<and> ob_pageUpSize ?bh ob = alignup (ob_size ?bh ob) PageSize \<and>
      a = ob_start ?bh ob + (ob_pageUpSize ?bh ob - ob_size ?bh ob)"
    proof (intro allI impI)
      fix x y assume xy: "big_objects ?bh x = Some y"
      show "y \<noteq> 0 \<and> ob_pageUpSize ?bh y = alignup (ob_size ?bh y) PageSize \<and>
          x = ob_start ?bh y + (ob_pageUpSize ?bh y - ob_size ?bh y)"
      proof (cases "x = ?a")
        case True
        then have "y = ?ob" using xy by (simp add: ob)
        then show ?thesis unfolding st True a using ran(1) by simp
      next
        case False
        then have o: "big_objects bh x = Some y" using xy by (simp add: ob)
        then have "y \<noteq> ?ob" using ran(2) by (auto simp: ran_def)
        then show ?thesis unfolding st using big_invD(3-5) [OF inv] o by simp
      qed
    qed
  qed
qed

lemma big_sizes_allocated:
  assumes "big_inv bh" and "big_ready env sz bh" and "NDEBUG c \<or> IF_CANARY_CONDITION c sz"
  shows "big_sizes (big_allocated env sz bh) = (big_sizes bh)(big_addr env sz bh \<mapsto> sz)"
proof
  fix x
  note ob = allocateAtBigHeap_ok(2) [OF assms]
  have st: "ob_size (big_allocated env sz bh) = (ob_size bh)(big_status env bh := sz)"
    by (simp add: big_allocated_def Let_def)
  have "y \<noteq> big_status env bh" if "big_objects bh x = Some y" for y
    using that assms(2) by (auto simp: big_ready_def ran_def)
  then have "map_option ((ob_size bh)(big_status env bh := sz)) (big_objects bh x) = map_option (ob_size bh) (big_objects bh x)"
    by (cases "big_objects bh x") auto
  then show "big_sizes (big_allocated env sz bh) x = ((big_sizes bh)(big_addr env sz bh \<mapsto> sz)) x"
    by (simp add: big_sizes_def ob st)
qed

text \<open>The object ends where its mapping ends, so the first byte past it is on the next page.\<close>

lemma big_placement:
  assumes "unat sz + 4096 \<le> 2 ^ 64" and "unat base + unat (alignup sz PageSize) < 2 ^ 64"
  shows "unat (base + (alignup sz PageSize - sz)) + unat sz = unat base + unat (alignup sz PageSize)"
    and "unat sz \<le> unat (alignup sz PageSize)" and "4096 dvd unat (alignup sz PageSize)"
    and "unat (alignup sz PageSize) < unat sz + 4096"
proof -
  have P: "PageSize = 2 ^ 12" by (simp add: PageSize_def)
  have u: "unat (alignup sz PageSize) = (unat sz + 4096 - 1) div 4096 * 4096"
    using alignup_exp [of 12 sz] assms(1) unfolding P by simp
  have m: "(unat sz + 4096 - 1) div 4096 * 4096 + (unat sz + 4096 - 1) mod 4096 = unat sz + 4096 - 1"
    by (rule div_mult_mod_eq)
  have m': "(unat sz + 4096 - 1) mod 4096 < 4096" by simp
  show le: "unat sz \<le> unat (alignup sz PageSize)" unfolding u using m m' by linarith
  show "4096 dvd unat (alignup sz PageSize)" unfolding u by simp
  show "unat (alignup sz PageSize) < unat sz + 4096" unfolding u using m m' by linarith
  have d: "unat (alignup sz PageSize - sz) = unat (alignup sz PageSize) - unat sz"
    using le by (simp add: unat_sub word_le_nat_alt)
  have "unat (base + (alignup sz PageSize - sz)) = unat base + (unat (alignup sz PageSize) - unat sz)"
    using assms(2) d by (subst unat_add_less) auto
  then show "unat (base + (alignup sz PageSize - sz)) + unat sz = unat base + unat (alignup sz PageSize)"
    using le by simp
qed

section \<open>Queries and deallocation\<close>

lemma big_getObjectSize_ok:
  assumes "big_inv bh"
  shows "big_getObjectSize c a bh = Inr (case big_sizes bh a of None \<Rightarrow> - 1 | Some n \<Rightarrow> n)"
  unfolding big_getObjectSize_def hm_find_ok [OF big_invD(1) [OF assms]]
  by (simp add: big_sizes_def big_objects_def split: option.splits)

lemma isLargeObject_ok: "big_inv bh \<Longrightarrow> isLargeObject c a bh = Inr (a \<in> dom (big_sizes bh))"
  unfolding isLargeObject_def using hm_find_ok [OF big_invD(1), of bh c a sizeof_pointer]
  by (simp add: big_sizes_def big_objects_def dom_def)

lemma deallocateToBigHeap_absent:
  assumes "big_inv bh" and "big_sizes bh a = None"
  shows "deallocateToBigHeap env c a bh = Inl (Invalid_big_free a)"
  using assms(2) by (simp add: deallocateToBigHeap_def hm_find_ok [OF big_invD(1) [OF assms(1)]]
      big_sizes_def big_objects_def)

lemma deallocateToBigHeap_ok:
  assumes inv: "big_inv bh" and ob: "big_objects bh a = Some ob"
  shows "\<exists>bh' e. deallocateToBigHeap env c a bh = Inr bh' \<and> big_inv bh' \<and>
    big_objects bh' = (big_objects bh)(a := None) \<and> big_sizes bh' = (big_sizes bh)(a := None) \<and>
    big_calls bh' = Real_free ob # Munmap (ob_start bh ob) (ob_pageUpSize bh ob) # Real_free e # big_calls bh \<and>
    ob_start bh' = ob_start bh \<and> ob_size bh' = ob_size bh \<and> ob_pageUpSize bh' = ob_pageUpSize bh"
proof -
  note I = big_invD [OF inv]
  have f: "hm_alpha (xmap bh) (a, sizeof_pointer) = Some ob" using ob by (simp add: big_objects_def)
  obtain e hm where e: "hm_erase env c a sizeof_pointer (xmap bh) (big_calls bh) = Inr (True, hm, Real_free e # big_calls bh)"
    "hm_inv hm" "hm_alpha hm = (hm_alpha (xmap bh))((a, sizeof_pointer) := None)"
    using hm_erase_ok [OF I(1) f, of env c "big_calls bh"] by blast
  let ?tr = "Real_free ob # Munmap (ob_start bh ob) (ob_pageUpSize bh ob) # Real_free e # big_calls bh"
  let ?bh = "bh\<lparr> xmap := hm, big_calls := ?tr \<rparr>"
  have r: "deallocateToBigHeap env c a bh = Inr ?bh"
    unfolding deallocateToBigHeap_def hm_find_ok [OF I(1)] bindE_simps f e(1) option.case prod.case
    by (simp add: mmapDeallocate_def HeapAllocator_deallocate_def ext_def)
  have o: "big_objects ?bh = (big_objects bh)(a := None)" using e(3) by (auto simp: big_objects_def fun_eq_iff)
  then have s: "big_sizes ?bh = (big_sizes bh)(a := None)" by (auto simp: big_sizes_def fun_eq_iff)
  have "inj_on (big_objects ?bh) (dom (big_objects ?bh))"
    unfolding o by (rule inj_onI) (auto dest: inj_onD [OF I(2)] split: if_splits)
  then have "big_inv ?bh" unfolding big_inv_def o using I e(2) by auto
  then show ?thesis using r o s by (intro exI [of _ ?bh] exI [of _ e]) simp
qed

section \<open>Runs\<close>

text \<open>The large-object heap against its specification, a map from the addresses of the live objects
  to their sizes.\<close>

datatype big_label = Big_alloc size_t addr | Big_free addr

inductive big_step :: "env \<Rightarrow> build \<Rightarrow> bigheap \<Rightarrow> big_label \<Rightarrow> bigheap \<Rightarrow> bool" for env c where
  alloc: "big_ready env sz bh \<Longrightarrow> allocateAtBigHeap env c sz bh = Inr (a, bh') \<Longrightarrow>
    big_step env c bh (Big_alloc sz a) bh'"
| free: "deallocateToBigHeap env c a bh = Inr bh' \<Longrightarrow> big_step env c bh (Big_free a) bh'"

inductive_cases big_stepE: "big_step env c bh l bh'"

inductive big_abs :: "(addr \<Rightarrow> size_t option) \<Rightarrow> big_label \<Rightarrow> (addr \<Rightarrow> size_t option) \<Rightarrow> bool" where
  "M a = None \<Longrightarrow> big_abs M (Big_alloc sz a) (M(a \<mapsto> sz))"
| "M a = Some sz \<Longrightarrow> big_abs M (Big_free a) (M(a := None))"

lemma big_step_ok:
  assumes "big_step env c bh l bh'" and "big_inv bh" and "NDEBUG c"
  shows "big_inv bh' \<and> big_abs (big_sizes bh) l (big_sizes bh')"
  using assms(1)
proof (rule big_stepE)
  fix sz a assume l: "l = Big_alloc sz a" and r: "big_ready env sz bh" and e: "allocateAtBigHeap env c sz bh = Inr (a, bh')"
  have c: "NDEBUG c \<or> IF_CANARY_CONDITION c sz" using assms(3) by blast
  note A = allocateAtBigHeap_ok [OF assms(2) r c] and S = big_sizes_allocated [OF assms(2) r c]
  have x: "a = big_addr env sz bh" "bh' = big_allocated env sz bh" using A(1) e by simp_all
  have "big_sizes bh a = None" using r x by (simp add: big_ready_def big_sizes_def)
  then show ?thesis unfolding l x(2) S using A(3) big_abs.intros(1) [of "big_sizes bh" a sz] x(1) by simp
next
  fix a assume l: "l = Big_free a" and e: "deallocateToBigHeap env c a bh = Inr bh'"
  then obtain n where n: "big_sizes bh a = Some n"
    using deallocateToBigHeap_absent [OF assms(2), of a env c] by (cases "big_sizes bh a") auto
  then obtain ob where ob: "big_objects bh a = Some ob" by (auto simp: big_sizes_def)
  from deallocateToBigHeap_ok [OF assms(2) ob, of env c] e
  show ?thesis unfolding l using big_abs.intros(2) [of "big_sizes bh" a n, OF n] by auto
qed

end
