(* ===== verification/TableExample.thy ===== *)
theory TableExample
  imports BigHeap
begin

text \<open>
  A concrete allocator and a concrete large-object heap, for the witnesses: every \<open>malloc\<close> and
  every \<open>mmap\<close> returns a new block.
\<close>

definition table_env :: env where
  "table_env tr = (case tr of
     Real_malloc n # rest \<Rightarrow> of_nat (2 ^ 30 + 2 ^ 16 * length rest)
   | Mmap _ _ _ _ _ # rest \<Rightarrow> of_nat (2 ^ 40 + 2 ^ 24 * length rest)
   | _ \<Rightarrow> 0)"

definition blank_lists :: clist_mem where
  "blank_lists = \<lparr> cprev = \<lambda>_. 0, cnext = \<lambda>_. 0 \<rparr>"

definition blank_table :: "(addr, 'v::zero) hashmap" where
  "blank_table = \<lparr> hm_initialized = False, hm_entries = 0, hm_buckets = 0, hm_bucketsUsed = 0,
     hm_keycmp = compareAddr, hm_hashfunc = hashAddr, hm_lists = blank_lists, hm_count = \<lambda>_. 0,
     hm_key = \<lambda>_. 0, hm_keylen = \<lambda>_. 0, hm_value = \<lambda>_. 0 \<rparr>"

definition blank_big :: bigheap where
  "blank_big = \<lparr> xmap = blank_table, ob_start = \<lambda>_. 0, ob_size = \<lambda>_. 0, ob_pageUpSize = \<lambda>_. 0, big_calls = [] \<rparr>"

text \<open>The heap after \<open>initBigHeap\<close>, and after a request of 5000000 bytes.\<close>

definition example_big :: bigheap where
  "example_big = (case initBigHeap table_env blank_big of Inl _ \<Rightarrow> blank_big | Inr bh \<Rightarrow> bh)"

lemma example_big:
  "big_inv example_big" "big_sizes example_big = Map.empty"
  "big_calls example_big = [Real_malloc (of_nat (THREAD_MAP_SIZE * sizeof_HashEntry))]"
  "hm_entries (xmap example_big) = of_nat (2 ^ 30)" "bucket_count (xmap example_big) = THREAD_MAP_SIZE"
  "\<forall>i<THREAD_MAP_SIZE. nodes (xmap example_big) i = []" "hm_hashfunc (xmap example_big) = hashAddr"
proof -
  have e: "table_env (Real_malloc (of_nat (THREAD_MAP_SIZE * sizeof_HashEntry)) # big_calls blank_big) = of_nat (2 ^ 30)"
    by (simp add: table_env_def blank_big_def)
  have "unat (of_nat (2 ^ 30) :: addr) = 2 ^ 30" by (rule unat_of_nat_less) simp
  then have u: "(of_nat (2 ^ 30) :: addr) \<noteq> 0" "unat (of_nat (2 ^ 30) :: addr) + sizeof_HashEntry * THREAD_MAP_SIZE < 2 ^ 64"
    by (auto simp: sizeof_HashEntry_def THREAD_MAP_SIZE_def)
  obtain bh where bh: "initBigHeap table_env blank_big = Inr bh" "big_inv bh" "big_sizes bh = Map.empty"
    "big_calls bh = Real_malloc (of_nat (THREAD_MAP_SIZE * sizeof_HashEntry)) # big_calls blank_big"
    "hm_entries (xmap bh) = of_nat (2 ^ 30)" "bucket_count (xmap bh) = THREAD_MAP_SIZE"
    "\<forall>i<THREAD_MAP_SIZE. nodes (xmap bh) i = []" "hm_hashfunc (xmap bh) = hashAddr"
    using initBigHeap_ok [where env = table_env and bh = blank_big, OF e u] by blast
  then have "example_big = bh" by (simp add: example_big_def)
  then show "big_inv example_big" "big_sizes example_big = Map.empty"
    "big_calls example_big = [Real_malloc (of_nat (THREAD_MAP_SIZE * sizeof_HashEntry))]"
    "hm_entries (xmap example_big) = of_nat (2 ^ 30)" "bucket_count (xmap example_big) = THREAD_MAP_SIZE"
    "\<forall>i<THREAD_MAP_SIZE. nodes (xmap example_big) i = []" "hm_hashfunc (xmap example_big) = hashAddr"
    using bh by (simp_all add: blank_big_def)
qed

lemma example_objects_none: "big_objects example_big = Map.empty"
proof
  fix a show "big_objects example_big a = None"
    using fun_cong [OF example_big(2), of a] by (simp add: big_sizes_def)
qed

lemma example_fresh: "fresh_node (xmap example_big) (of_nat (2 ^ 30 + 2 ^ 16 * Suc m))" if "m < 8"
proof -
  let ?p = "of_nat (2 ^ 30 + 2 ^ 16 * Suc m) :: addr"
  have lt: "2 ^ 30 + 2 ^ 16 * Suc m < (2::nat) ^ 64" using that by simp
  have "?p \<noteq> head (xmap example_big) i" if i: "i < THREAD_MAP_SIZE" for i
  proof -
    have h: "head (xmap example_big) i = of_nat (2 ^ 30 + i * sizeof_HashEntry)"
      unfolding head_def example_big(4) by simp
    have "i * sizeof_HashEntry < 2 ^ 16" using i by (simp add: THREAD_MAP_SIZE_def sizeof_HashEntry_def)
    then have "2 ^ 30 + 2 ^ 16 * Suc m \<noteq> 2 ^ 30 + i * sizeof_HashEntry" "2 ^ 30 + i * sizeof_HashEntry < (2::nat) ^ 64" by simp_all
    moreover have "2 ^ 30 + 2 ^ 16 * Suc m < (2::nat) ^ LENGTH(64)" "2 ^ 30 + i * sizeof_HashEntry < (2::nat) ^ LENGTH(64)"
      using lt calculation(2) by simp_all
    note of_nat_eq_word_iff [OF this]
    ultimately show ?thesis unfolding h by blast
  qed
  moreover have "unat ?p = 2 ^ 30 + 2 ^ 16 * Suc m" by (rule unat_of_nat_less) (use lt in simp)
  then have "?p \<noteq> 0" by (metis add_is_0 power_not_zero unat_0 zero_neq_numeral)
  ultimately show ?thesis using example_big(5,6) by (auto simp: fresh_node_def)
qed

lemma example_fits: "key_fits (xmap example_big) a sizeof_pointer"
proof -
  have "key_index (xmap example_big) a sizeof_pointer < THREAD_MAP_SIZE"
    using key_index_less [OF hm_invD(2) [OF big_invD(1) [OF example_big(1)]]] example_big(5) by metis
  then show ?thesis using example_big(6) by (simp add: key_fits_def sizeof_pointer_def)
qed

lemma example_ready: "big_ready table_env 5000000 example_big"
proof -
  have m: "table_env (big_mapped table_env 5000000 example_big) = of_nat (2 ^ 40 + 2 ^ 25)"
    by (simp add: big_mapped_def private_map_def table_env_def example_big(3))
  have s: "big_status table_env example_big = of_nat (2 ^ 30 + 2 ^ 16 * Suc 0)"
    by (simp add: big_status_def table_env_def example_big(3))
  have f: "table_env (Real_malloc (of_nat sizeof_Entry) # big_mapped table_env 5000000 example_big)
      = of_nat (2 ^ 30 + 2 ^ 16 * Suc 2)"
    by (simp add: big_mapped_def private_map_def table_env_def example_big(3))
  have "fresh_node (xmap example_big) (of_nat (2 ^ 30 + 2 ^ 16 * Suc 0))" by (rule example_fresh) simp
  then have nz: "big_status table_env example_big \<noteq> 0" unfolding s fresh_node_def by (elim conjE)
  have nf: "(of_nat (2 ^ 40 + 2 ^ 25) :: addr) \<noteq> MAP_FAILED" by (simp add: MAP_FAILED_def)
  have fr: "fresh_node (xmap example_big) (of_nat (2 ^ 30 + 2 ^ 16 * Suc 2))" by (rule example_fresh) simp
  show ?thesis unfolding big_ready_def m f
    using nz nf fr example_fits by (simp only: example_objects_none ran_empty) blast
qed

definition example_big1 :: bigheap where
  "example_big1 = big_allocated table_env 5000000 example_big"

end
