(* ===== verification/TableProps.thy ===== *)
theory TableProps
  imports TableExample
begin

text \<open>
  The properties of the circular lists, the hash functions, the hash table and the large-object
  heap, each with a witness.
\<close>

section \<open>Circular lists\<close>

text \<open>\<open>n\<close> calls of \<open>listRetrieveItem\<close>.\<close>

fun retrieve_items :: "nat \<Rightarrow> addr \<Rightarrow> clist_mem \<Rightarrow> addr list \<times> clist_mem" where
  "retrieve_items 0 h m = ([], m)"
| "retrieve_items (Suc n) h m =
    (let (x, m1) = listRetrieveItem h m; (xs, m2) = retrieve_items n h m1 in (x # xs, m2))"

lemma insert_tails_ring:
  "ring m h xs \<Longrightarrow> distinct ns \<Longrightarrow> set ns \<inter> set (h # xs) = {} \<Longrightarrow>
    ring (fold (\<lambda>n m. listInsertTail n h m) ns m) h (xs @ ns)"
proof (induction ns arbitrary: m xs)
  case (Cons n ns)
  have "ring (listInsertTail n h m) h (xs @ [n])" using Cons.prems by (intro listInsertTail_ring) auto
  from Cons.IH [OF this] Cons.prems show ?case by simp
qed simp

lemma retrieve_items_ring:
  "ring m h (xs @ ys) \<Longrightarrow> fst (retrieve_items (length xs) h m) = xs \<and>
    ring (snd (retrieve_items (length xs) h m)) h ys"
proof (induction xs arbitrary: m)
  case (Cons x xs)
  have "listRetrieveItem h m = (x, listRemoveNode x m)" "ring (listRemoveNode x m) h (xs @ ys)"
    using listRetrieveItem_ring [OF Cons.prems] by simp_all
  with Cons.IH [OF this(2)] show ?case by (simp add: split_beta)
qed simp

text \<open>The circular list is a first-in first-out queue: nodes that are inserted at its tail come out
  of \<open>listRetrieveItem\<close> behind the ones that were there, in their order, and leave it empty.\<close>
lemma clist_fifo:
  assumes "ring m h xs" and "distinct ns" and "set ns \<inter> set (h # xs) = {}"
  shows "\<exists>m'. retrieve_items (length xs + length ns) h (fold (\<lambda>n m. listInsertTail n h m) ns m) = (xs @ ns, m') \<and>
    isListEmpty h m' \<and> listRetrieveItem h m' = (0, m')"
proof -
  let ?m = "fold (\<lambda>n m. listInsertTail n h m) ns m"
  have r: "ring ?m h (xs @ ns)" by (rule insert_tails_ring [OF assms])
  then have "fst (retrieve_items (length xs + length ns) h ?m) = xs @ ns"
    "ring (snd (retrieve_items (length xs + length ns) h ?m)) h []"
    using retrieve_items_ring [of ?m h "xs @ ns" "[]"] by simp_all
  then show ?thesis
    using ring_empty_iff [of _ h "[]"] listRetrieveItem_ring(1) [of _ h "[]"]
    by (intro exI [of _ "snd (retrieve_items (length xs + length ns) h ?m)"]) (simp add: prod_eq_iff)
qed

text \<open>\<open>listRemoveNode\<close> undoes \<open>listInsertNode\<close>, \<open>listInsertHead\<close> and \<open>listInsertTail\<close>, and the removed
  node is a list of its own again.\<close>
lemma clist_insert_remove:
  assumes "ring m h (xs @ p # ys)" and "node \<notin> set (h # xs @ p # ys)"
  shows "ring (listRemoveNode node (listInsertNode node p m)) h (xs @ p # ys) \<and>
    ring (listRemoveNode node (listInsertHead node h m)) h (xs @ p # ys) \<and>
    ring (listRemoveNode node (listInsertTail node h m)) h (xs @ p # ys) \<and>
    ring (listRemoveNode node (listInsertNode node p m)) node []"
proof -
  have a: "ring (listInsertNode node p m) h ((xs @ [p]) @ node # ys)" using listInsertNode_ring [OF assms] by simp
  have b: "ring (listInsertHead node h m) h ([] @ node # xs @ p # ys)" using listInsertHead_ring [OF assms] by simp
  have c: "ring (listInsertTail node h m) h ((xs @ p # ys) @ node # [])" using listInsertTail_ring [OF assms] by simp
  show ?thesis
    using listRemoveNode_ring [OF a] listRemoveNode_ring [OF b] listRemoveNode_ring [OF c] by simp
qed

lemma ring_next_closed: "ring m h xs \<Longrightarrow> x \<in> set (h # xs) \<Longrightarrow> cnext m x \<in> set (h # xs)"
proof -
  assume r: "ring m h xs" and x: "x \<in> set (h # xs)"
  show "cnext m x \<in> set (h # xs)"
  proof (cases "x = h")
    case True
    then show ?thesis using ring_first [OF r] by (cases xs) auto
  next
    case False
    then obtain ys zs where "xs = ys @ x # zs" using x by (auto dest: split_list)
    then show ?thesis using r ring_cut [of m h "ys @ [x]" zs] by (cases zs) auto
  qed
qed

text \<open>\<open>listInsertList\<close> does not insert: it reads \<open>where->next\<close> and \<open>list->prev\<close> after it has overwritten
  them.  From \<open>where\<close> only the nodes of the inserted list can be reached afterwards; all
  the nodes that followed \<open>where\<close> are lost, and the list does not lead back to \<open>where\<close>.\<close>
lemma listInsertList_loses:
  assumes "ring m place xs" and "ring m l ys" and "set (place # xs) \<inter> set (l # ys) = {}"
  shows "(cnext (listInsertList l place m) ^^ Suc n) place \<in> set (l # ys)"
proof (induction n)
  case 0
  show ?case by (simp add: listInsertList_eq list_link_def set_cnext_def set_cprev_def)
next
  case (Suc n)
  let ?m = "listInsertList l place m" and ?x = "(cnext (listInsertList l place m) ^^ Suc n) place"
  have "?x \<noteq> place" using Suc.IH assms(3) by auto
  then have "cnext ?m ?x = cnext m ?x" by (simp add: listInsertList_eq list_link_def set_cnext_def set_cprev_def)
  then show ?case using ring_next_closed [OF assms(2) Suc.IH] by (simp only: funpow.simps(2) o_apply)
qed

section \<open>Hash functions\<close>

text \<open>\<open>hashAddr\<close> is injective on addresses, for every length argument: two addresses share a bucket
  only because of the remainder.\<close>
lemma hashAddr_injective: "inj (\<lambda>a. hashAddr a len)"
  by (rule inj_hashAddr)

text \<open>\<open>hashString\<close> reads the byte behind the \<open>len\<close> bytes that \<open>compareString\<close> compares: strings that
  compare equal can have different hashes, so that a table with string keys misses entries.\<close>
lemma hashString_reads_past:
  "\<exists>mem. compareString mem 0 16 1 \<and> hashString mem 0 1 \<noteq> hashString mem 16 1"
proof -
  have h: "hashString mem s 1 = 5 * scast (mem s) + scast (mem (s + 1))" for mem s
    by (simp add: hashString_def numeral_2_eq_2)
  show ?thesis
    by (rule exI [of _ "\<lambda>x. if x = 1 then 98 else 97"]) (simp add: compareString_def h)
qed

section \<open>The hash table\<close>

text \<open>C16: \<open>find\<close> on a well-formed table looks the key up in the abstract map.  \<open>insert\<close> of an absent key
  and \<open>insertIfAbsent\<close> extend the map by exactly that key and keep the table well formed, when
  \<open>malloc\<close> returns a fresh block; \<open>insertIfAbsent\<close> of a key that is present changes nothing.\<close>
theorem table_insert_refines:
  assumes "hm_inv hm" and "key_fits hm k l" and "fresh_node hm (env (Real_malloc (of_nat sizeof_Entry) # tr))"
  shows "hm_find c k l hm = Inr (hm_alpha hm (k, l)) \<and>
    (case hm_alpha hm (k, l) of
       None \<Rightarrow> \<exists>hm' tr'. hm_insert env c k l v hm tr = Inr (hm', tr') \<and>
         hm_insertIfAbsent env c k l v hm tr = Inr (False, hm', tr') \<and> hm_inv hm' \<and>
         hm_alpha hm' = (hm_alpha hm)((k, l) \<mapsto> v)
     | Some w \<Rightarrow> hm_insertIfAbsent env c k l v hm tr = Inr (True, hm, tr))"
proof (cases "hm_alpha hm (k, l)")
  case None
  note ins = hm_insert_ok [where env = env and tr = tr, OF assms(1) None assms(2,3)]
    and abs = hm_insertIfAbsent_absent [where env = env and tr = tr, OF assms(1) None assms(2,3)]
  show ?thesis using ins(1) [of c v] ins(2) [of v] ins(3) [of v] abs [of c v] hm_find_ok [OF assms(1), of c k l] None by auto
next
  case (Some w)
  then show ?thesis using hm_insertIfAbsent_present [OF assms(1) Some] hm_find_ok [OF assms(1), of c k l] by simp
qed

lemma example_table:
  "hm_inv (xmap example_big)" "hm_alpha (xmap example_big) (a, sizeof_pointer) = None"
  "fresh_node (xmap example_big) (table_env (Real_malloc (of_nat sizeof_Entry) # big_calls example_big))"
proof -
  have "table_env (Real_malloc (of_nat sizeof_Entry) # big_calls example_big) = of_nat (2 ^ 30 + 2 ^ 16 * Suc 0)"
    by (simp add: table_env_def example_big(3))
  moreover have "fresh_node (xmap example_big) (of_nat (2 ^ 30 + 2 ^ 16 * Suc 0))" by (rule example_fresh) simp
  ultimately show "fresh_node (xmap example_big) (table_env (Real_malloc (of_nat sizeof_Entry) # big_calls example_big))"
    by (simp only:)
qed (use big_invD(1) [OF example_big(1)] fun_cong [OF example_objects_none, of a] in \<open>simp_all add: big_objects_def\<close>)

theorem table_insert_refines_witness:
  "\<exists>hm' tr'. hm_insert table_env default_build 77 sizeof_pointer 5 (xmap example_big) (big_calls example_big) = Inr (hm', tr') \<and>
    hm_alpha hm' (77, sizeof_pointer) = Some 5"
  using table_insert_refines [where env = table_env and tr = "big_calls example_big" and k = 77 and v = 5 and c = default_build,
      OF example_table(1) example_fits example_table(3)] example_table(2) [of 77] by auto


definition example_table1 :: "(addr, addr) hashmap" where
  "example_table1 = inserted 77 sizeof_pointer 5 (of_nat (2 ^ 30 + 2 ^ 16 * Suc 0)) (xmap example_big)"

lemma example_table1: "hm_inv example_table1" "hm_alpha example_table1 (77, sizeof_pointer) = Some 5"
proof -
  have f: "fresh_node (xmap example_big) (of_nat (2 ^ 30 + 2 ^ 16 * Suc 0))" by (rule example_fresh) simp
  show "hm_inv example_table1" "hm_alpha example_table1 (77, sizeof_pointer) = Some 5"
    using inserted_inv(1) [OF example_table(1) f example_table(2) example_fits]
      inserted_alpha [OF example_table(1) f example_table(2) example_fits] by (simp_all add: example_table1_def)
qed


text \<open>C18: \<open>erase\<close> of an absent key reports that the key was not found but decreases the counter of its
  bucket: the last entry of that bucket can no longer be found.\<close>
theorem erase_absent_hides_entry:
  assumes "hm_inv hm" and "hm_alpha hm (k, l) = None" and "nodes hm (key_index hm k l) = xs @ [x]"
  shows "\<exists>hm'. hm_erase env c k l hm tr = Inr (False, hm', tr) \<and>
    hm_find c (hm_key hm x) (hm_keylen hm x) hm = Inr (Some (hm_value hm x)) \<and>
    hm_find c (hm_key hm x) (hm_keylen hm x) hm' = Inr None"
proof -
  note I = hm_invD [OF assms(1)]
  let ?i = "key_index hm k l"
  have i: "?i < bucket_count hm" by (rule key_index_less [OF I(2)])
  note b = I(5) [OF i, unfolded bucket_ok_def assms(3)]
  have j: "key_index hm (hm_key hm x) (hm_keylen hm x) = ?i" using b by simp
  have inj: "inj_on (\<lambda>x. (hm_key hm x, hm_keylen hm x)) (set (xs @ [x]))" using b by (elim conjE)
  have d: "distinct (xs @ [x])" using b by (simp add: ring_def)
  have "\<not> entry_matches hm (hm_key hm x) (hm_keylen hm x) y" if "y \<in> set xs" for y
    using that inj_onD [OF inj, of y x] d by (auto simp: entry_matches_def)
  then have "List.find (entry_matches hm (hm_key hm x) (hm_keylen hm x)) xs = None" by (auto simp: find_None_iff)
  then have "hm_alpha hm (hm_key hm x, hm_keylen hm x) = Some (hm_value hm x)"
    by (simp add: hm_alpha_def j assms(3) find_app entry_matches_def)
  then show ?thesis
    using hm_erase_absent [OF assms(1,2), of env c tr] shortened_find [OF assms(1) i assms(3), of c]
      hm_find_ok [OF assms(1), of c "hm_key hm x" "hm_keylen hm x"] by auto
qed

theorem erase_absent_hides_entry_witness:
  "\<exists>hm' x. hm_erase table_env default_build 77 9 example_table1 [] = Inr (False, hm', []) \<and>
    hm_find default_build (hm_key example_table1 x) (hm_keylen example_table1 x) hm' = Inr None"
proof -
  let ?p = "of_nat (2 ^ 30 + 2 ^ 16 * Suc 0) :: addr" and ?hm = "xmap example_big"
  have f: "fresh_node ?hm ?p" by (rule example_fresh) simp
  have i: "key_index ?hm 77 9 = key_index ?hm 77 sizeof_pointer" by (simp add: key_index_def example_big(7) hashAddr_def)
  have lt: "key_index ?hm 77 9 < bucket_count ?hm" by (rule key_index_less [OF hm_invD(2) [OF example_table(1)]])
  have e: "nodes ?hm (key_index ?hm 77 9) = []" using lt example_big(5,6) by simp
  have n: "nodes example_table1 (key_index ?hm 77 9) = [] @ [?p]"
    using inserted_inv(2) [OF example_table(1) f example_table(2) example_fits lt, of 77 5] e
    unfolding example_table1_def by (simp only: i simp_thms if_True append_Nil)
  have k: "key_index example_table1 = key_index ?hm" by (simp add: example_table1_def del: of_nat_add)
  have "hm_alpha ?hm (77, 9) = None" using e by (simp add: hm_alpha_def)
  then have a: "hm_alpha example_table1 (77, 9) = None"
    unfolding example_table1_def inserted_alpha [OF example_table(1) f example_table(2) example_fits]
    by (simp add: sizeof_pointer_def)
  show ?thesis
    using erase_absent_hides_entry [OF example_table1(1) a n [folded k], of table_env default_build "[]"] by blast
qed

text \<open>A loop with the iterator, from \<open>begin()\<close> to \<open>end()\<close>, ends and sees every entry of the table exactly
  once, in the order of the buckets and, in a bucket, of the insertions.\<close>
lemma iterator_visits_all:
  assumes "hm_inv hm" and "bucket_count hm < 2 ^ 31" and "length (all_nodes hm) < fuel"
  shows "iterate fuel hm (hm_begin hm) = Inr (all_nodes hm) \<and> distinct (all_nodes hm) \<and>
    (\<forall>k l v. hm_alpha hm (k, l) = Some v \<longrightarrow>
      (\<exists>x\<in>set (all_nodes hm). hm_key hm x = k \<and> hm_keylen hm x = l \<and> hm_value hm x = v))"
proof -
  note I = hm_invD [OF assms(1)]
  have "distinct (concat (map (nodes hm) js))" if "distinct js" "set js \<subseteq> {..<bucket_count hm}" for js
    using that
  proof (induction js)
    case (Cons j js)
    have "set (nodes hm j) \<inter> set (nodes hm j') = {}" if "j' \<in> set js" for j'
      using that Cons.prems by (intro nodes_disjoint [OF I(5) I(5)]) auto
    moreover have "distinct (nodes hm j)" using I(5) [of j] Cons.prems by (auto simp: bucket_ok_def ring_def)
    ultimately show ?case using Cons by auto
  qed simp
  from this [of "[0..<bucket_count hm]"] have d: "distinct (all_nodes hm)" by (simp add: all_nodes_def subset_iff)
  have "\<exists>x\<in>set (all_nodes hm). hm_key hm x = k \<and> hm_keylen hm x = l \<and> hm_value hm x = v"
    if a: "hm_alpha hm (k, l) = Some v" for k l v
  proof -
    obtain x where x: "List.find (entry_matches hm k l) (nodes hm (key_index hm k l)) = Some x" "hm_value hm x = v"
      using a by (auto simp: hm_alpha_def)
    then have "x \<in> set (nodes hm (key_index hm k l))" "entry_matches hm k l x" by (auto simp: find_Some_iff)
    moreover have "key_index hm k l < bucket_count hm" by (rule key_index_less [OF I(2)])
    ultimately show ?thesis using x(2) by (auto simp: all_nodes_def entry_matches_def)
  qed
  then show ?thesis using iterate_all [OF assms] d by blast
qed

section \<open>Large objects\<close>

text \<open>A large allocation, when the C library and the kernel give memory, succeeds, adds exactly the
  new object with its size to the live large objects, and keeps the invariant; the size query
  returns the size that was asked for.\<close>
lemma big_alloc_refines:
  assumes "big_inv bh" and "big_ready env sz bh" and "NDEBUG c \<or> IF_CANARY_CONDITION c sz"
  shows "\<exists>a bh'. allocateAtBigHeap env c sz bh = Inr (a, bh') \<and> big_inv bh' \<and> big_sizes bh a = None \<and>
    big_sizes bh' = (big_sizes bh)(a \<mapsto> sz) \<and> big_getObjectSize c a bh' = Inr sz \<and> isLargeObject c a bh' = Inr True"
proof -
  note A = allocateAtBigHeap_ok [OF assms] and S = big_sizes_allocated [OF assms]
  have "big_sizes bh (big_addr env sz bh) = None" using assms(2) by (simp add: big_ready_def big_sizes_def)
  then show ?thesis using A(1,3) S big_getObjectSize_ok [OF A(3), of c] isLargeObject_ok [OF A(3), of c] by auto
qed

text \<open>A large object lies in its own mapping and ends exactly where the mapping ends, at a page
  boundary, so that an overflow by one byte leaves the mapping; less than a page in front of it is
  unused.\<close>
lemma big_object_ends_at_page:
  assumes "big_inv bh" and "big_ready env sz bh" and "NDEBUG c \<or> IF_CANARY_CONDITION c sz"
    and "allocateAtBigHeap env c sz bh = Inr (a, bh')" and "unat sz + 4096 \<le> 2 ^ 64"
    and "base = env (big_mapped env sz bh)" and "4096 dvd unat base" and "unat base + unat (alignup sz PageSize) < 2 ^ 64"
  shows "unat a + unat sz = unat base + unat (alignup sz PageSize) \<and> 4096 dvd unat a + unat sz \<and>
    unat base \<le> unat a \<and> unat a < unat base + 4096"
proof -
  have a: "a = base + (alignup sz PageSize - sz)"
    using allocateAtBigHeap_ok(1) [OF assms(1-3)] assms(4,6) by (simp add: big_addr_def)
  note P = big_placement [OF assms(5,8)]
  have e: "unat a + unat sz = unat base + unat (alignup sz PageSize)" unfolding a by (rule P(1))
  then have "4096 dvd unat a + unat sz" using assms(7) P(3) by simp
  then show ?thesis using e P(2,4) by linarith
qed

text \<open>Freeing a large object unmaps exactly the region that its allocation mapped, frees its status
  record, and leads back to the live objects before the allocation; a second free ends in the
  invalid-free error.\<close>
lemma big_free_undoes_alloc:
  assumes "big_inv bh" and "big_ready env sz bh" and "NDEBUG c \<or> IF_CANARY_CONDITION c sz"
    and "allocateAtBigHeap env c sz bh = Inr (a, bh')"
  shows "\<exists>bh'' e. deallocateToBigHeap env c a bh' = Inr bh'' \<and> big_inv bh'' \<and> big_sizes bh'' = big_sizes bh \<and>
    big_calls bh'' = Real_free (big_status env bh) # Munmap (env (big_mapped env sz bh)) (alignup sz PageSize) #
      Real_free e # big_calls bh' \<and>
    deallocateToBigHeap env c a bh'' = Inl (Invalid_big_free a)"
proof -
  note A = allocateAtBigHeap_ok [OF assms(1-3)] and S = big_sizes_allocated [OF assms(1-3)]
  have x: "a = big_addr env sz bh" "bh' = big_allocated env sz bh" using A(1) assms(4) by simp_all
  have ob: "big_objects bh' a = Some (big_status env bh)" unfolding x A(2) by simp
  have f: "ob_start bh' (big_status env bh) = env (big_mapped env sz bh)"
    "ob_pageUpSize bh' (big_status env bh) = alignup sz PageSize" by (simp_all add: x big_allocated_def Let_def)
  obtain bh'' e where d: "deallocateToBigHeap env c a bh' = Inr bh''" "big_inv bh''" "big_sizes bh'' = (big_sizes bh')(a := None)"
    "big_calls bh'' = Real_free (big_status env bh) # Munmap (ob_start bh' (big_status env bh))
        (ob_pageUpSize bh' (big_status env bh)) # Real_free e # big_calls bh'"
    using deallocateToBigHeap_ok [OF A(3) [folded x(2)] ob, of env c] by blast
  have "big_sizes bh a = None" using assms(2) x(1) by (simp add: big_ready_def big_sizes_def)
  then have "big_sizes bh'' = big_sizes bh" unfolding d(3) x(2) S x(1) by (auto simp: fun_eq_iff)
  moreover have "deallocateToBigHeap env c a bh'' = Inl (Invalid_big_free a)"
    by (rule deallocateToBigHeap_absent [OF d(2)]) (simp add: d(3))
  ultimately show ?thesis using d f by auto
qed

text \<open>Freeing an address that is not a live large object ends in the invalid-free error, and its size
  query returns \<open>-1\<close>.\<close>
lemma big_invalid_free:
  assumes "big_inv bh" and "big_sizes bh a = None"
  shows "deallocateToBigHeap env c a bh = Inl (Invalid_big_free a) \<and> big_getObjectSize c a bh = Inr (- 1) \<and>
    isLargeObject c a bh = Inr False"
  using deallocateToBigHeap_absent [OF assms] big_getObjectSize_ok [OF assms(1), of c a] isLargeObject_ok [OF assms(1), of c a]
    assms(2) by auto

text \<open>C15: every step of the large-object heap keeps its invariant and is a step of the specification, a map
  from the addresses of the live large objects to their sizes.\<close>
theorem big_heap_refines:
  assumes "big_step env c bh l bh'" and "big_inv bh" and "NDEBUG c"
  shows "big_inv bh' \<and> big_abs (big_sizes bh) l (big_sizes bh')"
  using assms by (rule big_step_ok)

theorem big_heap_refines_witness:
  "\<exists>a bh'. big_abs Map.empty (Big_alloc 5000000 a) (big_sizes bh')"
proof -
  have c: "NDEBUG default_build" by (simp add: default_build_def)
  then have "allocateAtBigHeap table_env default_build 5000000 example_big
      = Inr (big_addr table_env 5000000 example_big, big_allocated table_env 5000000 example_big)"
    using allocateAtBigHeap_ok(1) [OF example_big(1) example_ready] by blast
  from big_heap_refines [OF big_step.alloc [OF example_ready this] example_big(1) c] show ?thesis
    unfolding example_big(2) by blast
qed

end
