(* ===== verification/LibFreeGuard.thy ===== *)
theory LibFreeGuard
  imports BibopHeap XThread
begin

text \<open>
  \<open>libfreeguard.cpp\<close>: the functions a program calls instead of the C library's \<open>malloc\<close>,
  \<open>free\<close>, \<open>calloc\<close>, \<open>realloc\<close>, \<open>memalign\<close>, \<open>pthread_create\<close> and \<open>pthread_join\<close>, the
  initialisation of the library and of the stack area.

  A \<open>process\<close> holds the three singletons with the variables of the file.  Each singleton keeps the
  trace of its own external calls and has its own \<open>env\<close>: within a component no two calls have the same
  trace, so every sequence of answers is the answer of some \<open>platform\<close>.  The memory that a program reads and
  writes is the field \<open>bytes\<close> of the small-object heap; an address may be used when it lies in the
  small-object heap and is not on a guard page, or in a mapping of the large-object heap.

  A caller is known by the address of a local variable (\<open>CUSTOMIZED_STACK\<close>) or by its thread-local
  \<open>_threadIndex\<close>.  The random numbers are drawn by thread, since the seed of \<open>sse2rng.c\<close> is
  thread-local.  Components of their own: \<open>Real::initializer\<close> (\<open>Symbols\<close>),
  the messages (\<open>Log\<close>) and the switch of the main stack (\<open>MainStack\<close>).  Not modelled: the call of the C library's
  \<open>__libc_start_main\<close>.
\<close>

section \<open>State\<close>

datatype eHeapInitStatus = E_HEAP_INIT_NOT | E_HEAP_INIT_WORKING | E_HEAP_INIT_DONE

record 'r process =
  heapInitStatus :: eHeapInitStatus
  numLargeObjects :: "64 word"
  globalStackAddr :: addr
  fg_bibop :: "'r bibop"
  fg_big :: bigheap
  fg_threads :: xthread
  fg_calls :: trace

record 'r platform =
  heap_env :: env
  large_env :: env
  threads_env :: env
  start_env :: env
  rand :: "nat \<Rightarrow> 'r \<Rightarrow> u32 \<times> 'r"
  srand :: "nat \<Rightarrow> u32 \<Rightarrow> 'r \<Rightarrow> 'r"

record caller =
  stackVar :: addr
  tlsThreadIndex :: int

definition currentIndex :: "build \<Rightarrow> caller \<Rightarrow> 'r process \<Rightarrow> fg_error + int" where
  "currentIndex c who st =
    (if CUSTOMIZED_STACK c then getThreadIndex c (globalStackAddr st) (stackVar who) else Inr (tlsThreadIndex who))"

section \<open>Memory\<close>

text \<open>\<open>x\<close> is in a mapping that was made and not removed.\<close>

fun mapped :: "env \<Rightarrow> trace \<Rightarrow> addr \<Rightarrow> bool" where
  "mapped env [] x = False"
| "mapped env (e # tr) x =
    (case e of
       Mmap _ n _ _ _ \<Rightarrow> env (e # tr) \<noteq> MAP_FAILED \<and> x - env (e # tr) < n \<or> mapped env tr x
     | Munmap p n \<Rightarrow> \<not> (env (e # tr) = 0 \<and> x - p < n) \<and> mapped env tr x
     | _ \<Rightarrow> mapped env tr x)"

definition mem_ok :: "'r platform \<Rightarrow> 'r process \<Rightarrow> addr \<Rightarrow> bool" where
  "mem_ok pf st x \<longleftrightarrow> heap_access (heap_env pf) (fg_bibop st) x \<or>
    mapped (large_env pf) (big_calls (fg_big st)) x"

definition mem_load :: "'r platform \<Rightarrow> addr \<Rightarrow> 'r process \<Rightarrow> fg_error + byte" where
  "mem_load pf x st = (if mem_ok pf st x then Inr (bytes (fg_bibop st) x) else Inl (Fault x))"

definition set_bytes :: "(addr \<Rightarrow> byte) \<Rightarrow> 'r process \<Rightarrow> 'r process" where
  "set_bytes f st = st\<lparr> fg_bibop := (fg_bibop st)\<lparr> bytes := f \<rparr> \<rparr>"

definition mem_store :: "'r platform \<Rightarrow> addr \<Rightarrow> byte \<Rightarrow> 'r process \<Rightarrow> fg_error + 'r process" where
  "mem_store pf x v st =
    (if mem_ok pf st x then Inr (set_bytes ((bytes (fg_bibop st))(x := v)) st) else Inl (Fault x))"

fun memset0 :: "'r platform \<Rightarrow> addr \<Rightarrow> nat \<Rightarrow> 'r process \<Rightarrow> fg_error + 'r process" where
  "memset0 pf x 0 st = Inr st"
| "memset0 pf x (Suc n) st = bindE (mem_store pf x 0 st) (memset0 pf (x + 1) n)"

fun memcpy :: "'r platform \<Rightarrow> addr \<Rightarrow> addr \<Rightarrow> nat \<Rightarrow> 'r process \<Rightarrow> fg_error + 'r process" where
  "memcpy pf dst src 0 st = Inr st"
| "memcpy pf dst src (Suc n) st =
    bindE (mem_load pf src st) (\<lambda>v. bindE (mem_store pf dst v st) (memcpy pf (dst + 1) (src + 1) n))"

section \<open>Initialisation\<close>

text \<open>The stack area (lines 47-64): one mapping, a page closed at each end of every stack but the
  first.\<close>

fun guard_stacks :: "env \<Rightarrow> addr \<Rightarrow> nat \<Rightarrow> nat \<Rightarrow> trace \<Rightarrow> fg_error + trace" where
  "guard_stacks env base i 0 tr = Inr tr"
| "guard_stacks env base i (Suc n) tr =
    (let stackStart = base + of_nat i * of_nat STACK_SIZE;
         (r1, tr1) = ext env (Mprotect (stackStart + of_nat STACK_SIZE - PageSize) PageSize) tr
     in if (ucast r1 :: u32) \<noteq> 0 then Inl Aborted
        else let (r2, tr2) = ext env (Mprotect stackStart PageSize) tr1
             in if (ucast r2 :: u32) \<noteq> 0 then Inl Aborted else guard_stacks env base (Suc i) n tr2)"

definition setup_stacks :: "'r platform \<Rightarrow> 'r process \<Rightarrow> fg_error + 'r process" where
  "setup_stacks pf st =
    (let stackSize = of_nat STACK_SIZE * of_nat MAX_THREADS
     in bindE (mmapAllocatePrivate (start_env pf) stackSize (fg_calls st)) (\<lambda>(base, tr1).
          if base = 0 then Inl Stack_area_failed
          else let (_, tr2) = ext (start_env pf) (Madvise base stackSize) tr1
               in bindE (guard_stacks (start_env pf) base 1 (MAX_THREADS - 1) tr2) (\<lambda>tr3.
                    Inr (st\<lparr> globalStackAddr := base, fg_calls := tr3 \<rparr>))))"

text \<open>\<open>xthread::initialize\<close> seeds the generator once more; a waiting thread is in an endless loop
  when no other thread runs.\<close>

definition heapinitialize :: "'r platform \<Rightarrow> build \<Rightarrow> 'r process \<Rightarrow> fg_error + 'r process" where
  "heapinitialize pf c st = (case heapInitStatus st of
     E_HEAP_INIT_NOT \<Rightarrow>
       let (now, tr) = ext (start_env pf) Sys_time (fg_calls st);
           bb = (fg_bibop st)\<lparr> rng := srand pf 0 (ucast now) (rng (fg_bibop st)) \<rparr>;
           st1 = st\<lparr> heapInitStatus := E_HEAP_INIT_WORKING, fg_calls := tr \<rparr>
       in bindE (initialize (heap_env pf) c (rand pf 0) bb) (\<lambda>(_, bb1).
          let st2 = st1\<lparr> fg_bibop := bb1, heapInitStatus := E_HEAP_INIT_DONE \<rparr>
          in bindE (xthread_initialize (threads_env pf) c (fg_threads st2)) (\<lambda>xt.
             let bb2 = bb1\<lparr> rng := srand pf 0 (hd (x_seeds xt)) (rng bb1) \<rparr>
             in bindE (initBigHeap (large_env pf) (fg_big st2)) (\<lambda>bh.
                Inr (st2\<lparr> fg_threads := xt, fg_bibop := bb2, fg_big := bh \<rparr>))))
   | E_HEAP_INIT_WORKING \<Rightarrow> Inl Waits_forever
   | E_HEAP_INIT_DONE \<Rightarrow> Inr st)"

definition ensure_init :: "'r platform \<Rightarrow> build \<Rightarrow> 'r process \<Rightarrow> fg_error + 'r process" where
  "ensure_init pf c st =
    (if heapInitStatus st \<noteq> E_HEAP_INIT_DONE then heapinitialize pf c st else Inr st)"

section \<open>Allocation\<close>

text \<open>\<open>_threadBag[threadIndex]\<close> is an access outside the array when the index is not one of a thread.\<close>

definition allocate_small ::
  "'r platform \<Rightarrow> build \<Rightarrow> caller \<Rightarrow> size_t \<Rightarrow> 'r process \<Rightarrow> fg_error + addr \<times> 'r process"
where
  "allocate_small pf c who sz st =
    bindE (currentIndex c who st) (\<lambda>i.
      if 0 \<le> i \<and> i < int MAX_ALIVE_THREADS then
        bindE (allocateSmallObject (heap_env pf) c (rand pf (nat i)) (nat i) sz (fg_bibop st)) (\<lambda>(p, bb).
          Inr (p, st\<lparr> fg_bibop := bb \<rparr>))
      else Inl (Fault 0))"

definition xxmalloc ::
  "'r platform \<Rightarrow> build \<Rightarrow> caller \<Rightarrow> size_t \<Rightarrow> 'r process \<Rightarrow> fg_error + addr \<times> 'r process"
where
  "xxmalloc pf c who sz st =
    bindE (ensure_init pf c st) (\<lambda>st1.
      if IF_CANARY_CONDITION c sz then
        bindE (allocateAtBigHeap (large_env pf) c sz (fg_big st1)) (\<lambda>(p, bh).
          Inr (p, st1\<lparr> numLargeObjects := numLargeObjects st1 + 1, fg_big := bh \<rparr>))
      else allocate_small pf c who sz st1)"

text \<open>The thread index of the caller only decides, with \<open>CFREELIST\<close>, which free list the object goes to; an
  index that no bag has is written as \<open>MAX_ALIVE_THREADS\<close>.  An invalid free is only reported.\<close>

definition free_small :: "'r platform \<Rightarrow> build \<Rightarrow> caller \<Rightarrow> addr \<Rightarrow> 'r process \<Rightarrow> fg_error + 'r process" where
  "free_small pf c who p st =
    bindE (if CFREELIST c then currentIndex c who st else Inr 0) (\<lambda>i.
    bindE (freeSmallObject (heap_env pf) c (if i < 0 then MAX_ALIVE_THREADS else nat i) p (fg_bibop st)) (\<lambda>bb.
      Inr (st\<lparr> fg_bibop := bb \<rparr>)))"

definition xxfree :: "'r platform \<Rightarrow> build \<Rightarrow> caller \<Rightarrow> addr \<Rightarrow> 'r process \<Rightarrow> fg_error + 'r process" where
  "xxfree pf c who p st =
    (if p = 0 \<or> heapInitStatus st \<noteq> E_HEAP_INIT_DONE then Inr st
     else if isSmallObject (geom (fg_bibop st)) p then free_small pf c who p st
     else bindE (isLargeObject c p (fg_big st)) (\<lambda>large.
       if large then
         bindE (deallocateToBigHeap (large_env pf) c p (fg_big st)) (\<lambda>bh. Inr (st\<lparr> fg_big := bh \<rparr>))
       else Inr st))"

definition xxcalloc ::
  "'r platform \<Rightarrow> build \<Rightarrow> caller \<Rightarrow> size_t \<Rightarrow> size_t \<Rightarrow> 'r process \<Rightarrow> fg_error + addr \<times> 'r process"
where
  "xxcalloc pf c who nelem elsize st =
    bindE (xxmalloc pf c who (nelem * elsize) st) (\<lambda>(p, st1).
      if p \<noteq> 0 then bindE (memset0 pf p (unat (nelem * elsize)) st1) (\<lambda>st2. Inr (p, st2))
      else Inr (p, st1))"

text \<open>The size of a known object, \<open>-1\<close> otherwise.\<close>

definition object_size :: "build \<Rightarrow> addr \<Rightarrow> 'r process \<Rightarrow> fg_error + size_t" where
  "object_size c p st =
    (if isSmallObject (geom (fg_bibop st)) p then getObjectSize c p (fg_bibop st)
     else bindE (isLargeObject c p (fg_big st)) (\<lambda>large.
       if large then big_getObjectSize c p (fg_big st) else Inr (- 1)))"

definition xxrealloc ::
  "'r platform \<Rightarrow> build \<Rightarrow> caller \<Rightarrow> addr \<Rightarrow> size_t \<Rightarrow> 'r process \<Rightarrow> fg_error + addr \<times> 'r process"
where
  "xxrealloc pf c who p sz st =
    bindE (ensure_init pf c st) (\<lambda>st1.
      if p = 0 then xxmalloc pf c who sz st1
      else if sz = 0 then bindE (xxfree pf c who p st1) (\<lambda>st2. Inr (0, st2))
      else bindE (object_size c p st1) (\<lambda>oldSize.
        if oldSize = - 1 then Inr (0, st1)
        else if oldSize \<ge> sz then Inr (p, st1)
        else bindE (xxmalloc pf c who sz st1) (\<lambda>(newObject, st2).
             bindE (memcpy pf newObject p (unat oldSize) st2) (\<lambda>st3.
             bindE (xxfree pf c who p st3) (\<lambda>st4. Inr (newObject, st4))))))"

definition xxmemalign ::
  "'r platform \<Rightarrow> build \<Rightarrow> caller \<Rightarrow> size_t \<Rightarrow> size_t \<Rightarrow> 'r process \<Rightarrow> fg_error + addr \<times> 'r process"
where
  "xxmemalign pf c who alignment sz st =
    (if sz = 0 then Inr (0, st)
     else bindE (xxmalloc pf c who (alignment + sz) st) (\<lambda>(object, st1).
       if alignment = 0 then Inl Division_by_zero
       else Inr (object + object mod alignment, st1)))"

text \<open>The result code, the pointer stored in \<open>*memptr\<close> and the new state.\<close>

definition xxposix_memalign ::
  "'r platform \<Rightarrow> build \<Rightarrow> caller \<Rightarrow> size_t \<Rightarrow> size_t \<Rightarrow> 'r process \<Rightarrow> fg_error + (u32 \<times> addr) \<times> 'r process"
where
  "xxposix_memalign pf c who alignment sz st =
    bindE (xxmemalign pf c who alignment sz st) (\<lambda>(alignedObject, st1). Inr ((0, alignedObject), st1))"

text \<open>The functions that only report that they were called.\<close>

definition xxalloca :: "size_t \<Rightarrow> addr" where "xxalloca sz = 0"
definition xxvalloc :: "size_t \<Rightarrow> addr" where "xxvalloc sz = 0"
definition xxpvalloc :: "size_t \<Rightarrow> addr" where "xxpvalloc sz = 0"
definition xxaligned_alloc :: "size_t \<Rightarrow> size_t \<Rightarrow> addr" where "xxaligned_alloc alignment sz = 0"

section \<open>Threads\<close>

definition fg_pthread_create ::
  "'r platform \<Rightarrow> build \<Rightarrow> addr \<Rightarrow> addr \<Rightarrow> 'r process \<Rightarrow> fg_error + (u32 \<times> addr) \<times> 'r process"
where
  "fg_pthread_create pf c fn arg st =
    bindE (ensure_init pf c st) (\<lambda>st1.
    bindE (thread_create (threads_env pf) c (globalStackAddr st1) fn arg (fg_threads st1)) (\<lambda>(r, xt).
      Inr (r, st1\<lparr> fg_threads := xt \<rparr>)))"

definition fg_pthread_join :: "'r platform \<Rightarrow> build \<Rightarrow> addr \<Rightarrow> 'r process \<Rightarrow> fg_error + u32 \<times> 'r process" where
  "fg_pthread_join pf c tid st =
    bindE (thread_join (threads_env pf) c tid (fg_threads st)) (\<lambda>(r, xt). Inr (r, st\<lparr> fg_threads := xt \<rparr>))"

end
