(* ===== verification/ProcessInv.thy ===== *)
theory ProcessInv
  imports LibFreeGuard BibopReach
begin

text \<open>
  The state of a process with the two heaps side by side.

  \<open>fg_blocks\<close> is the abstract state: the live blocks with their addresses and usable sizes, of either heap.
  \<open>fg_inv\<close> joins the invariants of the heaps and says where the mappings of the large objects lie: apart from each
  other and from the small-object heap.  Lemmas: \<open>memset\<close> and \<open>memcpy\<close> in closed form, blocks are
  disjoint and accessible, and what allocation and freeing do to the blocks.
\<close>

section \<open>Memory\<close>

lemma word_range:
  fixes x s n :: addr
  assumes "unat s + unat n < 2 ^ 64"
  shows "x - s < n \<longleftrightarrow> unat s \<le> unat x \<and> unat x < unat s + unat n"
proof (cases "s \<le> x")
  case True
  then have "unat (x - s) = unat x - unat s" "unat s \<le> unat x" by (simp_all add: unat_sub word_le_nat_alt)
  then show ?thesis by (auto simp: word_less_nat_alt)
next
  case False
  then have lt: "unat x < unat s" by (simp add: word_le_nat_alt)
  have "unat (x - s) = unat x + 2 ^ 64 - unat s" using lt by (simp add: unat_sub_if_size word_size)
  then show ?thesis using lt assms by (simp add: word_less_nat_alt)
qed

lemma set_bytes_simps [simp]:
  "heapInitStatus (set_bytes f st) = heapInitStatus st" "fg_big (set_bytes f st) = fg_big st"
  "globalStackAddr (set_bytes f st) = globalStackAddr st"
  "fg_bibop (set_bytes f st) = (fg_bibop st)\<lparr> bytes := f \<rparr>"
  "set_bytes g (set_bytes f st) = set_bytes g st"
  by (simp_all add: set_bytes_def)

lemma mem_ok_bytes [simp]: "mem_ok pf (set_bytes f st) x = mem_ok pf st x"
  by (simp add: mem_ok_def heap_access_bytes)

lemma memset0_ok:
  "m < 2 ^ 64 \<Longrightarrow> \<forall>j<m. mem_ok pf st (a + of_nat j) \<Longrightarrow>
    memset0 pf a m st = Inr (set_bytes (zeroed a m (bytes (fg_bibop st))) st)"
proof (induction m arbitrary: a st)
  case 0
  show ?case by (simp add: zeroed_def set_bytes_def)
next
  case (Suc m)
  have a: "mem_ok pf st a" using Suc.prems(2) by force
  define st1 where "st1 = set_bytes ((bytes (fg_bibop st))(a := 0)) st"
  have st1: "bytes (fg_bibop st1) = (bytes (fg_bibop st))(a := 0)" "\<And>f. set_bytes f st1 = set_bytes f st"
    unfolding st1_def by simp_all
  have "mem_ok pf st1 (a + 1 + of_nat j)" if "j < m" for j
    using Suc.prems(2) [rule_format, of "Suc j"] that by (simp add: add.assoc st1_def)
  then have acc: "\<forall>j<m. mem_ok pf st1 (a + 1 + of_nat j)" by blast
  have "m < 2 ^ 64" using Suc.prems(1) by simp
  from Suc.IH [OF this acc] have "memset0 pf (a + 1) m st1 = Inr (set_bytes (zeroed a (Suc m) (bytes (fg_bibop st))) st)"
    unfolding st1 zeroed_Suc [OF Suc.prems(1)] .
  then show ?case unfolding memset0.simps mem_store_def if_P [OF a] bindE_simps st1_def .
qed

definition copied :: "addr \<Rightarrow> addr \<Rightarrow> nat \<Rightarrow> (addr \<Rightarrow> byte) \<Rightarrow> addr \<Rightarrow> byte" where
  "copied d s m f = (\<lambda>x. if unat (x - d) < m then f (s + (x - d)) else f x)"

lemma copied_Suc:
  assumes m: "Suc m < 2 ^ 64" and d: "\<forall>j\<le>m. s + of_nat j \<noteq> d"
  shows "copied (d + 1) (s + 1) m (f(d := f s)) = copied d s (Suc m) f"
proof
  fix x
  show "copied (d + 1) (s + 1) m (f(d := f s)) x = copied d s (Suc m) f x"
  proof (cases "x = d")
    case True
    have "x - (d + 1) = - 1" using True by simp
    then show ?thesis using True m by (simp add: copied_def)
  next
    case False
    then have "x - d \<noteq> 0" by simp
    then have u: "unat (x - d) = Suc (unat (x - d - 1))" using unat_minus_one [of "x - d"]
      by (metis Suc_pred' unat_eq_zero not_gr_zero One_nat_def)
    have e: "x - d - 1 = x - (d + 1)" "s + 1 + (x - (d + 1)) = s + (x - d)" by simp_all
    have "s + (x - d) \<noteq> d" if "unat (x - d) \<le> m"
      using d [rule_format, OF that] by simp
    then show ?thesis using False u e by (simp add: copied_def)
  qed
qed

lemma memcpy_ok:
  "m < 2 ^ 64 \<Longrightarrow> \<forall>j<m. mem_ok pf st (d + of_nat j) \<and> mem_ok pf st (s + of_nat j) \<Longrightarrow>
    \<forall>i<m. \<forall>j<m. s + of_nat i \<noteq> d + of_nat j \<Longrightarrow>
    memcpy pf d s m st = Inr (set_bytes (copied d s m (bytes (fg_bibop st))) st)"
proof (induction m arbitrary: d s st)
  case 0
  show ?case by (simp add: copied_def set_bytes_def)
next
  case (Suc m)
  have a: "mem_ok pf st s" "mem_ok pf st d" using Suc.prems(2) by force+
  define st1 where "st1 = set_bytes ((bytes (fg_bibop st))(d := bytes (fg_bibop st) s)) st"
  have st1: "bytes (fg_bibop st1) = (bytes (fg_bibop st))(d := bytes (fg_bibop st) s)"
    "\<And>f. set_bytes f st1 = set_bytes f st"
    unfolding st1_def by simp_all
  have "mem_ok pf st1 (d + 1 + of_nat j) \<and> mem_ok pf st1 (s + 1 + of_nat j)" if "j < m" for j
    using Suc.prems(2) [rule_format, of "Suc j"] that by (simp add: add.assoc st1_def)
  then have acc: "\<forall>j<m. mem_ok pf st1 (d + 1 + of_nat j) \<and> mem_ok pf st1 (s + 1 + of_nat j)" by blast
  have ne: "\<forall>i<m. \<forall>j<m. s + 1 + of_nat i \<noteq> d + 1 + of_nat j"
  proof (intro allI impI)
    fix i j assume "i < m" "j < m"
    then show "s + 1 + of_nat i \<noteq> d + 1 + of_nat j"
      using Suc.prems(3) [rule_format, of "Suc i" "Suc j"] by (simp add: add.assoc)
  qed
  have d: "\<forall>j\<le>m. s + of_nat j \<noteq> d" using Suc.prems(3) [rule_format, of _ 0] by (simp add: less_Suc_eq_le)
  have "m < 2 ^ 64" using Suc.prems(1) by simp
  from Suc.IH [OF this acc ne] have "memcpy pf (d + 1) (s + 1) m st1
      = Inr (set_bytes (copied d s (Suc m) (bytes (fg_bibop st))) st)"
    unfolding st1 copied_Suc [OF Suc.prems(1) d] .
  then show ?case
    unfolding memcpy.simps mem_load_def mem_store_def if_P [OF a(1)] if_P [OF a(2)] bindE_simps st1_def .
qed

section \<open>Blocks\<close>

definition usable :: "build \<Rightarrow> nat \<Rightarrow> nat" where
  "usable c b = 2 ^ (4 + b) - (if USE_CANARY c then 1 else 0)"

definition small_blocks :: "build \<Rightarrow> nat \<Rightarrow> addr \<Rightarrow> addr \<Rightarrow> 'r bibop \<Rightarrow> (addr \<times> nat) set" where
  "small_blocks c k hb sb bb = (\<lambda>(t, b, s, n). (seq_addr c k hb t b s n, usable c b)) ` live c k sb bb"

definition large_blocks :: "bigheap \<Rightarrow> (addr \<times> nat) set" where
  "large_blocks bh = {(a, unat sz) | a sz. big_sizes bh a = Some sz}"

definition fg_blocks :: "build \<Rightarrow> nat \<Rightarrow> addr \<Rightarrow> addr \<Rightarrow> 'r process \<Rightarrow> (addr \<times> nat) set" where
  "fg_blocks c k hb sb st = small_blocks c k hb sb (fg_bibop st) \<union> large_blocks (fg_big st)"

definition span :: "addr \<times> nat \<Rightarrow> nat set" where
  "span x = {unat (fst x)..<unat (fst x) + snd x}"

text \<open>The pages of a large object, and the place of the small-object heap; \<open>isSmallObject\<close> also accepts the
  address \<open>heap_top\<close>.\<close>

definition pages :: "bigheap \<Rightarrow> addr \<Rightarrow> nat set" where
  "pages bh ob = {unat (ob_start bh ob)..<unat (ob_start bh ob) + unat (ob_pageUpSize bh ob)}"

definition heap_top :: "build \<Rightarrow> nat \<Rightarrow> addr \<Rightarrow> nat" where
  "heap_top c k hb = unat hb + BIBOP_NUM_HEAPS * 2 ^ heap_shift c k"

definition pages_ok :: "env \<Rightarrow> build \<Rightarrow> nat \<Rightarrow> addr \<Rightarrow> bigheap \<Rightarrow> addr \<Rightarrow> bool" where
  "pages_ok env c k hb bh ob \<longleftrightarrow> 0 < unat (ob_size bh ob) \<and> 0 < unat (ob_start bh ob) \<and> unat (ob_size bh ob) + 4096 \<le> 2 ^ 64 \<and>
    unat (ob_start bh ob) + unat (ob_pageUpSize bh ob) < 2 ^ 64 \<and> disjnt (pages bh ob) {unat hb..heap_top c k hb} \<and>
    (\<forall>x. unat x \<in> pages bh ob \<longrightarrow> mapped env (big_calls bh) x)"

definition large_ok :: "env \<Rightarrow> build \<Rightarrow> nat \<Rightarrow> addr \<Rightarrow> bigheap \<Rightarrow> bool" where
  "large_ok env c k hb bh \<longleftrightarrow> (\<forall>ob\<in>ran (big_objects bh). pages_ok env c k hb bh ob) \<and>
    (\<forall>ob\<in>ran (big_objects bh). \<forall>ob'\<in>ran (big_objects bh). ob \<noteq> ob' \<longrightarrow> disjnt (pages bh ob) (pages bh ob'))"

definition fg_inv ::
  "'r platform \<Rightarrow> build \<Rightarrow> nat \<Rightarrow> addr \<Rightarrow> addr \<Rightarrow> bump_map \<Rightarrow> (addr \<Rightarrow> addr list) \<Rightarrow> obj set \<Rightarrow> 'r process \<Rightarrow> bool"
where
  "fg_inv pf c k hb sb N L S st \<longleftrightarrow> heapInitStatus st = E_HEAP_INIT_DONE \<and> 0 < unat hb \<and>
    heap_inv c k hb sb N L S (fg_bibop st) \<and> big_inv (fg_big st) \<and> large_ok (large_env pf) c k hb (fg_big st)"

lemma fg_invD:
  assumes "fg_inv pf c k hb sb N L S st"
  shows "heapInitStatus st = E_HEAP_INIT_DONE" "heap_inv c k hb sb N L S (fg_bibop st)" "big_inv (fg_big st)"
    "large_ok (large_env pf) c k hb (fg_big st)" "bags_inv c k hb sb N (fg_bibop st)" "bag_shift_ok c k"
    "heap_placed c k hb" "geom (fg_bibop st) = the_geometry c k hb sb" "0 < unat hb"
  using assms bags_invD(1,3,4) by (auto simp: fg_inv_def heap_inv_def)

lemma usable_less: "usable c b \<le> 2 ^ (4 + b)" "0 < usable c b"
proof -
  have "(1::nat) < 2 ^ (4 + b)" by (rule one_less_power) simp_all
  then show "0 < usable c b" by (simp add: usable_def)
qed (simp add: usable_def)

lemma small_block_span:
  assumes "fg_inv pf c k hb sb N L S st" and l: "(t, b, s, n) \<in> live c k sb (fg_bibop st)"
  shows "unat (seq_addr c k hb t b s n) = unat hb + seq_off c k t b s n"
    "unat (seq_addr c k hb t b s n) + 2 ^ (4 + b) \<le> heap_top c k hb" "heap_top c k hb < 2 ^ 64"
    "isSmallObject (geom (fg_bibop st)) (seq_addr c k hb t b s n)"
proof -
  note I = fg_invD [OF assms(1)]
  have i: "item_ok c t b s" and r: "in_room c k b s n" using l by (auto simp: live_def)
  then have v: "valid_obj c k (seq_heap c k b s n) t b (seq_idx c k b n)"
    using seq_valid [OF I(6) _ _ r] by (simp add: item_ok_def)
  show u: "unat (seq_addr c k hb t b s n) = unat hb + seq_off c k t b s n"
    using unat_obj_addr [OF I(6,7) v] by (simp add: seq_addr_def seq_off_def)
  show top: "unat (seq_addr c k hb t b s n) + 2 ^ (4 + b) \<le> heap_top c k hb"
    using seq_off_lt(1) [OF I(6) i r] u by (simp add: heap_top_def)
  show lt: "heap_top c k hb < 2 ^ 64" using I(7) by (simp add: heap_top_def heap_placed_def)
  have "BIBOP_NUM_HEAPS * 2 ^ heap_shift c k < 2 ^ LENGTH(64)" using lt by (simp add: heap_top_def)
  then have "unat (hb + of_nat (BIBOP_NUM_HEAPS * 2 ^ heap_shift c k)) = heap_top c k hb"
    using lt unat_of_nat_less [of "BIBOP_NUM_HEAPS * 2 ^ heap_shift c k", where ?'a = 64]
    by (subst unat_add_less) (simp_all add: heap_top_def)
  then have "unat (heapEnd (the_geometry c k hb sb)) = heap_top c k hb" by (simp add: the_geometry_def)
  then show "isSmallObject (geom (fg_bibop st)) (seq_addr c k hb t b s n)"
    unfolding isSmallObject_def I(8) using u top by (simp add: word_le_nat_alt the_geometry_def)
qed

lemma large_block_span:
  assumes "fg_inv pf c k hb sb N L S st" and ob: "big_objects (fg_big st) a = Some ob"
  shows "pages_ok (large_env pf) c k hb (fg_big st) ob"
    "unat a + unat (ob_size (fg_big st) ob) = unat (ob_start (fg_big st) ob) + unat (ob_pageUpSize (fg_big st) ob)"
    "span (a, unat (ob_size (fg_big st) ob)) \<subseteq> pages (fg_big st) ob"
    "\<not> isSmallObject (geom (fg_bibop st)) a"
proof -
  note I = fg_invD [OF assms(1)]
  let ?bh = "fg_big st"
  let ?z = "ob_size ?bh ob" and ?b = "ob_start ?bh ob" and ?p = "ob_pageUpSize ?bh ob"
  show ok: "pages_ok (large_env pf) c k hb ?bh ob" using I(4) ob by (auto simp: large_ok_def ran_def)
  have p: "?p = alignup ?z PageSize" and a: "?b + (?p - ?z) = a" using big_invD(4,5) [OF I(3) ob] by simp_all
  have n: "0 < unat ?z" "unat ?z + 4096 \<le> 2 ^ 64" "unat ?b + unat ?p < 2 ^ 64"
    "disjnt (pages ?bh ob) {unat hb..heap_top c k hb}" using ok by (simp_all add: pages_ok_def)
  note B = big_placement [OF n(2), of ?b, folded p, OF n(3)]
  show u: "unat a + unat ?z = unat ?b + unat ?p" using B(1) unfolding a .
  have le: "unat ?b \<le> unat a" using u B(2) by linarith
  show "span (a, unat ?z) \<subseteq> pages ?bh ob" using u le by (auto simp: span_def pages_def)
  have "unat a \<in> pages ?bh ob" unfolding pages_def atLeastLessThan_iff using u le n(1) by linarith
  then have out: "unat a \<notin> {unat hb..heap_top c k hb}" using n(4) by (auto simp: disjnt_iff)
  have "heap_top c k hb < 2 ^ 64" using I(7) by (simp add: heap_top_def heap_placed_def)
  then have "unat (hb + of_nat (BIBOP_NUM_HEAPS * 2 ^ heap_shift c k)) = heap_top c k hb"
    using unat_of_nat_less [of "BIBOP_NUM_HEAPS * 2 ^ heap_shift c k", where ?'a = 64]
    by (subst unat_add_less) (simp_all add: heap_top_def)
  then have "heapBegin (the_geometry c k hb sb) = hb" "unat (heapEnd (the_geometry c k hb sb)) = heap_top c k hb"
    by (simp_all add: the_geometry_def)
  then show "\<not> isSmallObject (geom (fg_bibop st)) a"
    using out unfolding isSmallObject_def I(8) word_le_nat_alt by simp
qed

lemma block_cases:
  assumes "x \<in> fg_blocks c k hb sb st"
  obtains (small) t b s n where "(t, b, s, n) \<in> live c k sb (fg_bibop st)" "x = (seq_addr c k hb t b s n, usable c b)"
  | (large) a ob where "big_objects (fg_big st) a = Some ob" "x = (a, unat (ob_size (fg_big st) ob))"
  using assms unfolding fg_blocks_def small_blocks_def large_blocks_def big_sizes_def by auto

lemma small_block_between:
  assumes "fg_inv pf c k hb sb N L S st" and "(t, b, s, n) \<in> live c k sb (fg_bibop st)"
  shows "span (seq_addr c k hb t b s n, 2 ^ (4 + b)) \<subseteq> {unat hb..heap_top c k hb}"
    and "span (seq_addr c k hb t b s n, usable c b) \<subseteq> span (seq_addr c k hb t b s n, 2 ^ (4 + b))"
  using small_block_span [OF assms] usable_less(1) [of c b] by (auto simp: span_def)

lemma small_spans_disjoint:
  assumes I: "fg_inv pf c k hb sb N L S st" and l: "(t, b, s, n) \<in> live c k sb (fg_bibop st)"
    and l': "(t', b', s', n') \<in> live c k sb (fg_bibop st)" and ne: "(t, b, s, n) \<noteq> (t', b', s', n')"
  shows "disjnt (span (seq_addr c k hb t b s n, 2 ^ (4 + b))) (span (seq_addr c k hb t' b' s' n', 2 ^ (4 + b')))"
proof -
  have i: "item_ok c t b s" "in_room c k b s n" "item_ok c t' b' s'" "in_room c k b' s' n'"
    using l l' by (auto simp: live_def)
  have "disjnt {seq_off c k t b s n..<seq_off c k t b s n + 2 ^ (4 + b)}
      {seq_off c k t' b' s' n'..<seq_off c k t' b' s' n' + 2 ^ (4 + b')}"
    by (rule seq_ranges_disjoint [OF fg_invD(6) [OF I] i ne])
  moreover have "x - unat hb \<in> {seq_off c k t b s n..<seq_off c k t b s n + 2 ^ (4 + b)}"
    if "x \<in> span (seq_addr c k hb t b s n, 2 ^ (4 + b))" for x
    using that unfolding span_def fst_conv snd_conv small_block_span(1) [OF I l] by auto
  moreover have "x - unat hb \<in> {seq_off c k t' b' s' n'..<seq_off c k t' b' s' n' + 2 ^ (4 + b')}"
    if "x \<in> span (seq_addr c k hb t' b' s' n', 2 ^ (4 + b'))" for x
    using that unfolding span_def fst_conv snd_conv small_block_span(1) [OF I l'] by auto
  ultimately show ?thesis unfolding disjnt_iff by blast
qed

lemma disjnt_mono: "disjnt A B \<Longrightarrow> A' \<subseteq> A \<Longrightarrow> B' \<subseteq> B \<Longrightarrow> disjnt A' B'"
  by (auto simp: disjnt_iff)

lemma spans_disjoint:
  assumes I: "fg_inv pf c k hb sb N L S st" and x: "x \<in> fg_blocks c k hb sb st" and y: "y \<in> fg_blocks c k hb sb st"
    and ne: "x \<noteq> y"
  shows "disjnt (span x) (span y)"
proof -
  have mixed: "disjnt (span (seq_addr c k hb t b s n, usable c b)) (span (a, unat (ob_size (fg_big st) ob)))"
    if "(t, b, s, n) \<in> live c k sb (fg_bibop st)" "big_objects (fg_big st) a = Some ob" for t b s n a ob
  proof -
    have "disjnt {unat hb..heap_top c k hb} (pages (fg_big st) ob)"
      using large_block_span(1) [OF I that(2)] by (simp add: pages_ok_def disjnt_sym)
    then show ?thesis
      by (rule disjnt_mono [OF _ subset_trans [OF small_block_between(2,1) [OF I that(1)]] large_block_span(3) [OF I that(2)]])
  qed
  show ?thesis using x
  proof (cases rule: block_cases)
    case (small t b s n)
    note A = small
    show ?thesis using y
    proof (cases rule: block_cases)
      case (small t' b' s' n')
      then have "(t, b, s, n) \<noteq> (t', b', s', n')" using A ne by auto
      from small_spans_disjoint [OF I A(1) small(1) this] show ?thesis unfolding A(2) small(2)
        by (rule disjnt_mono [OF _ small_block_between(2) [OF I A(1)] small_block_between(2) [OF I small(1)]])
    next
      case (large a ob)
      show ?thesis unfolding A(2) large(2) by (rule mixed [OF A(1) large(1)])
    qed
  next
    case (large a ob)
    note A = large
    show ?thesis using y
    proof (cases rule: block_cases)
      case (small t b s n)
      show ?thesis unfolding A(2) small(2) by (rule disjnt_sym [OF mixed [OF small(1) A(1)]])
    next
      case (large a' ob')
      have r: "ob \<in> ran (big_objects (fg_big st))" "ob' \<in> ran (big_objects (fg_big st))"
        using A(1) large(1) by (auto simp: ran_def)
      have "ob \<noteq> ob'"
        using inj_onD [OF big_invD(2) [OF fg_invD(3) [OF I]], of a a'] A large ne by (auto simp: dom_def)
      then have "disjnt (pages (fg_big st) ob) (pages (fg_big st) ob')"
        using fg_invD(4) [OF I] r unfolding large_ok_def by blast
      then show ?thesis unfolding A(2) large(2)
        by (rule disjnt_mono [OF _ large_block_span(3) [OF I A(1)] large_block_span(3) [OF I large(1)]])
    qed
  qed
qed

lemma block_access:
  assumes I: "fg_inv pf c k hb sb N L S st" and x: "(p, m) \<in> fg_blocks c k hb sb st" and j: "j < m"
  shows "mem_ok pf st (p + of_nat j)"
  using x
proof (cases rule: block_cases)
  case (small t b s n)
  have h: "heap_inv c k hb sb N L S (fg_bibop st)" by (rule fg_invD [OF I])
  then have li: "lists_inv c k sb N L S (fg_bibop st)" and gi: "guards_inv c k hb S (calls (fg_bibop st))"
    by (simp_all add: heap_inv_def)
  have "(t, b, s, n) \<notin> S" using lists_invD(5) [OF li] small(1) by blast
  moreover have "j < 2 ^ (4 + b)" using j small(2) usable_less(1) [of c b] by simp
  ultimately have "heap_access (heap_env pf) (fg_bibop st) (seq_addr c k hb t b s n + of_nat j)"
    using object_accessible [OF fg_invD(5) [OF I] gi] small(1) by (simp add: live_def)
  then show ?thesis using small(2) by (simp add: mem_ok_def)
next
  case (large a ob)
  note L = large_block_span [OF I large(1)]
  have lt: "unat a + j < unat a + unat (ob_size (fg_big st) ob)" using j large(2) by simp
  moreover have "unat a + unat (ob_size (fg_big st) ob) < 2 ^ 64" using L(1,2) by (simp add: pages_ok_def)
  ultimately have lt64: "unat a + j < 2 ^ LENGTH(64)" by simp
  then have u: "unat (a + of_nat j) = unat a + j" by (subst unat_add_less) (simp_all add: unat_of_nat_less)
  have "unat (a + of_nat j) \<in> span (a, unat (ob_size (fg_big st) ob))" using lt unfolding u span_def by simp
  then have "mapped (large_env pf) (big_calls (fg_big st)) (a + of_nat j)"
    using L(1,3) by (auto simp: pages_ok_def)
  then show ?thesis using large(2) by (simp add: mem_ok_def)
qed

lemma block_bounds:
  assumes I: "fg_inv pf c k hb sb N L S st" and x: "(p, m) \<in> fg_blocks c k hb sb st"
  shows "0 < unat p" "0 < m" "unat p + m < 2 ^ 64"
proof -
  have "0 < unat p \<and> 0 < m \<and> unat p + m < 2 ^ 64" using x
  proof (cases rule: block_cases)
    case (small t b s n)
    then show ?thesis using small_block_span [OF I small(1)] usable_less [of c b] fg_invD(9) [OF I] by simp
  next
    case (large a ob)
    note L = large_block_span [OF I large(1)]
    have "unat (ob_start (fg_big st) ob) \<le> unat a"
    proof (rule ccontr)
      assume "\<not> unat (ob_start (fg_big st) ob) \<le> unat a"
      then have "unat a \<in> span (a, unat (ob_size (fg_big st) ob)) \<and> unat a \<notin> pages (fg_big st) ob"
        using L(1) by (simp add: span_def pages_def pages_ok_def)
      then show False using L(3) by blast
    qed
    then show ?thesis using L(1,2) large(2) by (simp add: pages_ok_def)
  qed
  then show "0 < unat p" "0 < m" "unat p + m < 2 ^ 64" by blast+
qed

lemma block_byte:
  assumes I: "fg_inv pf c k hb sb N L S st" and x: "(p, m) \<in> fg_blocks c k hb sb st" and j: "j < m"
  shows "unat (p + of_nat j) = unat p + j" "unat (p + of_nat j) \<in> span (p, m)"
proof -
  have "unat p + j < 2 ^ LENGTH(64)" using block_bounds(3) [OF I x] j by simp
  then show u: "unat (p + of_nat j) = unat p + j" by (subst unat_add_less) (simp_all add: unat_of_nat_less)
  show "unat (p + of_nat j) \<in> span (p, m)" unfolding u span_def using j by simp
qed

end
