(* ===== verification/ProcessOps.thy ===== *)
theory ProcessOps
  imports ProcessInv
begin

text \<open>
  What \<open>malloc\<close> and \<open>free\<close> do to the blocks of a process.

  \<open>request_ok\<close> says that a request can be served: a small one has room in its class, for a large
  one the kernel maps free address space and the C library returns unused memory.  \<open>intact\<close>:
  no canary was overwritten.  Lemmas: \<open>malloc_ok\<close> and \<open>free_ok\<close>, each from a lemma per heap.
\<close>

section \<open>Requests\<close>

definition new_pages :: "env \<Rightarrow> size_t \<Rightarrow> bigheap \<Rightarrow> nat set" where
  "new_pages env sz bh = {unat (env (big_mapped env sz bh))..<
     unat (env (big_mapped env sz bh)) + unat (alignup sz PageSize)}"

definition kernel_fits :: "env \<Rightarrow> build \<Rightarrow> nat \<Rightarrow> addr \<Rightarrow> size_t \<Rightarrow> bigheap \<Rightarrow> bool" where
  "kernel_fits env c k hb sz bh \<longleftrightarrow> big_ready env sz bh \<and> unat sz + 4096 \<le> 2 ^ 64 \<and>
    0 < unat (env (big_mapped env sz bh)) \<and>
    unat (env (big_mapped env sz bh)) + unat (alignup sz PageSize) < 2 ^ 64 \<and>
    disjnt (new_pages env sz bh) {unat hb..heap_top c k hb} \<and>
    (\<forall>ob\<in>ran (big_objects bh). disjnt (new_pages env sz bh) (pages bh ob))"

definition request_ok ::
  "'r platform \<Rightarrow> build \<Rightarrow> nat \<Rightarrow> addr \<Rightarrow> bump_map \<Rightarrow> caller \<Rightarrow> size_t \<Rightarrow> 'r process \<Rightarrow> bool"
where
  "request_ok pf c k hb N who sz st \<longleftrightarrow> sz \<noteq> - 1 \<and>
    (if IF_CANARY_CONDITION c sz then kernel_fits (large_env pf) c k hb sz (fg_big st)
     else \<exists>t<MAX_ALIVE_THREADS. currentIndex c who st = Inr (int t) \<and>
       has_room c k N t (class_bag (need c (unat sz))))"

definition intact :: "build \<Rightarrow> nat \<Rightarrow> addr \<Rightarrow> addr \<Rightarrow> 'r bibop \<Rightarrow> bool" where
  "intact c k hb sb bb \<longleftrightarrow> (USE_CANARY c \<longrightarrow> (\<forall>(t, b, s, n)\<in>live c k sb bb.
     bytes bb (canary_addr c k hb t b s n) = CANARY_SENTINEL))"

definition same_blocks :: "(addr \<times> nat) set \<Rightarrow> 'r process \<Rightarrow> 'r process \<Rightarrow> bool" where
  "same_blocks B st st' \<longleftrightarrow> (\<forall>(p, m)\<in>B. \<forall>j<m.
     bytes (fg_bibop st') (p + of_nat j) = bytes (fg_bibop st) (p + of_nat j))"

lemma same_blocksI:
  "(\<And>p m j. (p, m) \<in> B \<Longrightarrow> j < m \<Longrightarrow> bytes (fg_bibop st') (p + of_nat j) = bytes (fg_bibop st) (p + of_nat j)) \<Longrightarrow>
    same_blocks B st st'"
  by (auto simp: same_blocks_def)

lemma intactI:
  "(\<And>t b s n. USE_CANARY c \<Longrightarrow> (t, b, s, n) \<in> live c k sb bb \<Longrightarrow>
    bytes bb (canary_addr c k hb t b s n) = CANARY_SENTINEL) \<Longrightarrow> intact c k hb sb bb"
  by (auto simp: intact_def)

lemma image_minus: "(\<And>y. y \<in> A \<Longrightarrow> y \<noteq> x \<Longrightarrow> f y \<noteq> f x) \<Longrightarrow> f ` (A - {x}) = f ` A - {f x}"
  by auto

lemma large_threshold: "LARGE_OBJECT_THRESHOLD c = 2 ^ large_shift c" "(2::nat) ^ large_shift c \<le> 2 ^ 22"
  by (simp_all add: LARGE_OBJECT_THRESHOLD_def MIN_RANDOM_BAG_SIZE_def large_shift_def)

lemma size_not_max:
  fixes sz :: size_t
  assumes "sz \<noteq> - 1"
  shows "unat (sz + 1) = unat sz + 1"
proof -
  have "unat (- 1 :: size_t) = 2 ^ 64 - 1" by (simp add: unsigned_minus_1_eq_mask mask_eq_exp_minus_1)
  moreover have "unat sz \<noteq> unat (- 1 :: size_t)" using assms by (metis word_unat_eq_iff)
  ultimately have "unat sz + 1 < 2 ^ 64" using unat_lt64 [of sz] by linarith
  then show ?thesis by (subst unat_add_less) simp_all
qed

lemma small_request:
  assumes "sz \<noteq> - 1"
  shows "IF_CANARY_CONDITION c sz \<longleftrightarrow> 2 ^ large_shift c < need c (unat sz)"
proof -
  have "(2::nat) ^ large_shift c < 2 ^ LENGTH(64)" using large_threshold(2) [of c] by simp
  then have u: "unat (of_nat (2 ^ large_shift c) :: size_t) = 2 ^ large_shift c" by (rule unat_of_nat_less)
  show ?thesis
    unfolding IF_CANARY_CONDITION_def need_def large_threshold(1) word_less_nat_alt u size_not_max [OF assms] by simp
qed

lemma verdict_intact:
  assumes "intact c k hb sb st" and "(t, b, s, n) \<in> live c k sb st"
  shows "verdict c k hb sb st t b s n = Inr ()"
proof (cases "USE_CANARY c")
  case True
  have "\<not> broken c k hb sb st t b s m" for m using assms(1) True by (auto simp: broken_def intact_def)
  then have "first_broken c k hb sb st t b s ms = Inr ()" for ms
    by (induction ms) (simp_all add: first_broken_simps)
  then show ?thesis using assms True by (auto simp: verdict_def intact_def)
qed (simp add: verdict_def)

section \<open>Canaries and blocks\<close>

lemma canary_byte:
  assumes I: "fg_inv pf c k hb sb N L S st" and l: "(t, b, s, n) \<in> live c k sb (fg_bibop st)"
  shows "unat (canary_addr c k hb t b s n) = unat (seq_addr c k hb t b s n) + (2 ^ (4 + b) - 1)"
    "unat (canary_addr c k hb t b s n) \<in> span (seq_addr c k hb t b s n, 2 ^ (4 + b))"
proof -
  note B = small_block_span [OF I l]
  have pos: "0 < (2::nat) ^ (4 + b)" by simp
  have lt: "unat (seq_addr c k hb t b s n) + (2 ^ (4 + b) - 1) < 2 ^ LENGTH(64)" using B(2,3) pos by simp
  then have "(2::nat) ^ (4 + b) - 1 < 2 ^ LENGTH(64)" by linarith
  then have e: "unat (of_nat (2 ^ (4 + b) - 1) :: addr) = 2 ^ (4 + b) - 1" by (rule unat_of_nat_less)
  show u: "unat (canary_addr c k hb t b s n) = unat (seq_addr c k hb t b s n) + (2 ^ (4 + b) - 1)"
    unfolding canary_addr_def using unat_add_less [of "seq_addr c k hb t b s n" "of_nat (2 ^ (4 + b) - 1)"] lt
    unfolding e by (simp only:)
  show "unat (canary_addr c k hb t b s n) \<in> span (seq_addr c k hb t b s n, 2 ^ (4 + b))"
    unfolding u span_def atLeastLessThan_iff fst_conv snd_conv using pos by linarith
qed

text \<open>A byte of a block is never a canary.\<close>

lemma canary_not_in_block:
  assumes I: "fg_inv pf c k hb sb N L S st" and l: "(t, b, s, n) \<in> live c k sb (fg_bibop st)"
    and can: "USE_CANARY c" and x: "(p, m) \<in> fg_blocks c k hb sb st"
  shows "unat (canary_addr c k hb t b s n) \<notin> span (p, m)"
  using x
proof (cases rule: block_cases)
  case (small t' b' s' n')
  show ?thesis
  proof (cases "(t', b', s', n') = (t, b, s, n)")
    case True
    then show ?thesis using small(2) can canary_byte(1) [OF I l] by (simp add: span_def usable_def)
  next
    case False
    from small_spans_disjoint [OF I small(1) l False] canary_byte(2) [OF I l] small_block_between(2) [OF I small(1)]
    show ?thesis unfolding small(2) disjnt_iff by blast
  qed
next
  case (large a ob)
  have "disjnt (pages (fg_big st) ob) {unat hb..heap_top c k hb}"
    using large_block_span(1) [OF I large(1)] by (simp add: pages_ok_def)
  then show ?thesis
    using canary_byte(2) [OF I l] small_block_between(1) [OF I l] large_block_span(3) [OF I large(1)]
    unfolding large(2) disjnt_iff by blast
qed

lemma zeroed_outside: "unat a + m < 2 ^ 64 \<Longrightarrow> unat x \<notin> span (a, m) \<Longrightarrow> zeroed a m f x = f x"
proof -
  assume lt: "unat a + m < 2 ^ 64" and out: "unat x \<notin> span (a, m)"
  then have "m < 2 ^ LENGTH(64)" by simp
  then have u: "unat (of_nat m :: addr) = m" by (rule unat_of_nat_less)
  have "\<not> x - a < of_nat m" using word_range [of a "of_nat m" x] lt out by (simp add: u span_def)
  then show ?thesis by (simp add: zeroed_def word_less_nat_alt u)
qed

lemma copied_outside: "unat a + m < 2 ^ 64 \<Longrightarrow> unat x \<notin> span (a, m) \<Longrightarrow> copied a s m f x = f x"
proof -
  assume lt: "unat a + m < 2 ^ 64" and out: "unat x \<notin> span (a, m)"
  then have "m < 2 ^ LENGTH(64)" by simp
  then have u: "unat (of_nat m :: addr) = m" by (rule unat_of_nat_less)
  have "\<not> x - a < of_nat m" using word_range [of a "of_nat m" x] lt out by (simp add: u span_def)
  then show ?thesis by (simp add: copied_def word_less_nat_alt u)
qed

section \<open>Allocation\<close>

lemma allocate_small_ok:
  assumes I: "fg_inv pf c k hb sb N L S st" and t: "t < MAX_ALIVE_THREADS" "currentIndex c who st = Inr (int t)"
    and sz: "need c (unat sz) \<le> 2 ^ large_shift c" and room: "has_room c k N t (class_bag (need c (unat sz)))"
  defines "b \<equiv> class_bag (need c (unat sz))"
  shows "\<exists>s n st' N' L' S'. allocate_small pf c who sz st = Inr (seq_addr c k hb t b s n, st') \<and>
    fg_inv pf c k hb sb N' L' S' st' \<and> unat sz \<le> usable c b \<and> (t, b, s, n) \<in> live c k sb (fg_bibop st') \<and>
    fg_blocks c k hb sb st' = insert (seq_addr c k hb t b s n, usable c b) (fg_blocks c k hb sb st) \<and>
    (seq_addr c k hb t b s n, usable c b) \<notin> fg_blocks c k hb sb st \<and>
    same_blocks (fg_blocks c k hb sb st) st st' \<and>
    (intact c k hb sb (fg_bibop st) \<longrightarrow> intact c k hb sb (fg_bibop st'))"
proof -
  have h: "heap_inv c k hb sb N L S (fg_bibop st)" by (rule fg_invD [OF I])
  obtain s n bb N' L' S' where a: "allocateSmallObject (heap_env pf) c (rand pf t) t sz (fg_bibop st)
      = Inr (seq_addr c k hb t b s n, bb)" "heap_inv c k hb sb N' L' S' bb" "item_ok c t b s" "in_room c k b s n"
    "(t, b, s, n) \<notin> live c k sb (fg_bibop st)"
    "live c k sb bb = insert (t, b, s, n) (live c k sb (fg_bibop st))"
    "bytes bb = (if USE_CANARY c then (bytes (fg_bibop st))(canary_addr c k hb t b s n := CANARY_SENTINEL)
                 else bytes (fg_bibop st))"
    using allocateSmallObject_ok [OF h t(1) sz room, of "heap_env pf" "rand pf t"] unfolding b_def canary_addr_def by blast
  let ?st = "st\<lparr> fg_bibop := bb \<rparr>" and ?x = "(seq_addr c k hb t b s n, usable c b)"
  have run: "allocate_small pf c who sz st = Inr (seq_addr c k hb t b s n, ?st)"
    using a(1) t by (simp add: allocate_small_def)
  have I': "fg_inv pf c k hb sb N' L' S' ?st" using I a(2) by (simp add: fg_inv_def)
  have l: "(t, b, s, n) \<in> live c k sb (fg_bibop ?st)" using a(6) by simp
  have blocks: "fg_blocks c k hb sb ?st = insert ?x (fg_blocks c k hb sb st)"
    by (simp add: fg_blocks_def small_blocks_def a(6))
  have new: "?x \<notin> fg_blocks c k hb sb st"
  proof
    assume "?x \<in> fg_blocks c k hb sb st"
    then show False
    proof (cases rule: block_cases)
      case (small t' b' s' n')
      then have "item_ok c t' b' s'" "in_room c k b' s' n'" "(t', b', s', n') \<noteq> (t, b, s, n)"
        using a(5) by (auto simp: live_def)
      with seq_addr_inj [OF fg_invD(6) [OF I] a(3) _ a(4), of t' b' s' n' hb] small(2) show False by auto
    next
      case (large p ob)
      then show False using large_block_span(4) [OF I large(1)] small_block_span(4) [OF I' l]
          fg_invD(8) [OF I] fg_invD(8) [OF I'] by simp
    qed
  qed
  have same: "same_blocks (fg_blocks c k hb sb st) st ?st"
  proof (rule same_blocksI)
    fix p m j assume x: "(p, m) \<in> fg_blocks c k hb sb st" and j: "j < m"
    have "(p, m) \<in> fg_blocks c k hb sb ?st" using x blocks by blast
    then have "USE_CANARY c \<Longrightarrow> p + of_nat j \<noteq> canary_addr c k hb t b s n"
      using canary_not_in_block [OF I' l] block_byte(2) [OF I x j] by metis
    then show "bytes (fg_bibop ?st) (p + of_nat j) = bytes (fg_bibop st) (p + of_nat j)" using a(7) by simp
  qed
  have can: "intact c k hb sb (fg_bibop st) \<longrightarrow> intact c k hb sb (fg_bibop ?st)"
    using a(6,7) by (auto simp: intact_def)
  have u: "unat sz \<le> usable c b"
    using class_bag_least(1) [of "need c (unat sz)"] by (auto simp: usable_def need_def b_def split: if_splits)
  show ?thesis using run I' u l blocks new same can by blast
qed

text \<open>A new mapping.\<close>

lemma mapped_allocated:
  "mapped env (big_calls (big_allocated env sz bh)) x \<longleftrightarrow>
    env (big_mapped env sz bh) \<noteq> MAP_FAILED \<and> x - env (big_mapped env sz bh) < alignup sz PageSize \<or>
    mapped env (big_calls bh) x"
  by (simp add: big_allocated_def big_mapped_def private_map_def Let_def)

lemma large_ok_allocated:
  assumes inv: "big_inv bh" and ok: "large_ok env c k hb bh" and f: "kernel_fits env c k hb sz bh" and sz: "0 < unat sz"
    and c: "NDEBUG c \<or> IF_CANARY_CONDITION c sz"
  shows "large_ok env c k hb (big_allocated env sz bh)"
proof -
  let ?bh = "big_allocated env sz bh" and ?new = "big_status env bh"
  have r: "big_ready env sz bh" using f by (simp add: kernel_fits_def)
  note A = allocateAtBigHeap_ok [OF inv r c]
  have nin: "?new \<notin> ran (big_objects bh)" and nf: "env (big_mapped env sz bh) \<noteq> MAP_FAILED"
    and none: "big_objects bh (big_addr env sz bh) = None" using r by (simp_all add: big_ready_def)
  have fields: "ob_start ?bh ?new = env (big_mapped env sz bh)" "ob_size ?bh ?new = sz"
    "ob_pageUpSize ?bh ?new = alignup sz PageSize" by (simp_all add: big_allocated_def Let_def)
  have old: "ob_start ?bh ob = ob_start bh ob" "ob_size ?bh ob = ob_size bh ob" "ob_pageUpSize ?bh ob = ob_pageUpSize bh ob"
    if "ob \<noteq> ?new" for ob using that by (simp_all add: big_allocated_def Let_def)
  have pn: "pages ?bh ?new = new_pages env sz bh" by (simp add: pages_def fields new_pages_def)
  have po: "pages ?bh ob = pages bh ob" if "ob \<noteq> ?new" for ob by (simp add: pages_def old [OF that])
  have ran: "ran (big_objects ?bh) = insert ?new (ran (big_objects bh))" unfolding A(2) using none by (rule ran_map_upd)
  have fit: "unat sz + 4096 \<le> 2 ^ 64" "0 < unat (env (big_mapped env sz bh))"
    "unat (env (big_mapped env sz bh)) + unat (alignup sz PageSize) < 2 ^ 64"
    "disjnt (new_pages env sz bh) {unat hb..heap_top c k hb}"
    "\<And>ob. ob \<in> ran (big_objects bh) \<Longrightarrow> disjnt (new_pages env sz bh) (pages bh ob)"
    using f by (simp_all add: kernel_fits_def)
  have "mapped env (big_calls ?bh) x" if "unat x \<in> new_pages env sz bh" for x
    unfolding mapped_allocated word_range [OF fit(3)] using that nf by (simp add: new_pages_def)
  then have n: "pages_ok env c k hb ?bh ?new" using fit sz by (simp add: pages_ok_def fields pn)
  have o: "pages_ok env c k hb ?bh ob" if "ob \<in> ran (big_objects bh)" for ob
  proof -
    have ne: "ob \<noteq> ?new" using that nin by blast
    have "pages_ok env c k hb bh ob" using ok that by (simp add: large_ok_def)
    then show ?thesis unfolding pages_ok_def old [OF ne] po [OF ne] mapped_allocated by blast
  qed
  have d: "disjnt (pages ?bh ob) (pages ?bh ob')"
    if "ob \<in> ran (big_objects ?bh)" "ob' \<in> ran (big_objects ?bh)" "ob \<noteq> ob'" for ob ob'
  proof -
    have ne: "x \<noteq> ?new" if "x \<in> ran (big_objects bh)" for x using that nin by blast
    have "ob \<in> ran (big_objects bh) \<Longrightarrow> ob' \<in> ran (big_objects bh) \<Longrightarrow> disjnt (pages bh ob) (pages bh ob')"
      using ok that(3) unfolding large_ok_def by blast
    then show ?thesis using that fit(5) unfolding ran insert_iff
      by (elim disjE) (auto simp: pn po ne disjnt_sym)
  qed
  show ?thesis unfolding large_ok_def using n o d unfolding ran by blast
qed

lemma allocate_large_ok:
  assumes I: "fg_inv pf c k hb sb N L S st" and f: "kernel_fits (large_env pf) c k hb sz (fg_big st)"
    and sz: "0 < unat sz" and c: "IF_CANARY_CONDITION c sz"
  defines "p \<equiv> big_addr (large_env pf) sz (fg_big st)"
  shows "\<exists>st'. xxmalloc pf c who sz st = Inr (p, st') \<and> fg_inv pf c k hb sb N L S st' \<and>
    fg_blocks c k hb sb st' = insert (p, unat sz) (fg_blocks c k hb sb st) \<and>
    (p, unat sz) \<notin> fg_blocks c k hb sb st \<and> fg_bibop st' = fg_bibop st"
proof -
  note I' = fg_invD [OF I]
  let ?env = "large_env pf" and ?bh = "big_allocated (large_env pf) sz (fg_big st)"
  have r: "big_ready ?env sz (fg_big st)" using f by (simp add: kernel_fits_def)
  have c': "NDEBUG c \<or> IF_CANARY_CONDITION c sz" using c by blast
  note A = allocateAtBigHeap_ok [OF I'(3) r c']
  have sizes: "big_sizes ?bh = (big_sizes (fg_big st))(p \<mapsto> sz)"
    unfolding p_def by (rule big_sizes_allocated [OF I'(3) r c'])
  have none: "big_sizes (fg_big st) p = None" using r by (simp add: p_def big_sizes_def big_ready_def)
  let ?st = "st\<lparr> numLargeObjects := numLargeObjects st + 1, fg_big := ?bh \<rparr>"
  have run: "xxmalloc pf c who sz st = Inr (p, ?st)"
    using A(1) c I'(1) by (simp add: xxmalloc_def ensure_init_def p_def)
  have inv: "fg_inv pf c k hb sb N L S ?st"
    using I A(3) large_ok_allocated [OF I'(3,4) f sz c'] by (simp add: fg_inv_def)
  have lb: "large_blocks ?bh = insert (p, unat sz) (large_blocks (fg_big st))"
    unfolding large_blocks_def sizes using none by auto
  then have blocks: "fg_blocks c k hb sb ?st = insert (p, unat sz) (fg_blocks c k hb sb st)"
    by (simp add: fg_blocks_def)
  obtain ob where ob: "big_objects (fg_big ?st) p = Some ob" using A(2) by (simp add: p_def)
  have "(p, unat sz) \<notin> fg_blocks c k hb sb st"
  proof
    assume "(p, unat sz) \<in> fg_blocks c k hb sb st"
    then show False
    proof (cases rule: block_cases)
      case (small t b s n)
      then show False using small_block_span(4) [OF I small(1)] large_block_span(4) [OF inv ob] by simp
    next
      case (large a ob')
      then show False using none by (simp add: big_sizes_def)
    qed
  qed
  then show ?thesis using run inv blocks by (intro exI [of _ ?st]) simp
qed

lemma malloc_ok:
  assumes I: "fg_inv pf c k hb sb N L S st" and r: "request_ok pf c k hb N who sz st"
  shows "\<exists>p m st' N' L' S'. xxmalloc pf c who sz st = Inr (p, st') \<and> fg_inv pf c k hb sb N' L' S' st' \<and>
    unat sz \<le> m \<and> fg_blocks c k hb sb st' = insert (p, m) (fg_blocks c k hb sb st) \<and>
    (p, m) \<notin> fg_blocks c k hb sb st \<and> same_blocks (fg_blocks c k hb sb st) st st' \<and>
    (intact c k hb sb (fg_bibop st) \<longrightarrow> intact c k hb sb (fg_bibop st'))"
proof (cases "IF_CANARY_CONDITION c sz")
  case True
  have f: "kernel_fits (large_env pf) c k hb sz (fg_big st)" using r True by (simp add: request_ok_def)
  have "sz \<noteq> - 1" using r by (simp add: request_ok_def)
  then have "2 ^ large_shift c < need c (unat sz)" using small_request [of sz c] True by blast
  moreover have "(1::nat) < 2 ^ large_shift c" by (rule one_less_power) (simp_all add: large_shift_def)
  ultimately have "0 < unat sz" by (simp add: need_def split: if_splits)
  from allocate_large_ok [OF I f this True, of who] obtain p st' where
    "xxmalloc pf c who sz st = Inr (p, st')" "fg_inv pf c k hb sb N L S st'"
    "fg_blocks c k hb sb st' = insert (p, unat sz) (fg_blocks c k hb sb st)"
    "(p, unat sz) \<notin> fg_blocks c k hb sb st" "fg_bibop st' = fg_bibop st" by blast
  then show ?thesis
    by (intro exI [of _ p] exI [of _ "unat sz"] exI [of _ st'] exI [of _ N] exI [of _ L] exI [of _ S])
      (simp add: same_blocks_def)
next
  case False
  obtain t where t: "t < MAX_ALIVE_THREADS" "currentIndex c who st = Inr (int t)"
    "has_room c k N t (class_bag (need c (unat sz)))" "sz \<noteq> - 1" using r False by (auto simp: request_ok_def)
  have "need c (unat sz) \<le> 2 ^ large_shift c" using small_request [OF t(4)] False by simp
  from allocate_small_ok [OF I t(1,2) this t(3)] obtain p m st' N' L' S' where
    "allocate_small pf c who sz st = Inr (p, st')" "fg_inv pf c k hb sb N' L' S' st'" "unat sz \<le> m"
    "fg_blocks c k hb sb st' = insert (p, m) (fg_blocks c k hb sb st)" "(p, m) \<notin> fg_blocks c k hb sb st"
    "same_blocks (fg_blocks c k hb sb st) st st'"
    "intact c k hb sb (fg_bibop st) \<longrightarrow> intact c k hb sb (fg_bibop st')" by blast
  then show ?thesis using False fg_invD(1) [OF I] unfolding xxmalloc_def ensure_init_def by auto
qed

section \<open>Freeing\<close>

lemma same_blocks_zeroed:
  assumes I: "fg_inv pf c k hb sb N L S st" and x: "(p, m) \<in> fg_blocks c k hb sb st" and e: "e \<le> m"
    and b: "bytes (fg_bibop st') = zeroed p e (bytes (fg_bibop st))"
  shows "same_blocks (fg_blocks c k hb sb st - {(p, m)}) st st'"
proof (rule same_blocksI)
  fix q n j assume y': "(q, n) \<in> fg_blocks c k hb sb st - {(p, m)}" and j: "j < n"
  then have y: "(q, n) \<in> fg_blocks c k hb sb st" "(q, n) \<noteq> (p, m)" by simp_all
  have "unat (q + of_nat j) \<notin> span (p, m)"
    using spans_disjoint [OF I x y(1)] y(2) block_byte(2) [OF I y(1) j] by (auto simp: disjnt_iff)
  then have "unat (q + of_nat j) \<notin> span (p, e)" using e by (auto simp: span_def)
  moreover have "unat p + e < 2 ^ 64" using block_bounds(3) [OF I x] e by simp
  ultimately show "bytes (fg_bibop st') (q + of_nat j) = bytes (fg_bibop st) (q + of_nat j)"
    unfolding b by (intro zeroed_outside)
qed

lemma free_small_ok:
  assumes I: "fg_inv pf c k hb sb N L S st" and l: "(t, b, s, n) \<in> live c k sb (fg_bibop st)"
    and v: "intact c k hb sb (fg_bibop st)" and cf: "\<not> CFREELIST c"
  defines "x \<equiv> (seq_addr c k hb t b s n, usable c b)"
  shows "\<exists>st' L'. xxfree pf c who (seq_addr c k hb t b s n) st = Inr st' \<and> fg_inv pf c k hb sb N L' S st' \<and>
    fg_blocks c k hb sb st' = fg_blocks c k hb sb st - {x} \<and> intact c k hb sb (fg_bibop st') \<and>
    same_blocks (fg_blocks c k hb sb st - {x}) st st'"
proof -
  let ?a = "seq_addr c k hb t b s n"
  note I' = fg_invD [OF I]
  obtain bb L' where f: "freeSmallObject (heap_env pf) c 0 ?a (fg_bibop st) = Inr bb" "heap_inv c k hb sb N L' S bb"
    "live c k sb bb = live c k sb (fg_bibop st) - {(t, b, s, n)}"
    "bytes bb = zeroed ?a (erased c b) (bytes (fg_bibop st))"
    using freeSmallObject_ok [OF I'(2) l verdict_intact [OF v l] cf, of "heap_env pf" 0] by blast
  let ?st = "st\<lparr> fg_bibop := bb \<rparr>"
  have small: "isSmallObject (geom (fg_bibop st)) ?a" by (rule small_block_span [OF I l])
  have x: "x \<in> fg_blocks c k hb sb st" using l by (force simp: x_def fg_blocks_def small_blocks_def)
  have nz: "?a \<noteq> 0" using block_bounds(1) [OF I x [unfolded x_def]] by auto
  have run: "xxfree pf c who ?a st = Inr ?st"
    using nz I'(1) small f(1) cf by (simp add: xxfree_def free_small_def)
  have inv: "fg_inv pf c k hb sb N L' S ?st" using I f(2) by (simp add: fg_inv_def)
  have uniq: "seq_addr c k hb t' b' s' n' \<noteq> ?a"
    if "(t', b', s', n') \<in> live c k sb (fg_bibop st)" "(t', b', s', n') \<noteq> (t, b, s, n)" for t' b' s' n'
    using seq_addr_inj [OF I'(6)] that l unfolding live_def by blast
  have sm: "small_blocks c k hb sb bb = small_blocks c k hb sb (fg_bibop st) - {x}"
    unfolding small_blocks_def f(3) by (subst image_minus) (use uniq in \<open>auto simp: x_def\<close>)
  have "x \<notin> large_blocks (fg_big st)"
  proof
    assume "x \<in> large_blocks (fg_big st)"
    then obtain ob where "big_objects (fg_big st) ?a = Some ob"
      by (auto simp: x_def large_blocks_def big_sizes_def)
    from large_block_span(4) [OF I this] small show False by simp
  qed
  then have blocks: "fg_blocks c k hb sb ?st = fg_blocks c k hb sb st - {x}" by (auto simp: fg_blocks_def sm)
  have le: "erased c b \<le> usable c b" by (simp add: erased_def usable_def Let_def)
  have same: "same_blocks (fg_blocks c k hb sb st - {x}) st ?st"
    unfolding x_def by (rule same_blocks_zeroed [OF I x [unfolded x_def] le]) (simp add: f(4))
  have "intact c k hb sb bb"
  proof (rule intactI)
    fix t' b' s' n' assume can: "USE_CANARY c" and "(t', b', s', n') \<in> live c k sb bb"
    then have l': "(t', b', s', n') \<in> live c k sb (fg_bibop st)" unfolding f(3) by blast
    have "unat (canary_addr c k hb t' b' s' n') \<notin> span (?a, usable c b)"
      by (rule canary_not_in_block [OF I l' can x [unfolded x_def]])
    then have "unat (canary_addr c k hb t' b' s' n') \<notin> span (?a, erased c b)" using le by (auto simp: span_def)
    moreover have "unat ?a + erased c b < 2 ^ 64" using block_bounds(3) [OF I x [unfolded x_def]] le by simp
    ultimately have "bytes bb (canary_addr c k hb t' b' s' n') = bytes (fg_bibop st) (canary_addr c k hb t' b' s' n')"
      unfolding f(4) by (intro zeroed_outside)
    then show "bytes bb (canary_addr c k hb t' b' s' n') = CANARY_SENTINEL" using v can l' by (auto simp: intact_def)
  qed
  then show ?thesis using run inv blocks same by (intro exI [of _ ?st] exI [of _ L']) simp
qed

lemma large_ok_freed:
  assumes inv: "big_inv bh" and ok: "large_ok env c k hb bh" and ob: "big_objects bh a = Some ob"
    and bh': "big_objects bh' = (big_objects bh)(a := None)"
      "big_calls bh' = Real_free x # Munmap (ob_start bh ob) (ob_pageUpSize bh ob) # Real_free y # big_calls bh"
      "ob_start bh' = ob_start bh" "ob_size bh' = ob_size bh" "ob_pageUpSize bh' = ob_pageUpSize bh"
  shows "large_ok env c k hb bh'"
proof -
  have ran: "ob' \<in> ran (big_objects bh) \<and> ob' \<noteq> ob" if r: "ob' \<in> ran (big_objects bh')" for ob'
  proof -
    obtain a' where a': "a' \<noteq> a" "big_objects bh a' = Some ob'"
      using r unfolding bh' ran_def by (auto split: if_splits)
    have "ob' \<noteq> ob" using inj_onD [OF big_invD(2) [OF inv], of a' a] a' ob by (auto simp: dom_def)
    then show ?thesis using a'(2) by (auto simp: ran_def)
  qed
  have pg: "pages bh' = pages bh" by (simp add: pages_def fun_eq_iff bh')
  have or: "ob \<in> ran (big_objects bh)" using ob by (auto simp: ran_def)
  have lt: "unat (ob_start bh ob) + unat (ob_pageUpSize bh ob) < 2 ^ 64"
    using ok or by (auto simp: large_ok_def pages_ok_def)
  have "pages_ok env c k hb bh' ob'" if "ob' \<in> ran (big_objects bh')" for ob'
  proof -
    have p: "pages_ok env c k hb bh ob'" and d: "disjnt (pages bh ob') (pages bh ob)"
      using ok or ran [OF that] unfolding large_ok_def by blast+
    have "mapped env (big_calls bh') z" if z: "unat z \<in> pages bh ob'" for z
    proof -
      have "unat z \<notin> pages bh ob" using d z by (auto simp: disjnt_iff)
      then have "\<not> z - ob_start bh ob < ob_pageUpSize bh ob" unfolding word_range [OF lt] by (simp add: pages_def)
      moreover have "mapped env (big_calls bh) z" using p z by (simp add: pages_ok_def)
      ultimately show ?thesis by (simp add: bh'(2))
    qed
    then show ?thesis using p by (simp add: pages_ok_def pg bh')
  qed
  then show ?thesis using ok ran unfolding large_ok_def pg by blast
qed

lemma free_large_ok:
  assumes I: "fg_inv pf c k hb sb N L S st" and ob: "big_objects (fg_big st) a = Some ob"
  defines "x \<equiv> (a, unat (ob_size (fg_big st) ob))"
  shows "\<exists>st'. xxfree pf c who a st = Inr st' \<and> fg_inv pf c k hb sb N L S st' \<and>
    fg_blocks c k hb sb st' = fg_blocks c k hb sb st - {x} \<and> fg_bibop st' = fg_bibop st"
proof -
  note I' = fg_invD [OF I]
  obtain bh e where d: "deallocateToBigHeap (large_env pf) c a (fg_big st) = Inr bh" "big_inv bh"
    "big_objects bh = (big_objects (fg_big st))(a := None)" "big_sizes bh = (big_sizes (fg_big st))(a := None)"
    "big_calls bh = Real_free ob # Munmap (ob_start (fg_big st) ob) (ob_pageUpSize (fg_big st) ob) # Real_free e
      # big_calls (fg_big st)"
    "ob_start bh = ob_start (fg_big st)" "ob_size bh = ob_size (fg_big st)" "ob_pageUpSize bh = ob_pageUpSize (fg_big st)"
    using deallocateToBigHeap_ok [OF I'(3) ob, of "large_env pf" c] by blast
  let ?st = "st\<lparr> fg_big := bh \<rparr>"
  have x: "x \<in> fg_blocks c k hb sb st" using ob by (auto simp: x_def fg_blocks_def large_blocks_def big_sizes_def)
  have nz: "a \<noteq> 0" using block_bounds(1) [OF I x [unfolded x_def]] by auto
  have "isLargeObject c a (fg_big st) = Inr True"
    using isLargeObject_ok [OF I'(3), of c a] ob by (auto simp: big_sizes_def)
  then have run: "xxfree pf c who a st = Inr ?st"
    using nz I'(1) large_block_span(4) [OF I ob] d(1) by (simp add: xxfree_def)
  have "large_ok (large_env pf) c k hb bh"
    by (rule large_ok_freed [OF I'(3,4) ob d(3,5-8)])
  then have inv: "fg_inv pf c k hb sb N L S ?st" using I d(2) by (simp add: fg_inv_def)
  have sz: "big_sizes (fg_big st) a = Some (ob_size (fg_big st) ob)" using ob by (simp add: big_sizes_def)
  have lb: "large_blocks bh = large_blocks (fg_big st) - {x}"
  proof (rule set_eqI)
    fix y :: "addr \<times> nat"
    have "fst y = a \<Longrightarrow> big_sizes (fg_big st) (fst y) = Some z \<Longrightarrow> snd y = unat z \<Longrightarrow> y = x" for z
      using sz by (cases y) (simp add: x_def)
    then show "y \<in> large_blocks bh \<longleftrightarrow> y \<in> large_blocks (fg_big st) - {x}"
      by (cases y) (auto simp: large_blocks_def d(4) x_def)
  qed
  have "x \<notin> small_blocks c k hb sb (fg_bibop st)"
  proof
    assume "x \<in> small_blocks c k hb sb (fg_bibop st)"
    then obtain t b s n where "(t, b, s, n) \<in> live c k sb (fg_bibop st)" "a = seq_addr c k hb t b s n"
      by (auto simp: x_def small_blocks_def)
    then show False using small_block_span(4) [OF I] large_block_span(4) [OF I ob] by blast
  qed
  then have "fg_blocks c k hb sb ?st = fg_blocks c k hb sb st - {x}" by (auto simp: fg_blocks_def lb)
  then show ?thesis using run inv by (intro exI [of _ ?st]) simp
qed

lemma free_ok:
  assumes I: "fg_inv pf c k hb sb N L S st" and x: "(p, m) \<in> fg_blocks c k hb sb st"
    and v: "intact c k hb sb (fg_bibop st)" and cf: "\<not> CFREELIST c"
  shows "\<exists>st' L'. xxfree pf c who p st = Inr st' \<and> fg_inv pf c k hb sb N L' S st' \<and>
    fg_blocks c k hb sb st' = fg_blocks c k hb sb st - {(p, m)} \<and> intact c k hb sb (fg_bibop st') \<and>
    same_blocks (fg_blocks c k hb sb st - {(p, m)}) st st'"
  using x
proof (cases rule: block_cases)
  case (small t b s n)
  from free_small_ok [OF I small(1) v cf, of who] small(2) show ?thesis by auto
next
  case (large a ob)
  from free_large_ok [OF I large(1), of who] obtain st' where
    "xxfree pf c who a st = Inr st'" "fg_inv pf c k hb sb N L S st'" "fg_bibop st' = fg_bibop st"
    "fg_blocks c k hb sb st' = fg_blocks c k hb sb st - {(a, unat (ob_size (fg_big st) ob))}" by blast
  then show ?thesis using v large(2)
    by (intro exI [of _ st'] exI [of _ L]) (simp add: same_blocks_def)
qed

section \<open>Sizes and contents\<close>

lemma object_size_block:
  assumes I: "fg_inv pf c k hb sb N L S st" and x: "(p, m) \<in> fg_blocks c k hb sb st"
  shows "\<exists>z. object_size c p st = Inr z \<and> unat z = m \<and> z \<noteq> - 1"
  using x
proof (cases rule: block_cases)
  case (small t b s n)
  have i: "item_ok c t b s" "in_room c k b s n" using small(1) by (auto simp: live_def)
  have m: "usable c b = m" using small(2) by simp
  note U = getUsableSize_ok [OF fg_invD(5) [OF I] i, folded usable_def, unfolded m]
  have y: "isSmallObject (geom (fg_bibop st)) p" using small_block_span(4) [OF I small(1)] small(2) by simp
  have r: "object_size c p st = Inr (of_nat m)"
    using y U(1) small(2) by (simp add: object_size_def getObjectSize_def isInvalidAddr_def isSmallObject_def)
  have "m \<noteq> 2 ^ 64 - 1"
    using block_bounds [OF I x] by linarith
  then have "unat (of_nat m :: size_t) \<noteq> unat (- 1 :: size_t)"
    using U(2) by (simp add: unsigned_minus_1_eq_mask mask_eq_exp_minus_1)
  then show ?thesis using r U(2) by fastforce
next
  case (large a ob)
  note L = large_block_span [OF I large(1)]
  have z: "big_sizes (fg_big st) a = Some (ob_size (fg_big st) ob)" using large(1) by (simp add: big_sizes_def)
  then have "object_size c p st = Inr (ob_size (fg_big st) ob)"
    using L(4) large(2) isLargeObject_ok [OF fg_invD(3) [OF I], of c a] big_getObjectSize_ok [OF fg_invD(3) [OF I], of c a]
    by (auto simp: object_size_def)
  moreover have "ob_size (fg_big st) ob \<noteq> - 1"
    using L(1) by (auto simp: pages_ok_def unsigned_minus_1_eq_mask mask_eq_exp_minus_1)
  ultimately show ?thesis using large(2) by auto
qed

lemma fg_inv_bytes:
  assumes "fg_inv pf c k hb sb N L S st"
  shows "fg_inv pf c k hb sb N L S (set_bytes f st)" "fg_blocks c k hb sb (set_bytes f st) = fg_blocks c k hb sb st"
    "live c k sb (fg_bibop (set_bytes f st)) = live c k sb (fg_bibop st)"
proof -
  note d = destroy_inv [OF fg_invD(2) [OF assms], of f]
  show "fg_inv pf c k hb sb N L S (set_bytes f st)" using assms d(1) by (simp add: fg_inv_def)
  show "live c k sb (fg_bibop (set_bytes f st)) = live c k sb (fg_bibop st)" using d(2) by simp
  show "fg_blocks c k hb sb (set_bytes f st) = fg_blocks c k hb sb st"
    by (simp add: fg_blocks_def small_blocks_def d(2))
qed

text \<open>A change of bytes inside one block changes no other block and no canary.\<close>

lemma write_in_block:
  assumes I: "fg_inv pf c k hb sb N L S st" and x: "(p, m) \<in> fg_blocks c k hb sb st"
    and f: "\<And>y. unat y \<notin> span (p, m) \<Longrightarrow> f y = bytes (fg_bibop st) y"
  shows "same_blocks (fg_blocks c k hb sb st - {(p, m)}) st (set_bytes f st)"
    "intact c k hb sb (fg_bibop st) \<Longrightarrow> intact c k hb sb (fg_bibop (set_bytes f st))"
proof -
  show "same_blocks (fg_blocks c k hb sb st - {(p, m)}) st (set_bytes f st)"
  proof (rule same_blocksI)
    fix q n j assume y: "(q, n) \<in> fg_blocks c k hb sb st - {(p, m)}" and j: "j < n"
    then have "unat (q + of_nat j) \<notin> span (p, m)"
      using spans_disjoint [OF I x, of "(q, n)"] block_byte(2) [OF I _ j] by (auto simp: disjnt_iff)
    then show "bytes (fg_bibop (set_bytes f st)) (q + of_nat j) = bytes (fg_bibop st) (q + of_nat j)"
      using f by simp
  qed
  show "intact c k hb sb (fg_bibop (set_bytes f st))" if v: "intact c k hb sb (fg_bibop st)"
  proof (rule intactI)
    fix t b s n assume can: "USE_CANARY c" and l: "(t, b, s, n) \<in> live c k sb (fg_bibop (set_bytes f st))"
    have "unat (canary_addr c k hb t b s n) \<notin> span (p, m)"
      by (rule canary_not_in_block [OF I l [unfolded fg_inv_bytes(3) [OF I]] can x])
    then show "bytes (fg_bibop (set_bytes f st)) (canary_addr c k hb t b s n) = CANARY_SENTINEL"
      using f v can l unfolding fg_inv_bytes(3) [OF I] by (auto simp: intact_def)
  qed
qed

lemma copied_inside: "j < m \<Longrightarrow> m < 2 ^ 64 \<Longrightarrow> copied d s m f (d + of_nat j) = f (s + of_nat j)"
proof -
  assume "j < m" "m < 2 ^ 64"
  then have "unat (of_nat j :: addr) = j" by (intro unat_of_nat_less) simp
  then show ?thesis using \<open>j < m\<close> by (simp add: copied_def)
qed

lemma zeroed_inside: "j < m \<Longrightarrow> m < 2 ^ 64 \<Longrightarrow> zeroed d m f (d + of_nat j) = 0"
proof -
  assume "j < m" "m < 2 ^ 64"
  then have "unat (of_nat j :: addr) = j" by (intro unat_of_nat_less) simp
  then show ?thesis using \<open>j < m\<close> by (simp add: zeroed_def)
qed

section \<open>realloc and calloc\<close>

lemma copy_block:
  assumes I: "fg_inv pf c k hb sb N L S st" and d: "(q, m') \<in> fg_blocks c k hb sb st" and x: "(p, m) \<in> fg_blocks c k hb sb st"
    and ne: "(q, m') \<noteq> (p, m)" and le: "m \<le> m'"
  shows "memcpy pf q p m st = Inr (set_bytes (copied q p m (bytes (fg_bibop st))) st)"
    and "same_blocks (fg_blocks c k hb sb st - {(q, m')}) st (set_bytes (copied q p m (bytes (fg_bibop st))) st)"
    and "intact c k hb sb (fg_bibop st) \<Longrightarrow> intact c k hb sb (fg_bibop (set_bytes (copied q p m (bytes (fg_bibop st))) st))"
proof -
  note B = block_bounds [OF I x]
  have m: "m < 2 ^ 64" using B(3) by simp
  have acc: "\<forall>j<m. mem_ok pf st (q + of_nat j) \<and> mem_ok pf st (p + of_nat j)"
    using block_access [OF I d] block_access [OF I x] le by simp
  have far: "\<forall>i<m. \<forall>j<m. p + of_nat i \<noteq> q + of_nat j"
  proof (intro allI impI)
    fix i j assume i: "i < m" and j: "j < m"
    have j': "j < m'" using j le by simp
    show "p + of_nat i \<noteq> q + of_nat j"
      using spans_disjoint [OF I d x ne] block_byte(2) [OF I x i] block_byte(2) [OF I d j'] unfolding disjnt_iff by metis
  qed
  show "memcpy pf q p m st = Inr (set_bytes (copied q p m (bytes (fg_bibop st))) st)"
    by (rule memcpy_ok [OF m acc far])
  have out: "copied q p m (bytes (fg_bibop st)) y = bytes (fg_bibop st) y" if "unat y \<notin> span (q, m')" for y
  proof (rule copied_outside)
    show "unat q + m < 2 ^ 64" using block_bounds(3) [OF I d] le by simp
    show "unat y \<notin> span (q, m)" using that le by (auto simp: span_def)
  qed
  note W = write_in_block [OF I d, of "copied q p m (bytes (fg_bibop st))", OF out]
  show "same_blocks (fg_blocks c k hb sb st - {(q, m')}) st (set_bytes (copied q p m (bytes (fg_bibop st))) st)" by (rule W(1))
  show "intact c k hb sb (fg_bibop st) \<Longrightarrow> intact c k hb sb (fg_bibop (set_bytes (copied q p m (bytes (fg_bibop st))) st))"
    by (rule W(2))
qed

lemma same_blocksD:
  "same_blocks B st st' \<Longrightarrow> (p, m) \<in> B \<Longrightarrow> j < m \<Longrightarrow>
    bytes (fg_bibop st') (p + of_nat j) = bytes (fg_bibop st) (p + of_nat j)"
  by (auto simp: same_blocks_def)

lemma same_blocks_trans: "same_blocks A st st' \<Longrightarrow> same_blocks B st' st'' \<Longrightarrow> C \<subseteq> A \<Longrightarrow> C \<subseteq> B \<Longrightarrow> same_blocks C st st''"
  by (fastforce simp: same_blocks_def)

lemma realloc_grows_ok:
  assumes I: "fg_inv pf c k hb sb N L S st" and x: "(p, m) \<in> fg_blocks c k hb sb st" and lt: "m < unat sz"
    and r: "request_ok pf c k hb N who sz st" and v: "intact c k hb sb (fg_bibop st)" and cf: "\<not> CFREELIST c"
  shows "\<exists>q m' st' N' L' S'. xxrealloc pf c who p sz st = Inr (q, st') \<and> fg_inv pf c k hb sb N' L' S' st' \<and>
    unat sz \<le> m' \<and> (q, m') \<notin> fg_blocks c k hb sb st \<and>
    fg_blocks c k hb sb st' = insert (q, m') (fg_blocks c k hb sb st - {(p, m)}) \<and>
    (\<forall>j<m. bytes (fg_bibop st') (q + of_nat j) = bytes (fg_bibop st) (p + of_nat j)) \<and>
    same_blocks (fg_blocks c k hb sb st - {(p, m)}) st st' \<and> intact c k hb sb (fg_bibop st')"
proof -
  let ?B = "fg_blocks c k hb sb"
  obtain z where z: "object_size c p st = Inr z" "unat z = m" "z \<noteq> - 1" using object_size_block [OF I x] by blast
  obtain q m' st1 N1 L1 S1 where a: "xxmalloc pf c who sz st = Inr (q, st1)" "fg_inv pf c k hb sb N1 L1 S1 st1"
    "unat sz \<le> m'" "?B st1 = insert (q, m') (?B st)" "(q, m') \<notin> ?B st" "same_blocks (?B st) st st1"
    "intact c k hb sb (fg_bibop st1)" using malloc_ok [OF I r] v by blast
  have x1: "(p, m) \<in> ?B st1" and d1: "(q, m') \<in> ?B st1" and ne: "(q, m') \<noteq> (p, m)" using a(4,5) x by auto
  have le: "m \<le> m'" using lt a(3) by simp
  define st2 where "st2 = set_bytes (copied q p m (bytes (fg_bibop st1))) st1"
  note C = copy_block [OF a(2) d1 x1 ne le, folded st2_def]
  have I2: "fg_inv pf c k hb sb N1 L1 S1 st2" and B2: "?B st2 = ?B st1"
    unfolding st2_def by (rule fg_inv_bytes [OF a(2)])+
  have x2: "(p, m) \<in> ?B st2" using x1 B2 by simp
  obtain st3 L3 where f: "xxfree pf c who p st2 = Inr st3" "fg_inv pf c k hb sb N1 L3 S1 st3"
    "?B st3 = ?B st2 - {(p, m)}" "intact c k hb sb (fg_bibop st3)" "same_blocks (?B st2 - {(p, m)}) st2 st3"
    using free_ok [OF I2 x2 C(3) [OF a(7)] cf] by blast
  have nz: "p \<noteq> 0" "sz \<noteq> 0" "\<not> sz \<le> z"
    using block_bounds(1) [OF I x] lt z(2) by (auto simp: word_le_nat_alt)
  have run: "xxrealloc pf c who p sz st = Inr (q, st3)"
    using fg_invD(1) [OF I] nz z C(1) a(1) f(1) by (simp add: xxrealloc_def ensure_init_def)
  have blocks: "?B st3 = insert (q, m') (?B st - {(p, m)})" using f(3) B2 a(4) ne by auto
  have "bytes (fg_bibop st3) (q + of_nat j) = bytes (fg_bibop st) (p + of_nat j)" if j: "j < m" for j
  proof -
    have "bytes (fg_bibop st3) (q + of_nat j) = bytes (fg_bibop st2) (q + of_nat j)"
      by (rule same_blocksD [OF f(5), of q m']) (use d1 B2 ne j le in auto)
    also have "\<dots> = bytes (fg_bibop st1) (p + of_nat j)"
      using copied_inside [OF j] block_bounds(3) [OF I x] by (simp add: st2_def)
    also have "\<dots> = bytes (fg_bibop st) (p + of_nat j)" by (rule same_blocksD [OF a(6) x j])
    finally show ?thesis .
  qed
  moreover have "same_blocks (?B st - {(p, m)}) st st3"
    by (rule same_blocks_trans [OF same_blocks_trans [OF a(6) C(2), of "?B st"] f(5)]) (use a(4,5) B2 in auto)
  ultimately show ?thesis using run f(2,4) blocks a(3,5) by blast
qed

lemma calloc_ok:
  assumes I: "fg_inv pf c k hb sb N L S st" and r: "request_ok pf c k hb N who (nelem * elsize) st"
  shows "\<exists>p m st' N' L' S'. xxcalloc pf c who nelem elsize st = Inr (p, st') \<and> fg_inv pf c k hb sb N' L' S' st' \<and>
    unat (nelem * elsize) \<le> m \<and> fg_blocks c k hb sb st' = insert (p, m) (fg_blocks c k hb sb st) \<and>
    (p, m) \<notin> fg_blocks c k hb sb st \<and> same_blocks (fg_blocks c k hb sb st) st st' \<and>
    (\<forall>j<unat (nelem * elsize). bytes (fg_bibop st') (p + of_nat j) = 0)"
proof -
  let ?B = "fg_blocks c k hb sb" and ?n = "unat (nelem * elsize)"
  obtain p m st1 N1 L1 S1 where a: "xxmalloc pf c who (nelem * elsize) st = Inr (p, st1)" "fg_inv pf c k hb sb N1 L1 S1 st1"
    "?n \<le> m" "?B st1 = insert (p, m) (?B st)" "(p, m) \<notin> ?B st" "same_blocks (?B st) st st1"
    using malloc_ok [OF I r] by blast
  have x: "(p, m) \<in> ?B st1" using a(4) by simp
  note B = block_bounds [OF a(2) x]
  define st2 where "st2 = set_bytes (zeroed p ?n (bytes (fg_bibop st1))) st1"
  have n: "?n < 2 ^ 64" by (rule unat_lt64)
  have "\<forall>j<?n. mem_ok pf st1 (p + of_nat j)" using block_access [OF a(2) x] a(3) by simp
  then have run: "xxcalloc pf c who nelem elsize st = Inr (p, st2)"
    using memset0_ok [OF n, of pf st1 p] a(1) B(1) by (auto simp: xxcalloc_def st2_def)
  have I2: "fg_inv pf c k hb sb N1 L1 S1 st2" and B2: "?B st2 = ?B st1"
    unfolding st2_def by (rule fg_inv_bytes [OF a(2)])+
  have out: "zeroed p ?n (bytes (fg_bibop st1)) y = bytes (fg_bibop st1) y" if "unat y \<notin> span (p, m)" for y
  proof (rule zeroed_outside)
    show "unat p + ?n < 2 ^ 64" using B(3) a(3) by simp
    show "unat y \<notin> span (p, ?n)" using that a(3) by (auto simp: span_def)
  qed
  have "same_blocks (?B st1 - {(p, m)}) st1 st2" unfolding st2_def by (rule write_in_block(1) [OF a(2) x out])
  then have "same_blocks (?B st) st st2" by (rule same_blocks_trans [OF a(6)]) (use a(4,5) in auto)
  moreover have "\<forall>j<?n. bytes (fg_bibop st2) (p + of_nat j) = 0"
    using zeroed_inside [OF _ n] by (simp add: st2_def)
  ultimately show ?thesis using run I2 a(3-5) B2 by (intro exI [of _ p] exI [of _ m] exI [of _ st2]) auto
qed

end
