(* ===== verification/XThreadInv.thy ===== *)
theory XThreadInv
  imports XThread
begin

text \<open>
  The table of the threads: which indices are taken (\<open>busy\<close>), the invariant that ties the counters to
  them, and the effect of \<open>allocThreadIndex\<close>, \<open>thread_create\<close> and \<open>thread_join\<close>.
\<close>

section \<open>Indices\<close>

definition busy :: "xthread \<Rightarrow> nat set" where
  "busy xt = {i. i < MAX_ALIVE_THREADS \<and> \<not> available (x_threads xt ! i)}"

definition slots_ok :: "xthread \<Rightarrow> bool" where
  "slots_ok xt \<longleftrightarrow> length (x_threads xt) = MAX_ALIVE_THREADS \<and> 0 \<le> x_threadIndex xt \<and>
    busy xt \<subseteq> {..<nat (x_threadIndex xt)} \<and> x_threadIndex xt \<le> int MAX_ALIVE_THREADS \<and>
    x_aliveThreads xt = int (card (busy xt))"

definition next_index :: "xthread \<Rightarrow> nat" where
  "next_index xt = length (takeWhile (\<lambda>t. \<not> available t) (x_threads xt))"

lemma busy_finite [simp]: "finite (busy xt)"
  by (simp add: busy_def)

lemma next_index_least:
  assumes "length (x_threads xt) = MAX_ALIVE_THREADS"
  shows "j < next_index xt \<Longrightarrow> j \<in> busy xt"
    and "next_index xt < MAX_ALIVE_THREADS \<Longrightarrow> next_index xt \<notin> busy xt"
    and "next_index xt \<le> MAX_ALIVE_THREADS"
proof -
  show le: "next_index xt \<le> MAX_ALIVE_THREADS"
    unfolding next_index_def assms [symmetric] by (rule length_takeWhile_le)
  show "j \<in> busy xt" if "j < next_index xt"
    using that le nth_mem [of j "takeWhile (\<lambda>t. \<not> available t) (x_threads xt)"]
    by (auto simp: busy_def next_index_def takeWhile_nth dest: set_takeWhileD)
  show "next_index xt \<notin> busy xt" if "next_index xt < MAX_ALIVE_THREADS"
    using that nth_length_takeWhile [of "\<lambda>t. \<not> available t" "x_threads xt"] assms
    by (simp add: busy_def next_index_def)
qed

lemma next_index_unique:
  assumes "length (x_threads xt) = MAX_ALIVE_THREADS" and "\<And>j. j < i \<Longrightarrow> j \<in> busy xt" and "i \<notin> busy xt"
    and "i \<le> MAX_ALIVE_THREADS"
  shows "next_index xt = i"
proof (rule antisym)
  note L = next_index_least [OF assms(1)]
  show "next_index xt \<le> i" using assms(3) L(1) [of i] by (meson not_le)
  show "i \<le> next_index xt"
  proof (rule ccontr)
    assume "\<not> i \<le> next_index xt"
    then have "next_index xt \<in> busy xt" "next_index xt < MAX_ALIVE_THREADS" using assms(2,4) by auto
    then show False using L(2) by blast
  qed
qed

lemma getThread_ok:
  "length (x_threads xt) = MAX_ALIVE_THREADS \<Longrightarrow> i < MAX_ALIVE_THREADS \<Longrightarrow> getThread (int i) xt = Inr (x_threads xt ! i)"
  by (simp add: getThread_def)

lemma find_available_ok:
  assumes len: "length (x_threads xt) = MAX_ALIVE_THREADS"
  shows "i \<le> next_index xt \<Longrightarrow> next_index xt < i + n \<Longrightarrow> next_index xt < MAX_ALIVE_THREADS \<Longrightarrow>
    find_available n (int i) xt = Inr (int (next_index xt))"
proof (induction n arbitrary: i)
  case (Suc n)
  have i: "i < MAX_ALIVE_THREADS" using Suc.prems by simp
  note L = next_index_least [OF len]
  show ?case
  proof (cases "i = next_index xt")
    case True
    then have "available (x_threads xt ! i)" using L(2) Suc.prems(3) by (simp add: busy_def)
    then show ?thesis using getThread_ok [OF len i] True by simp
  next
    case False
    then have "\<not> available (x_threads xt ! i)" using L(1) [of i] Suc.prems(1) by (simp add: busy_def)
    moreover have "find_available n (int (Suc i)) xt = Inr (int (next_index xt))"
      using Suc False by (intro Suc.IH) simp_all
    ultimately show ?thesis using getThread_ok [OF len i] by (simp add: add.commute)
  qed
qed simp

lemma busy_card_le: "card (busy xt) \<le> MAX_ALIVE_THREADS"
proof -
  have "busy xt \<subseteq> {..<MAX_ALIVE_THREADS}" by (auto simp: busy_def)
  from card_mono [OF _ this] show ?thesis by simp
qed

lemma next_index_below:
  assumes "slots_ok xt" and "card (busy xt) < MAX_ALIVE_THREADS"
  shows "next_index xt \<le> nat (x_threadIndex xt)" and "next_index xt < MAX_ALIVE_THREADS"
    and "x_aliveThreads xt = x_threadIndex xt \<longleftrightarrow> next_index xt = nat (x_threadIndex xt)"
proof -
  note S = assms(1) [unfolded slots_ok_def]
  have len: "length (x_threads xt) = MAX_ALIVE_THREADS" using S by blast
  note L = next_index_least [OF len]
  have sub: "{..<next_index xt} \<subseteq> busy xt" using L(1) by blast
  have "busy xt \<subseteq> {..<nat (x_threadIndex xt)}" using S by (elim conjE)
  from order_trans [OF sub this]
  show le: "next_index xt \<le> nat (x_threadIndex xt)" by simp
  have "next_index xt \<le> card (busy xt)" using card_mono [OF busy_finite sub] by simp
  then show lt: "next_index xt < MAX_ALIVE_THREADS" using assms(2) by simp
  show "x_aliveThreads xt = x_threadIndex xt \<longleftrightarrow> next_index xt = nat (x_threadIndex xt)"
  proof
    assume "x_aliveThreads xt = x_threadIndex xt"
    then have "card (busy xt) = card {..<nat (x_threadIndex xt)}" using S by simp
    then have "busy xt = {..<nat (x_threadIndex xt)}" using S card_subset_eq [of "{..<nat (x_threadIndex xt)}" "busy xt"] by simp
    then show "next_index xt = nat (x_threadIndex xt)" using L(2) [OF lt] le by auto
  next
    assume e: "next_index xt = nat (x_threadIndex xt)"
    then have "busy xt = {..<nat (x_threadIndex xt)}" using sub S by auto
    then show "x_aliveThreads xt = x_threadIndex xt" using S by simp
  qed
qed

definition taken :: "nat \<Rightarrow> xthread \<Rightarrow> thread_t list" where
  "taken i xt = (x_threads xt)[i := (x_threads xt ! i)\<lparr> available := False \<rparr>]"

lemma busy_update:
  assumes "length (x_threads xt) = MAX_ALIVE_THREADS" and "i < MAX_ALIVE_THREADS" and "x_threads xt' = (x_threads xt)[i := t]"
  shows "busy xt' = (if available t then busy xt - {i} else insert i (busy xt))"
  using assms by (auto simp: busy_def nth_list_update)

lemma allocThreadIndex_ok:
  assumes S: "slots_ok xt" and room: "card (busy xt) < MAX_ALIVE_THREADS"
  shows "\<exists>xt'. allocThreadIndex xt = Inr (int (next_index xt), xt') \<and> slots_ok xt' \<and>
    busy xt' = insert (next_index xt) (busy xt) \<and> next_index xt \<notin> busy xt \<and> x_threads xt' = taken (next_index xt) xt \<and>
    x_map xt' = x_map xt \<and> x_calls xt' = x_calls xt"
proof -
  note S' = S [unfolded slots_ok_def]
  let ?i = "next_index xt" and ?n = "x_threadIndex xt"
  have len: "length (x_threads xt) = MAX_ALIVE_THREADS" using S' by blast
  note B = next_index_below [OF S room]
  have nb: "?i \<notin> busy xt" using next_index_least(2) [OF len] B(2) by blast
  define xt' where "xt' = xt\<lparr> x_aliveThreads := x_aliveThreads xt + 1,
    x_threadIndex := (if x_aliveThreads xt = ?n then ?n + 1 else ?n), x_threads := taken ?i xt \<rparr>"
  have t: "x_threads xt' = (x_threads xt)[?i := (x_threads xt ! ?i)\<lparr> available := False \<rparr>]" by (simp add: xt'_def taken_def)
  have b: "busy xt' = insert ?i (busy xt)" using busy_update [OF len B(2) t] by simp
  have "slots_ok xt'" unfolding slots_ok_def b
    using S' B nb by (auto simp: xt'_def taken_def MAX_ALIVE_THREADS_def)
  moreover have "allocThreadIndex xt = Inr (int ?i, xt')"
  proof (cases "x_aliveThreads xt = ?n")
    case True
    then have i: "?n = int ?i" using B(3) S' by simp
    have "getThread (int ?i) (xt\<lparr> x_aliveThreads := int ?i + 1, x_threadIndex := int ?i + 1 \<rparr>) = Inr (x_threads xt ! ?i)"
      using B(2) len by (simp add: getThread_def)
    then show ?thesis using True by (simp add: allocThreadIndex_def Let_def i setThread_def xt'_def taken_def)
  next
    case False
    let ?xt1 = "xt\<lparr> x_aliveThreads := x_aliveThreads xt + 1 \<rparr>"
    have "next_index ?xt1 = ?i" "length (x_threads ?xt1) = MAX_ALIVE_THREADS" using len by (simp_all add: next_index_def)
    moreover have "?i < nat (?n + 1)" using B(1) S' by (simp add: nat_add_distrib)
    ultimately have "find_available (nat (?n + 1)) (int 0) ?xt1 = Inr (int ?i)"
      using find_available_ok [of ?xt1 0 "nat (?n + 1)"] B(2) by simp
    moreover have "getThread (int ?i) ?xt1 = Inr (x_threads xt ! ?i)" using B(2) len by (simp add: getThread_def)
    ultimately show ?thesis using False by (simp add: allocThreadIndex_def Let_def setThread_def xt'_def taken_def)
  qed
  ultimately show ?thesis using b nb by (intro exI [of _ xt']) (simp add: xt'_def)
qed

lemma allocThreadIndex_full:
  assumes "slots_ok xt" and "card (busy xt) = MAX_ALIVE_THREADS"
  shows "allocThreadIndex xt = Inl (Fault 0)"
proof -
  note S = assms(1) [unfolded slots_ok_def]
  have "card (busy xt) \<le> nat (x_threadIndex xt)"
    using card_mono [of "{..<nat (x_threadIndex xt)}" "busy xt"] S by simp
  then have n: "x_threadIndex xt = int MAX_ALIVE_THREADS" "x_aliveThreads xt = int MAX_ALIVE_THREADS"
    using S assms(2) by (auto simp: MAX_ALIVE_THREADS_def)
  then show ?thesis using S by (simp add: allocThreadIndex_def Let_def getThread_def)
qed

section \<open>Creation\<close>

definition xt_inv :: "xthread \<Rightarrow> bool" where
  "xt_inv xt \<longleftrightarrow> slots_ok xt \<and> hm_inv (x_map xt) \<and>
    (\<forall>i\<in>busy xt. hm_alpha (x_map xt) (pthreadt (x_threads xt ! i), sizeof_pointer) = Some (of_nat i))"

text \<open>The calls of a successful \<open>thread_create\<close> up to the identifier of the new thread.\<close>

definition create_trace :: "build \<Rightarrow> addr \<Rightarrow> xthread \<Rightarrow> trace" where
  "create_trace c base xt = Real_pthread_create (fst (thread_stack c base (int (next_index xt))))
     (snd (thread_stack c base (int (next_index xt)))) (next_index xt) # x_calls xt"

definition new_tid :: "env \<Rightarrow> build \<Rightarrow> addr \<Rightarrow> xthread \<Rightarrow> addr" where
  "new_tid env c base xt = env (Created_pthread_t # create_trace c base xt)"

lemma setThread_same [simp]:
  "x_map (setThread i t xt) = x_map xt" "x_calls (setThread i t xt) = x_calls xt"
  "x_threadIndex (setThread i t xt) = x_threadIndex xt" "x_aliveThreads (setThread i t xt) = x_aliveThreads xt"
  "x_seeds (setThread i t xt) = x_seeds xt"
  by (simp_all add: setThread_def)

lemma slots_ok_cong:
  "x_threads xt' = x_threads xt \<Longrightarrow> x_threadIndex xt' = x_threadIndex xt \<Longrightarrow> x_aliveThreads xt' = x_aliveThreads xt \<Longrightarrow>
    slots_ok xt' \<longleftrightarrow> slots_ok xt"
  by (simp add: slots_ok_def busy_def)

lemma busy_cong: "x_threads xt' = x_threads xt \<Longrightarrow> busy xt' = busy xt"
  by (simp add: busy_def)

lemma slots_ok_update:
  assumes S: "slots_ok xt" and i: "i \<in> busy xt" and t: "\<not> available t"
  shows "slots_ok (setThread (int i) t xt)" and "busy (setThread (int i) t xt) = busy xt"
proof -
  have len: "length (x_threads xt) = MAX_ALIVE_THREADS" using S by (simp add: slots_ok_def)
  have lt: "i < MAX_ALIVE_THREADS" using i by (simp add: busy_def)
  show b: "busy (setThread (int i) t xt) = busy xt"
    using busy_update [OF len lt, of "setThread (int i) t xt" t] t i by (auto simp: setThread_def)
  show "slots_ok (setThread (int i) t xt)"
    using S unfolding slots_ok_def b by (simp add: setThread_def)
qed

lemma thread_create_eq:
  assumes S: "slots_ok xt" and room: "card (busy xt) < MAX_ALIVE_THREADS"
    and r: "(ucast (env (create_trace c base xt)) :: u32) = 0"
    and h: "hm_insertIfAbsent env c (new_tid env c base xt) sizeof_pointer (of_nat (next_index xt)) (x_map xt)
      (Created_pthread_t # create_trace c base xt) = Inr (f, hm, tr)"
  shows "\<exists>xt'. thread_create env c base fn arg xt = Inr ((0, new_tid env c base xt), xt') \<and> slots_ok xt' \<and>
    busy xt' = insert (next_index xt) (busy xt) \<and> x_map xt' = hm \<and> x_calls xt' = tr \<and>
    x_threads xt' = (x_threads xt)[next_index xt := (x_threads xt ! next_index xt)\<lparr> available := False,
      startArg := arg, startRoutine := fn, t_index := int (next_index xt), pthreadt := new_tid env c base xt \<rparr>]"
proof -
  let ?i = "next_index xt" and ?tid = "new_tid env c base xt"
  obtain xt1 where a: "allocThreadIndex xt = Inr (int ?i, xt1)" "slots_ok xt1" "busy xt1 = insert ?i (busy xt)"
    "x_threads xt1 = taken ?i xt" "x_map xt1 = x_map xt" "x_calls xt1 = x_calls xt"
    using allocThreadIndex_ok [OF S room] by blast
  have len: "length (x_threads xt1) = MAX_ALIVE_THREADS" using a(2) by (simp add: slots_ok_def)
  have i: "?i < MAX_ALIVE_THREADS" "?i \<in> busy xt1" using next_index_below(2) [OF S room] a(3) by simp_all
  let ?t1 = "x_threads xt1 ! ?i"
  define t2 where "t2 = ?t1\<lparr> startArg := arg, startRoutine := fn, t_index := int ?i \<rparr>"
  define xt2 where "xt2 = setThread (int ?i) t2 xt1"
  define xt3 where "xt3 = setThread (int ?i) (t2\<lparr> pthreadt := ?tid \<rparr>) xt2"
  have t1: "\<not> available ?t1" using i by (simp add: busy_def)
  have s2: "slots_ok xt2" "busy xt2 = busy xt1"
    using slots_ok_update [OF a(2) i(2), of t2] t1 by (simp_all add: xt2_def t2_def)
  have s3: "slots_ok xt3" "busy xt3 = busy xt1"
    using slots_ok_update [OF s2(1), of ?i "t2\<lparr> pthreadt := ?tid \<rparr>"] s2(2) i(2) t1 by (simp_all add: xt3_def t2_def)
  have g: "getThread (int ?i) xt1 = Inr ?t1" "getThread (int ?i) xt2 = Inr t2"
    using len i(1) by (simp_all add: getThread_def xt2_def setThread_def)
  have eq: "x_calls xt2 = x_calls xt" "x_map xt2 = x_map xt" by (simp_all add: xt2_def a)
  define xt' where "xt' = xt3\<lparr> x_map := hm, x_calls := tr \<rparr>"
  have thr: "x_threads xt' = (x_threads xt)[?i := (x_threads xt ! ?i)\<lparr> available := False,
      startArg := arg, startRoutine := fn, t_index := int ?i, pthreadt := ?tid \<rparr>]"
    using i(1) S by (simp add: xt'_def xt3_def xt2_def t2_def setThread_def a(4) taken_def slots_ok_def)
  have "slots_ok xt'" "busy xt' = insert ?i (busy xt)"
    using s3 a(3) slots_ok_cong [of xt' xt3] busy_cong [of xt' xt3] by (simp_all add: xt'_def)
  moreover have "thread_create env c base fn arg xt = Inr ((0, ?tid), xt')"
    unfolding thread_create_def a(1) bindE_simps prod.case g(1) Let_def
    unfolding t2_def [symmetric] xt2_def [symmetric]
    using r h g(2) by (simp add: split_beta ext_def eq create_trace_def new_tid_def xt3_def xt'_def)
  ultimately show ?thesis using thr by (intro exI [of _ xt']) (simp add: xt'_def)
qed

text \<open>A thread whose identifier was not used before.\<close>

lemma thread_create_ok:
  assumes inv: "xt_inv xt" and room: "card (busy xt) < MAX_ALIVE_THREADS"
    and r: "(ucast (env (create_trace c base xt)) :: u32) = 0"
    and new: "hm_alpha (x_map xt) (new_tid env c base xt, sizeof_pointer) = None"
    and fr: "fresh_node (x_map xt) (env (Real_malloc (of_nat sizeof_Entry) # Created_pthread_t # create_trace c base xt))"
    and kf: "key_fits (x_map xt) (new_tid env c base xt) sizeof_pointer"
  shows "\<exists>xt'. thread_create env c base fn arg xt = Inr ((0, new_tid env c base xt), xt') \<and> xt_inv xt' \<and>
    busy xt' = insert (next_index xt) (busy xt) \<and> pthreadt (x_threads xt' ! next_index xt) = new_tid env c base xt \<and>
    (\<forall>j\<in>busy xt. x_threads xt' ! j = x_threads xt ! j)"
proof -
  let ?i = "next_index xt" and ?tid = "new_tid env c base xt"
  have S: "slots_ok xt" and H: "hm_inv (x_map xt)" using inv by (simp_all add: xt_inv_def)
  note ins = hm_insertIfAbsent_absent [where env = env and tr = "Created_pthread_t # create_trace c base xt", OF H new kf fr]
    and iok = hm_insert_ok [where env = env and tr = "Created_pthread_t # create_trace c base xt", OF H new kf fr]
  obtain xt' where x: "thread_create env c base fn arg xt = Inr ((0, ?tid), xt')" "slots_ok xt'" "busy xt' = insert ?i (busy xt)"
    "x_map xt' = inserted ?tid sizeof_pointer (of_nat ?i)
       (env (Real_malloc (of_nat sizeof_Entry) # Created_pthread_t # create_trace c base xt)) (x_map xt)"
    "x_threads xt' = (x_threads xt)[?i := (x_threads xt ! ?i)\<lparr> available := False,
      startArg := arg, startRoutine := fn, t_index := int ?i, pthreadt := ?tid \<rparr>]"
    using thread_create_eq [OF S room r ins] by blast
  have i: "?i < length (x_threads xt)" using next_index_below(2) [OF S room] S by (simp add: slots_ok_def)
  have nb: "?i \<notin> busy xt" using next_index_least(2) [of xt] i S by (simp add: slots_ok_def)
  have p: "pthreadt (x_threads xt' ! ?i) = ?tid" "\<forall>j\<in>busy xt. x_threads xt' ! j = x_threads xt ! j"
    using i nb by (auto simp: x(5) nth_list_update)
  have "hm_alpha (x_map xt') (pthreadt (x_threads xt' ! j), sizeof_pointer) = Some (of_nat j)" if "j \<in> busy xt'" for j
  proof (cases "j = ?i")
    case True
    then show ?thesis unfolding x(4) iok(3) using p(1) by simp
  next
    case False
    then have "j \<in> busy xt" using that x(3) by simp
    then have "hm_alpha (x_map xt) (pthreadt (x_threads xt' ! j), sizeof_pointer) = Some (of_nat j)"
      using inv p(2) by (simp add: xt_inv_def)
    moreover from this have "pthreadt (x_threads xt' ! j) \<noteq> ?tid" using new by auto
    ultimately show ?thesis unfolding x(4) iok(3) by simp
  qed
  then have "xt_inv xt'" unfolding xt_inv_def using x(2) iok(2) by (simp add: x(4))
  then show ?thesis using x(1,3) p by blast
qed

text \<open>A thread whose identifier is in the table already: the entry is left as it is.\<close>

lemma thread_create_reused:
  assumes inv: "xt_inv xt" and room: "card (busy xt) < MAX_ALIVE_THREADS"
    and r: "(ucast (env (create_trace c base xt)) :: u32) = 0"
    and old: "hm_alpha (x_map xt) (new_tid env c base xt, sizeof_pointer) = Some j"
  shows "\<exists>xt'. thread_create env c base fn arg xt = Inr ((0, new_tid env c base xt), xt') \<and> slots_ok xt' \<and>
    busy xt' = insert (next_index xt) (busy xt) \<and> x_map xt' = x_map xt \<and>
    pthreadt (x_threads xt' ! next_index xt) = new_tid env c base xt"
proof -
  have S: "slots_ok xt" and H: "hm_inv (x_map xt)" using inv by (simp_all add: xt_inv_def)
  have i: "next_index xt < length (x_threads xt)" using next_index_below(2) [OF S room] S by (simp add: slots_ok_def)
  show ?thesis using thread_create_eq [OF S room r hm_insertIfAbsent_present [OF H old], of fn arg] i by auto
qed

section \<open>Joining\<close>

definition join_trace :: "addr \<Rightarrow> xthread \<Rightarrow> trace" where
  "join_trace tid xt = Real_pthread_join tid # x_calls xt"

lemma thread_join_eq:
  assumes S: "slots_ok xt" and H: "hm_inv (x_map xt)" and r: "(ucast (env (join_trace tid xt)) :: u32) = 0"
    and f: "hm_alpha (x_map xt) (tid, sizeof_pointer) = Some (of_nat j)" and j: "j < MAX_ALIVE_THREADS"
  shows "\<exists>xt'. thread_join env c tid xt = Inr (0, xt') \<and> busy xt' = busy xt - {j} \<and> x_map xt' = x_map xt \<and>
    (\<forall>i. i \<noteq> j \<longrightarrow> x_threads xt' ! i = x_threads xt ! i) \<and> x_aliveThreads xt' = x_aliveThreads xt - 1 \<and>
    (j \<in> busy xt \<longrightarrow> slots_ok xt')"
proof -
  have len: "length (x_threads xt) = MAX_ALIVE_THREADS" using S by (simp add: slots_ok_def)
  have sj: "sint (of_nat j :: u32) = int j" by (rule sint_of_nat_less) (use j in \<open>simp add: MAX_ALIVE_THREADS_def\<close>)
  let ?xt1 = "xt\<lparr> x_calls := join_trace tid xt \<rparr>" and ?t = "(x_threads xt ! j)\<lparr> available := True \<rparr>"
  define xt' where "xt' = (setThread (int j) ?t ?xt1)\<lparr> x_aliveThreads := x_aliveThreads xt - 1 \<rparr>"
  have g: "getThread (int j) ?xt1 = Inr (x_threads xt ! j)" using len j by (simp add: getThread_def)
  have e: "thread_join env c tid xt = Inr (0, xt')"
    using r g hm_find_ok [OF H, of c tid sizeof_pointer] f sj
    by (simp add: thread_join_def ext_def join_trace_def Let_def xt'_def setThread_def)
  have t: "x_threads xt' = (x_threads xt)[j := ?t]" by (simp add: xt'_def setThread_def)
  have b: "busy xt' = busy xt - {j}" using busy_update [OF len j t] by simp
  have "slots_ok xt'" if "j \<in> busy xt"
  proof -
    have "0 < card (busy xt)" using that card_gt_0_iff [of "busy xt"] by auto
    then show ?thesis using S that unfolding slots_ok_def b by (auto simp: xt'_def setThread_def)
  qed
  then show ?thesis using e b t by (intro exI [of _ xt']) (simp add: xt'_def setThread_def)
qed

lemma thread_join_ok:
  assumes inv: "xt_inv xt" and i: "i \<in> busy xt" and tid: "pthreadt (x_threads xt ! i) = tid"
    and r: "(ucast (env (join_trace tid xt)) :: u32) = 0"
  shows "\<exists>xt'. thread_join env c tid xt = Inr (0, xt') \<and> xt_inv xt' \<and> busy xt' = busy xt - {i}"
proof -
  note I = inv [unfolded xt_inv_def]
  have f: "hm_alpha (x_map xt) (tid, sizeof_pointer) = Some (of_nat i)" using I i tid by auto
  have lt: "i < MAX_ALIVE_THREADS" using i by (simp add: busy_def)
  obtain xt' where x: "thread_join env c tid xt = Inr (0, xt')" "busy xt' = busy xt - {i}" "x_map xt' = x_map xt"
    "\<forall>j. j \<noteq> i \<longrightarrow> x_threads xt' ! j = x_threads xt ! j" "slots_ok xt'"
    using thread_join_eq [where env = env and c = c, OF _ _ r f lt] I i by blast
  have "xt_inv xt'" unfolding xt_inv_def using x I by auto
  then show ?thesis using x by blast
qed

lemma thread_join_unknown:
  assumes "hm_inv (x_map xt)" and "(ucast (env (join_trace tid xt)) :: u32) = 0"
    and "hm_alpha (x_map xt) (tid, sizeof_pointer) = None"
  shows "thread_join env c tid xt = Inr (0, xt\<lparr> x_calls := join_trace tid xt, x_aliveThreads := x_aliveThreads xt - 1 \<rparr>)"
  using assms(2,3) hm_find_ok [OF assms(1), of c tid sizeof_pointer]
  by (simp add: thread_join_def ext_def join_trace_def Let_def)

section \<open>Initialisation\<close>

definition init_trace :: "env \<Rightarrow> xthread \<Rightarrow> trace" where
  "init_trace env xt = Real_malloc (of_nat (THREAD_MAP_SIZE * sizeof_HashEntry)) # Pthread_self # Sys_gettid # Sys_time # x_calls xt"

lemma xthread_initialize_ok:
  assumes p: "env (init_trace env xt) = p" "p \<noteq> 0" "unat p + sizeof_HashEntry * THREAD_MAP_SIZE < 2 ^ 64"
    and self: "env (Pthread_self # init_trace env xt) = self" "env (Pthread_self # Sys_gettid # Sys_time # x_calls xt) = self"
    and e: "env (Real_malloc (of_nat sizeof_Entry) # Pthread_self # init_trace env xt) = q" "q \<noteq> 0"
      "\<forall>i<THREAD_MAP_SIZE. q \<noteq> p + of_nat i * of_nat sizeof_HashEntry"
  shows "\<exists>xt'. xthread_initialize env c xt = Inr xt' \<and> xt_inv xt' \<and> busy xt' = {0} \<and> pthreadt (x_threads xt' ! 0) = self \<and>
    hm_alpha (x_map xt') = [(self, sizeof_pointer) \<mapsto> 0] \<and> x_calls xt' = Real_malloc (of_nat sizeof_Entry) # Pthread_self # init_trace env xt \<and>
    (\<exists>hm0. x_map xt' = inserted self sizeof_pointer 0 q hm0 \<and> hm_inv hm0 \<and> hm_entries hm0 = p \<and>
      bucket_count hm0 = THREAD_MAP_SIZE \<and> (\<forall>i<THREAD_MAP_SIZE. nodes hm0 i = []) \<and> fresh_node hm0 q)"
proof -
  let ?ts = "map (\<lambda>i. zero_thread\<lparr> available := True, t_index := int i \<rparr>) [0..<MAX_ALIVE_THREADS]"
  define xt1 where "xt1 = xt\<lparr> x_aliveThreads := 0, x_threadIndex := 0, x_totalThreads := int MAX_ALIVE_THREADS, x_threads := ?ts \<rparr>"
  have b1: "busy xt1 = {}" by (simp add: busy_def xt1_def)
  have s1: "slots_ok xt1" unfolding slots_ok_def b1 by (simp add: xt1_def)
  then have n1: "next_index xt1 = 0" by (intro next_index_unique) (simp_all add: b1 slots_ok_def)
  have "card (busy xt1) < MAX_ALIVE_THREADS" by (simp add: b1 MAX_ALIVE_THREADS_def)
  from allocThreadIndex_ok [OF s1 this] obtain xt2 where a: "allocThreadIndex xt1 = Inr (0, xt2)" "slots_ok xt2"
    "busy xt2 = {0}" "x_map xt2 = x_map xt" "x_calls xt2 = x_calls xt"
    by (auto simp: b1 n1) (simp add: xt1_def)
  have len: "length (x_threads xt2) = MAX_ALIVE_THREADS" using a(2) by (simp add: slots_ok_def)
  let ?tr2 = "Sys_gettid # Sys_time # x_calls xt"
  let ?t2 = "(x_threads xt2 ! 0)\<lparr> t_tid := ucast (env ?tr2) \<rparr>"
  let ?t3 = "?t2\<lparr> pthreadt := self \<rparr>"
  have na: "\<not> available (x_threads xt2 ! 0)" using a(3) by (auto simp: busy_def)
  define xt3 where "xt3 = (setThread 0 ?t2 xt2)\<lparr> x_seeds := ucast (env (Sys_time # x_calls xt)) # x_seeds xt2, x_calls := ?tr2 \<rparr>"
  define xt4 where "xt4 = (setThread 0 ?t3 xt3)\<lparr> x_calls := Pthread_self # ?tr2 \<rparr>"
  have s3: "slots_ok xt3" "busy xt3 = {0}"
    using slots_ok_update [OF a(2), of 0 ?t2] na a(3) slots_ok_cong [of xt3 "setThread 0 ?t2 xt2"]
      busy_cong [of xt3 "setThread 0 ?t2 xt2"] by (simp_all add: xt3_def)
  have s4: "slots_ok xt4" "busy xt4 = {0}"
    using slots_ok_update [OF s3(1), of 0 ?t3] na s3(2) slots_ok_cong [of xt4 "setThread 0 ?t3 xt3"]
      busy_cong [of xt4 "setThread 0 ?t3 xt3"] by (simp_all add: xt4_def)
  have g: "getThread 0 xt2 = Inr (x_threads xt2 ! 0)" "getThread 0 xt3 = Inr ?t2"
    using len by (simp_all add: getThread_def xt3_def setThread_def MAX_ALIVE_THREADS_def)
  have i4: "initializeInitialThread env c xt1 = Inr xt4"
    unfolding initializeInitialThread_def a(1) bindE_simps prod.case initializeCurrentThread_def g(1)
    using g(2) self(2) by (simp add: ext_def Let_def a(5) xt3_def [symmetric] xt4_def) (simp add: xt3_def)
  have m4: "x_map xt4 = x_map xt" "x_calls xt4 = Pthread_self # ?tr2" "pthreadt (x_threads xt4 ! 0) = self"
    using len by (simp_all add: xt4_def xt3_def a setThread_def MAX_ALIVE_THREADS_def)
  have u: "unat (of_nat THREAD_MAP_SIZE :: size_t) = THREAD_MAP_SIZE" "(of_nat THREAD_MAP_SIZE :: size_t) \<noteq> 0"
    by (simp_all add: THREAD_MAP_SIZE_def)
  have p': "env (Real_malloc (of_nat THREAD_MAP_SIZE * of_nat sizeof_HashEntry) # x_calls xt4) = p"
    using p(1) m4(2) by (simp add: init_trace_def)
  have fits: "unat p + sizeof_HashEntry * unat (of_nat THREAD_MAP_SIZE :: size_t) < 2 ^ 64" unfolding u by (rule p(3))
  obtain hm where hm: "hm_initialize env (Some hashAddr) (Some compareAddr) (of_nat THREAD_MAP_SIZE) (x_map xt) (x_calls xt4)
      = Inr (hm, init_trace env xt)" "hm_inv hm" "hm_alpha hm = Map.empty" "bucket_count hm = THREAD_MAP_SIZE"
    "\<forall>i<THREAD_MAP_SIZE. nodes hm i = []" "hm_entries hm = p"
    using hm_initialize_ok [where env = env and tr = "x_calls xt4" and kc = compareAddr and hf = hashAddr
        and hm = "x_map xt", OF p' p(2) u(2) fits] m4(2)
    unfolding u init_trace_def by (auto simp: compareAddr_def)
  let ?tr = "Pthread_self # init_trace env xt"
  have "key_index hm self sizeof_pointer < THREAD_MAP_SIZE"
    using key_index_less [OF hm_invD(2) [OF hm(2)]] hm(4) by metis
  then have kf: "key_fits hm self sizeof_pointer" using hm(5) by (simp add: key_fits_def sizeof_pointer_def)
  have fr: "fresh_node hm (env (Real_malloc (of_nat sizeof_Entry) # ?tr))"
    using e hm(4-6) by (auto simp: fresh_node_def head_def)
  have abs: "hm_alpha hm (self, sizeof_pointer) = None" by (simp add: hm(3))
  note ins = hm_insert_ok [where env = env and tr = ?tr, OF hm(2) abs kf fr, unfolded e(1)]
  define xt5 where "xt5 = xt4\<lparr> x_map := inserted self sizeof_pointer 0 q hm, x_calls := Real_malloc (of_nat sizeof_Entry) # ?tr \<rparr>"
  have r: "xthread_initialize env c xt = Inr xt5"
    unfolding xthread_initialize_def Let_def xt1_def [symmetric] i4 bindE_simps m4(1) hm(1) prod.case
    using ins(1) [of c 0] self(1) by (simp add: ext_def xt5_def)
  have s5: "slots_ok xt5" "busy xt5 = {0}" "x_threads xt5 = x_threads xt4"
    using s4 slots_ok_cong [of xt5 xt4] busy_cong [of xt5 xt4] by (simp_all add: xt5_def)
  have al: "hm_alpha (x_map xt5) = [(self, sizeof_pointer) \<mapsto> 0]" using ins(3) [of 0] hm(3) by (simp add: xt5_def)
  have "xt_inv xt5" unfolding xt_inv_def s5(2,3) using s5(1) ins(2) [of 0] al m4(3) by (simp add: xt5_def)
  then show ?thesis
    using r s5 al m4(3) hm fr e(1) by (intro exI [of _ xt5] conjI exI [of _ hm]) (simp_all add: xt5_def)
qed

section \<open>Runs\<close>

text \<open>The specification: which index belongs to which live thread.\<close>

definition live_threads :: "xthread \<Rightarrow> nat \<Rightarrow> addr option" where
  "live_threads xt i = (if i \<in> busy xt then Some (pthreadt (x_threads xt ! i)) else None)"

datatype thr_label = Create nat addr | Join nat addr

inductive thr_step :: "env \<Rightarrow> build \<Rightarrow> addr \<Rightarrow> xthread \<Rightarrow> thr_label \<Rightarrow> xthread \<Rightarrow> bool" for env c base where
  create: "card (busy xt) < MAX_ALIVE_THREADS \<Longrightarrow> (ucast (env (create_trace c base xt)) :: u32) = 0 \<Longrightarrow>
    hm_alpha (x_map xt) (new_tid env c base xt, sizeof_pointer) = None \<Longrightarrow>
    fresh_node (x_map xt) (env (Real_malloc (of_nat sizeof_Entry) # Created_pthread_t # create_trace c base xt)) \<Longrightarrow>
    key_fits (x_map xt) (new_tid env c base xt) sizeof_pointer \<Longrightarrow>
    thread_create env c base fn arg xt = Inr ((0, tid), xt') \<Longrightarrow> thr_step env c base xt (Create (next_index xt) tid) xt'"
| join: "live_threads xt i = Some tid \<Longrightarrow> (ucast (env (join_trace tid xt)) :: u32) = 0 \<Longrightarrow>
    thread_join env c tid xt = Inr (0, xt') \<Longrightarrow> thr_step env c base xt (Join i tid) xt'"

inductive_cases thr_stepE: "thr_step env c base xt l xt'"

inductive thr_abs :: "(nat \<Rightarrow> addr option) \<Rightarrow> thr_label \<Rightarrow> (nat \<Rightarrow> addr option) \<Rightarrow> bool" where
  "i < MAX_ALIVE_THREADS \<Longrightarrow> M i = None \<Longrightarrow> (\<forall>j<i. M j \<noteq> None) \<Longrightarrow> thr_abs M (Create i tid) (M(i \<mapsto> tid))"
| "M i = Some tid \<Longrightarrow> thr_abs M (Join i tid) (M(i := None))"

lemma thr_step_ok:
  assumes "thr_step env c base xt l xt'" and inv: "xt_inv xt"
  shows "xt_inv xt' \<and> thr_abs (live_threads xt) l (live_threads xt')"
  using assms(1)
proof (rule thr_stepE)
  fix fn arg tid
  assume l: "l = Create (next_index xt) tid" and room: "card (busy xt) < MAX_ALIVE_THREADS"
    and r: "(ucast (env (create_trace c base xt)) :: u32) = 0"
    and n: "hm_alpha (x_map xt) (new_tid env c base xt, sizeof_pointer) = None"
    and f: "fresh_node (x_map xt) (env (Real_malloc (of_nat sizeof_Entry) # Created_pthread_t # create_trace c base xt))"
    and k: "key_fits (x_map xt) (new_tid env c base xt) sizeof_pointer"
    and t: "thread_create env c base fn arg xt = Inr ((0, tid), xt')"
  have S: "slots_ok xt" using inv by (simp add: xt_inv_def)
  have len: "length (x_threads xt) = MAX_ALIVE_THREADS" using S by (simp add: slots_ok_def)
  have c: "tid = new_tid env c base xt" "xt_inv xt'" "busy xt' = insert (next_index xt) (busy xt)"
    "pthreadt (x_threads xt' ! next_index xt) = tid" "\<forall>j\<in>busy xt. x_threads xt' ! j = x_threads xt ! j"
    using thread_create_ok [OF inv room r n f k, of fn arg] t by auto
  have nb: "next_index xt \<notin> busy xt" using next_index_least(2) [OF len] next_index_below(2) [OF S room] by blast
  have "live_threads xt' = (live_threads xt)(next_index xt \<mapsto> tid)"
    using c(3-5) nb by (auto simp: live_threads_def fun_eq_iff)
  moreover have "\<forall>j<next_index xt. live_threads xt j \<noteq> None" using next_index_least(1) [OF len] by (simp add: live_threads_def)
  ultimately show ?thesis
    using c(2) thr_abs.intros(1) [OF next_index_below(2) [OF S room], of "live_threads xt" tid] nb
    by (simp add: l live_threads_def)
next
  fix i tid
  assume l: "l = Join i tid" and m: "live_threads xt i = Some tid" and r: "(ucast (env (join_trace tid xt)) :: u32) = 0"
    and j: "thread_join env c tid xt = Inr (0, xt')"
  have i: "i \<in> busy xt" "pthreadt (x_threads xt ! i) = tid" using m by (auto simp: live_threads_def split: if_splits)
  note I = inv [unfolded xt_inv_def]
  have f: "hm_alpha (x_map xt) (tid, sizeof_pointer) = Some (of_nat i)" using I i by auto
  have lt: "i < MAX_ALIVE_THREADS" using i by (simp add: busy_def)
  have x: "busy xt' = busy xt - {i}" "\<forall>k. k \<noteq> i \<longrightarrow> x_threads xt' ! k = x_threads xt ! k"
    using thread_join_eq [where env = env and c = c, OF _ _ r f lt] I j by auto
  have "live_threads xt' = (live_threads xt)(i := None)" using x by (auto simp: live_threads_def fun_eq_iff)
  then show ?thesis using thread_join_ok [where env = env and c = c, OF inv i r] j thr_abs.intros(2) [of "live_threads xt" i tid] m l by auto
qed

end
