(* ===== verification/ThreadProps.thy ===== *)
theory ThreadProps
  imports XThreadInv TableExample
begin

text \<open>
  The properties of the thread table, each with a witness: a C library whose \<open>malloc\<close> returns new
  blocks and whose threads get new identifiers, and the table after \<open>initialize\<close>.
\<close>

section \<open>A concrete table\<close>

definition thread_env :: env where
  "thread_env tr = (case tr of
     Real_malloc n # rest \<Rightarrow> of_nat (2 ^ 30 + 2 ^ 16 * length rest)
   | Created_pthread_t # rest \<Rightarrow> of_nat (2 ^ 45 + 2 ^ 16 * length rest)
   | Pthread_self # rest \<Rightarrow> of_nat (2 ^ 44)
   | _ \<Rightarrow> 0)"

definition blank_threads :: xthread where
  "blank_threads = \<lparr> x_threads = [], x_totalThreads = 0, x_threadIndex = 0, x_aliveThreads = 0, x_map = blank_table,
     x_seeds = [], x_calls = [] \<rparr>"

definition example_threads :: xthread where
  "example_threads = (case xthread_initialize thread_env default_build blank_threads of Inl _ \<Rightarrow> blank_threads | Inr xt \<Rightarrow> xt)"

abbreviation "main_id \<equiv> (of_nat (2 ^ 44) :: addr)"
abbreviation "table_base \<equiv> (of_nat (2 ^ 30 + 2 ^ 16 * 3) :: addr)"
abbreviation "node_base \<equiv> (of_nat (2 ^ 30 + 2 ^ 16 * 5) :: addr)"

lemma far_from_table:
  assumes "x < 2 ^ 63" and "2 ^ 30 + 2 ^ 16 * 4 < x" and "i < THREAD_MAP_SIZE"
  shows "(of_nat x :: addr) \<noteq> table_base + of_nat i * of_nat sizeof_HashEntry"
proof -
  have "table_base + of_nat i * of_nat sizeof_HashEntry = (of_nat (2 ^ 30 + 2 ^ 16 * 3 + i * sizeof_HashEntry) :: addr)" by simp
  moreover have "2 ^ 30 + 2 ^ 16 * 3 + i * sizeof_HashEntry < 2 ^ 30 + 2 ^ 16 * 4"
    using assms(3) by (simp add: THREAD_MAP_SIZE_def sizeof_HashEntry_def)
  then have "x \<noteq> 2 ^ 30 + 2 ^ 16 * 3 + i * sizeof_HashEntry"
    "x < 2 ^ LENGTH(64)" "2 ^ 30 + 2 ^ 16 * 3 + i * sizeof_HashEntry < 2 ^ LENGTH(64)" using assms(1,2) by simp_all
  ultimately show ?thesis by (simp only: of_nat_eq_word_iff not_False_eq_True)
qed

lemma example_threads:
  "xthread_initialize thread_env default_build blank_threads = Inr example_threads"
  "xt_inv example_threads" "busy example_threads = {0}"
  "hm_alpha (x_map example_threads) = [(main_id, sizeof_pointer) \<mapsto> 0]"
  "x_calls example_threads = [Real_malloc (of_nat sizeof_Entry), Pthread_self,
     Real_malloc (of_nat (THREAD_MAP_SIZE * sizeof_HashEntry)), Pthread_self, Sys_gettid, Sys_time]"
  "\<exists>hm0. x_map example_threads = inserted main_id sizeof_pointer 0 node_base hm0 \<and> hm_inv hm0 \<and> hm_entries hm0 = table_base \<and>
      bucket_count hm0 = THREAD_MAP_SIZE \<and> (\<forall>i<THREAD_MAP_SIZE. nodes hm0 i = []) \<and> fresh_node hm0 node_base"
proof -
  have tr: "init_trace thread_env blank_threads = [Real_malloc (of_nat (THREAD_MAP_SIZE * sizeof_HashEntry)),
      Pthread_self, Sys_gettid, Sys_time]" by (simp add: init_trace_def blank_threads_def)
  have e: "thread_env (init_trace thread_env blank_threads) = table_base"
    "thread_env (Pthread_self # init_trace thread_env blank_threads) = main_id"
    "thread_env (Pthread_self # Sys_gettid # Sys_time # x_calls blank_threads) = main_id"
    "thread_env (Real_malloc (of_nat sizeof_Entry) # Pthread_self # init_trace thread_env blank_threads) = node_base"
    unfolding tr by (simp_all add: thread_env_def)
  have u: "unat table_base = 2 ^ 30 + 2 ^ 16 * 3" by (rule unat_of_nat_less) simp
  then have p: "table_base \<noteq> 0" "unat table_base + sizeof_HashEntry * THREAD_MAP_SIZE < 2 ^ 64"
    by (auto simp: sizeof_HashEntry_def THREAD_MAP_SIZE_def)
  have "unat node_base = 2 ^ 30 + 2 ^ 16 * 5" by (rule unat_of_nat_less) simp
  then have q: "node_base \<noteq> 0" by auto
  have d: "\<forall>i<THREAD_MAP_SIZE. node_base \<noteq> table_base + of_nat i * of_nat sizeof_HashEntry"
    by (intro allI impI far_from_table) simp_all
  note ok = xthread_initialize_ok [where env = thread_env and xt = blank_threads and c = default_build, OF e(1) p e(2,3,4) q d]
  then obtain xt where xt: "xthread_initialize thread_env default_build blank_threads = Inr xt" by blast
  then have "example_threads = xt" by (simp add: example_threads_def)
  then show "xthread_initialize thread_env default_build blank_threads = Inr example_threads"
    "xt_inv example_threads" "busy example_threads = {0}"
    "hm_alpha (x_map example_threads) = [(main_id, sizeof_pointer) \<mapsto> 0]"
    "x_calls example_threads = [Real_malloc (of_nat sizeof_Entry), Pthread_self,
       Real_malloc (of_nat (THREAD_MAP_SIZE * sizeof_HashEntry)), Pthread_self, Sys_gettid, Sys_time]"
    "\<exists>hm0. x_map example_threads = inserted main_id sizeof_pointer 0 node_base hm0 \<and> hm_inv hm0 \<and> hm_entries hm0 = table_base \<and>
      bucket_count hm0 = THREAD_MAP_SIZE \<and> (\<forall>i<THREAD_MAP_SIZE. nodes hm0 i = []) \<and> fresh_node hm0 node_base"
    using ok xt unfolding tr by auto
qed

lemma example_next: "next_index example_threads = 1" "card (busy example_threads) < MAX_ALIVE_THREADS"
proof -
  have "length (x_threads example_threads) = MAX_ALIVE_THREADS"
    using example_threads(2) by (simp add: xt_inv_def slots_ok_def)
  then show "next_index example_threads = 1"
    by (rule next_index_unique) (simp_all add: example_threads(3) MAX_ALIVE_THREADS_def)
qed (simp add: example_threads(3) MAX_ALIVE_THREADS_def)

lemma example_thread_room:
  assumes "x < 2 ^ 63" and "2 ^ 30 + 2 ^ 16 * 6 < x"
  shows "fresh_node (x_map example_threads) (of_nat x)" and "key_fits (x_map example_threads) k sizeof_pointer"
proof -
  obtain hm0 where hm: "x_map example_threads = inserted main_id sizeof_pointer 0 node_base hm0" "hm_inv hm0"
    "hm_entries hm0 = table_base" "bucket_count hm0 = THREAD_MAP_SIZE" "\<forall>i<THREAD_MAP_SIZE. nodes hm0 i = []" "fresh_node hm0 node_base"
    using example_threads(6) by blast
  have ki: "key_index hm0 k' l' < THREAD_MAP_SIZE" for k' l'
    using key_index_less [OF hm_invD(2) [OF hm(2)]] hm(4) by metis
  have fit: "key_fits hm0 main_id sizeof_pointer" using ki hm(5) by (simp add: key_fits_def sizeof_pointer_def)
  have al: "hm_alpha hm0 (main_id, sizeof_pointer) = None" using ki hm(5) by (simp add: hm_alpha_def)
  have n: "nodes (x_map example_threads) i = (if i = key_index hm0 main_id sizeof_pointer then [node_base] else [])"
    if "i < THREAD_MAP_SIZE" for i
    using inserted_inv(2) [OF hm(2,6) al fit, of i 0] that hm(4,5) unfolding hm(1) by simp
  have hd: "head (x_map example_threads) i = table_base + of_nat i * of_nat sizeof_HashEntry" for i
    unfolding hm(1) by (simp add: head_def hm(3))
  have bc: "bucket_count (x_map example_threads) = THREAD_MAP_SIZE" unfolding hm(1) by (simp add: hm(4))
  have lt: "x < 2 ^ LENGTH(64)" "2 ^ 30 + 2 ^ 16 * 5 < (2::nat) ^ LENGTH(64)" "0 < (2::nat) ^ LENGTH(64)" using assms(1) by simp_all
  have "x \<noteq> 2 ^ 30 + 2 ^ 16 * 5" "x \<noteq> 0" using assms(2) by auto
  then have "(of_nat x :: addr) \<noteq> node_base" "(of_nat x :: addr) \<noteq> of_nat 0"
    using of_nat_eq_word_iff [OF lt(1,2)] of_nat_eq_word_iff [OF lt(1,3)] by blast+
  moreover have "(of_nat x :: addr) \<noteq> head (x_map example_threads) i" if "i < THREAD_MAP_SIZE" for i
    unfolding hd by (rule far_from_table [OF assms(1) _ that]) (use assms(2) in simp)
  ultimately show "fresh_node (x_map example_threads) (of_nat x)"
    unfolding fresh_node_def bc using n by auto
  have "key_index (x_map example_threads) k sizeof_pointer < THREAD_MAP_SIZE" unfolding hm(1) using ki by simp
  then show "key_fits (x_map example_threads) k sizeof_pointer" using n by (simp add: key_fits_def sizeof_pointer_def)
qed

section \<open>Properties\<close>

text \<open>C19: \<open>thread_create\<close> and \<open>thread_join\<close> keep the invariant of the thread table and implement its
  specification, a map from indices to live threads, as long as the C library does not hand out
  an identifier that the table knows: a new thread gets the least index that no live thread has, and
  a joined thread gives back its own.\<close>
theorem thread_table_refines:
  assumes "thr_step env c base xt l xt'" and "xt_inv xt"
  shows "xt_inv xt' \<and> thr_abs (live_threads xt) l (live_threads xt')"
  using assms by (rule thr_step_ok)

lemma example_create:
  "(ucast (thread_env (create_trace default_build base example_threads)) :: u32) = 0"
  "new_tid thread_env default_build base example_threads = of_nat (2 ^ 45 + 2 ^ 16 * 7)"
  "thread_env (Real_malloc (of_nat sizeof_Entry) # Created_pthread_t # create_trace default_build base example_threads)
    = of_nat (2 ^ 30 + 2 ^ 16 * 8)"
  by (simp_all add: create_trace_def new_tid_def thread_env_def example_threads(5))

theorem thread_table_refines_witness:
  "\<exists>tid xt'. xt_inv xt' \<and> thr_abs (live_threads example_threads) (Create 1 tid) (live_threads xt')"
proof -
  have u: "unat (of_nat (2 ^ 45 + 2 ^ 16 * 7) :: addr) = 2 ^ 45 + 2 ^ 16 * 7" "unat main_id = 2 ^ 44"
    by (rule unat_of_nat_less, simp)+
  have "(of_nat (2 ^ 45 + 2 ^ 16 * 7) :: addr) \<noteq> main_id"
  proof
    assume "(of_nat (2 ^ 45 + 2 ^ 16 * 7) :: addr) = main_id"
    then have "unat (of_nat (2 ^ 45 + 2 ^ 16 * 7) :: addr) = unat main_id" by (rule arg_cong)
    then show False unfolding u by simp
  qed
  then have n: "hm_alpha (x_map example_threads) (new_tid thread_env default_build 0 example_threads, sizeof_pointer) = None"
    unfolding example_create(2) example_threads(4) by (simp only: fun_upd_apply prod.inject simp_thms if_False)
  have f: "fresh_node (x_map example_threads)
      (thread_env (Real_malloc (of_nat sizeof_Entry) # Created_pthread_t # create_trace default_build 0 example_threads))"
    unfolding example_create(3) by (rule example_thread_room) simp_all
  have k: "key_fits (x_map example_threads) (new_tid thread_env default_build 0 example_threads) sizeof_pointer"
    by (rule example_thread_room(2) [of "2 ^ 40"]) simp_all
  obtain xt' where "thread_create thread_env default_build 0 0 0 example_threads
      = Inr ((0, new_tid thread_env default_build 0 example_threads), xt')"
    using thread_create_ok [where env = thread_env, OF example_threads(2) example_next(2) example_create(1) n f k] by blast
  from thread_table_refines [OF thr_step.create [OF example_next(2) example_create(1) n f k this] example_threads(2)]
  show ?thesis unfolding example_next(1) by blast
qed

text \<open>With 128 live threads the next \<open>thread_create\<close> does not fail with an error: it writes behind the
  array of the threads.\<close>
lemma thread_index_exhausted:
  assumes "slots_ok xt" and "card (busy xt) = MAX_ALIVE_THREADS"
  shows "thread_create env c base fn arg xt = Inl (Fault 0)"
  by (simp add: thread_create_def allocThreadIndex_full [OF assms])

text \<open>C20: entries are never removed from the table of identifiers and \<open>insertIfAbsent\<close> does not replace
  them: when the C library reuses the identifier of an earlier thread, which had index \<open>j\<close>, for a
  new one, joining the new thread makes index \<open>j\<close> available, whoever has it, and never its own.\<close>
theorem reused_id_frees_wrong_index:
  assumes "xt_inv xt" and "card (busy xt) < MAX_ALIVE_THREADS"
    and "(ucast (env (create_trace c base xt)) :: u32) = 0"
    and "hm_alpha (x_map xt) (new_tid env c base xt, sizeof_pointer) = Some (of_nat j)"
    and "j < MAX_ALIVE_THREADS" and "j \<noteq> next_index xt"
    and "\<And>tr. (ucast (env (Real_pthread_join (new_tid env c base xt) # tr)) :: u32) = 0"
  shows "\<exists>tid xt1 xt2. thread_create env c base fn arg xt = Inr ((0, tid), xt1) \<and>
    live_threads xt1 (next_index xt) = Some tid \<and> live_threads xt1 j = live_threads xt j \<and>
    thread_join env c tid xt1 = Inr (0, xt2) \<and> live_threads xt2 (next_index xt) = Some tid \<and> live_threads xt2 j = None"
proof -
  let ?i = "next_index xt" and ?tid = "new_tid env c base xt"
  have S: "slots_ok xt" and H: "hm_inv (x_map xt)" using assms(1) by (simp_all add: xt_inv_def)
  have i: "?i < length (x_threads xt)" using next_index_below(2) [OF S assms(2)] S by (simp add: slots_ok_def)
  obtain xt1 where x1: "thread_create env c base fn arg xt = Inr ((0, ?tid), xt1)" "slots_ok xt1"
    "busy xt1 = insert ?i (busy xt)" "x_map xt1 = x_map xt"
    "x_threads xt1 = (x_threads xt)[?i := (x_threads xt ! ?i)\<lparr> available := False,
      startArg := arg, startRoutine := fn, t_index := int ?i, pthreadt := ?tid \<rparr>]"
    using thread_create_eq [where env = env, OF S assms(2,3) hm_insertIfAbsent_present [OF H assms(4)], of fn arg] by blast
  have r: "(ucast (env (join_trace ?tid xt1)) :: u32) = 0" unfolding join_trace_def by (rule assms(7))
  obtain xt2 where x2: "thread_join env c ?tid xt1 = Inr (0, xt2)" "busy xt2 = busy xt1 - {j}"
    "\<forall>k. k \<noteq> j \<longrightarrow> x_threads xt2 ! k = x_threads xt1 ! k"
    using thread_join_eq [where env = env and c = c, OF x1(2) _ r _ assms(5)] x1(4) H assms(4) by auto
  show ?thesis
    using x1(1,3,5) x2 i assms(6) by (intro exI [of _ ?tid] exI [of _ xt1] exI [of _ xt2]) (auto simp: live_threads_def)
qed

text \<open>A C library that gives the identifier of the main thread to the next thread.\<close>

definition reusing_env :: env where
  "reusing_env tr = (case tr of Created_pthread_t # rest \<Rightarrow> main_id | _ \<Rightarrow> 0)"

theorem reused_id_frees_wrong_index_witness:
  "\<exists>tid xt1 xt2. thread_create reusing_env default_build 0 0 0 example_threads = Inr ((0, tid), xt1) \<and>
    thread_join reusing_env default_build tid xt1 = Inr (0, xt2) \<and> live_threads xt2 0 = None"
proof -
  have t: "new_tid reusing_env default_build 0 example_threads = main_id" by (simp add: new_tid_def reusing_env_def)
  have r: "(ucast (reusing_env (create_trace default_build 0 example_threads)) :: u32) = 0"
    by (simp add: create_trace_def reusing_env_def)
  have a: "hm_alpha (x_map example_threads) (new_tid reusing_env default_build 0 example_threads, sizeof_pointer) = Some (of_nat 0)"
    unfolding t example_threads(4) by simp
  have j: "(ucast (reusing_env (Real_pthread_join (new_tid reusing_env default_build 0 example_threads) # tr)) :: u32) = 0" for tr
    by (simp add: reusing_env_def)
  have z: "0 < MAX_ALIVE_THREADS" "0 \<noteq> next_index example_threads"
    unfolding example_next(1) by (simp_all add: MAX_ALIVE_THREADS_def)
  from reused_id_frees_wrong_index [OF example_threads(2) example_next(2) r a z j, of 0 0] show ?thesis by blast
qed

text \<open>With customized stacks, \<open>thread_create\<close> gives thread \<open>i\<close> a stack between two guard pages, and
  \<open>getThreadIndex\<close> of any address on that stack returns \<open>i\<close>, so that every allocation of the thread uses
  its own sub-heap.\<close>
lemma stack_identifies_thread:
  assumes "CUSTOMIZED_STACK c" and "i < MAX_ALIVE_THREADS" and "d < unat (snd (thread_stack c base (int i)))"
  shows "getThreadIndex c base (fst (thread_stack c base (int i)) + of_nat d) = Inr (int i)"
proof -
  have "d < STACK_SIZE - 2 * 4096"
    using assms(1,3) by (simp add: thread_stack_def STACK_SIZE_def PageSize_def)
  then have d: "4096 + d < STACK_SIZE" by (simp add: STACK_SIZE_def)
  have e: "fst (thread_stack c base (int i)) + of_nat d = base + of_nat (i * STACK_SIZE + (4096 + d))"
    using assms(1) by (simp add: thread_stack_def PageSize_def)
  have "i < MAX_THREADS" using assms(2) by (simp add: MAX_THREADS_def)
  then show ?thesis unfolding e by (rule getThreadIndex_slot [OF _ d])
qed

end
