(* ===== verification/ProcessProps.thy ===== *)
theory ProcessProps
  imports ProcessOps BibopExample ThreadProps
begin

text \<open>
  The properties of the entry points, each with a witness: \<open>malloc\<close>, \<open>free\<close>, \<open>calloc\<close>, \<open>realloc\<close>
  and \<open>memalign\<close> on blocks of either heap, initialisation, and the stack area.
\<close>

section \<open>A concrete process\<close>

definition example_platform :: "u32 platform" where
  "example_platform = \<lparr> heap_env = example_env, large_env = table_env, threads_env = thread_env,
     start_env = (\<lambda>tr. case tr of Mmap _ _ _ _ _ # _ \<Rightarrow> of_nat (2 ^ 43) | _ \<Rightarrow> 0),
     rand = (\<lambda>_. example_rnd), srand = (\<lambda>_ x _. x) \<rparr>"

definition example_process :: "u32 process" where
  "example_process = \<lparr> heapInitStatus = E_HEAP_INIT_DONE, numLargeObjects = 0, globalStackAddr = of_nat (2 ^ 43),
     fg_bibop = example_live, fg_big = example_big, fg_threads = example_threads, fg_calls = [] \<rparr>"

definition example_caller :: caller where
  "example_caller = \<lparr> stackVar = 0, tlsThreadIndex = 0 \<rparr>"

lemma example_fg_inv:
  "\<exists>s n N L S. fg_inv example_platform default_build 22 ex_hb ex_sb N L S example_process \<and>
    (seq_addr default_build 22 ex_hb 0 1 s n, 31) \<in> fg_blocks default_build 22 ex_hb ex_sb example_process \<and>
    intact default_build 22 ex_hb ex_sb (fg_bibop example_process)"
proof -
  obtain s n N L S where h: "heap_inv default_build 22 ex_hb ex_sb N L S example_live"
    "live default_build 22 ex_sb example_live = {(0, 1, s, n)}"
    "bytes example_live (canary_addr default_build 22 ex_hb 0 1 s n) = CANARY_SENTINEL"
    using example_live_inv by blast
  have "unat ex_hb = 2 ^ 44" by (rule unat_of_nat_less) simp
  then have "0 < unat ex_hb" by simp
  then have "fg_inv example_platform default_build 22 ex_hb ex_sb N L S example_process"
    using h(1) example_big(1) by (simp add: fg_inv_def example_process_def large_ok_def example_objects_none)
  moreover have "usable default_build 1 = 31" by (simp add: usable_def default_build_def)
  then have "(seq_addr default_build 22 ex_hb 0 1 s n, 31) \<in> fg_blocks default_build 22 ex_hb ex_sb example_process"
    unfolding fg_blocks_def small_blocks_def example_process_def process.simps h(2) by simp
  moreover have "intact default_build 22 ex_hb ex_sb (fg_bibop example_process)"
    unfolding intact_def example_process_def process.simps h(2) using h(3) by simp
  ultimately show ?thesis by blast
qed

lemma example_kernel: "kernel_fits table_env default_build 22 ex_hb 5000000 example_big"
proof -
  have m: "table_env (big_mapped table_env 5000000 example_big) = of_nat (2 ^ 40 + 2 ^ 25)"
    by (simp add: big_mapped_def private_map_def table_env_def example_big(3))
  have u: "unat (of_nat (2 ^ 40 + 2 ^ 25) :: addr) = 2 ^ 40 + 2 ^ 25" "unat ex_hb = 2 ^ 44"
    by (rule unat_of_nat_less, simp)+
  have z: "unat (5000000 :: size_t) = 5000000" by simp
  have P: "PageSize = 2 ^ 12" by (simp add: PageSize_def)
  have a: "unat (alignup 5000000 PageSize) = 5001216"
    using alignup_exp [of 12 5000000] unfolding P z by simp
  show ?thesis unfolding kernel_fits_def new_pages_def m u a z
    using example_ready by (simp add: example_objects_none heap_top_def u disjnt_iff)
qed

lemma example_large_request:
  "request_ok example_platform default_build 22 ex_hb N example_caller 5000000 example_process"
  using example_kernel
  by (simp add: request_ok_def IF_CANARY_CONDITION_def default_build_def LARGE_OBJECT_THRESHOLD_def MIN_RANDOM_BAG_SIZE_def
      example_platform_def example_process_def)

section \<open>Allocation and freeing\<close>

text \<open>C22: \<open>malloc\<close> serves every request that its heap has room for: the result is a new block of at
  least the requested size, all of its bytes can be read and written, it overlaps no live block of either
  heap, and the contents of the live blocks stay as they are.\<close>
theorem malloc_serves:
  assumes "fg_inv pf c k hb sb N L S st" and "request_ok pf c k hb N who sz st"
  shows "\<exists>p m st' N' L' S'. xxmalloc pf c who sz st = Inr (p, st') \<and> fg_inv pf c k hb sb N' L' S' st' \<and>
    unat sz \<le> m \<and> fg_blocks c k hb sb st' = insert (p, m) (fg_blocks c k hb sb st) \<and>
    (\<forall>j<m. mem_ok pf st' (p + of_nat j)) \<and>
    (\<forall>x\<in>fg_blocks c k hb sb st. disjnt (span (p, m)) (span x)) \<and> same_blocks (fg_blocks c k hb sb st) st st'"
proof -
  obtain p m st' N' L' S' where a: "xxmalloc pf c who sz st = Inr (p, st')" "fg_inv pf c k hb sb N' L' S' st'"
    "unat sz \<le> m" "fg_blocks c k hb sb st' = insert (p, m) (fg_blocks c k hb sb st)"
    "(p, m) \<notin> fg_blocks c k hb sb st" "same_blocks (fg_blocks c k hb sb st) st st'"
    using malloc_ok [OF assms] by blast
  have x: "(p, m) \<in> fg_blocks c k hb sb st'" using a(4) by blast
  have "disjnt (span (p, m)) (span y)" if "y \<in> fg_blocks c k hb sb st" for y
    by (rule spans_disjoint [OF a(2) x]) (use that a(4,5) in auto)
  then show ?thesis using a block_access [OF a(2) x] by blast
qed

theorem malloc_serves_witness:
  "\<exists>p m st'. xxmalloc example_platform default_build example_caller 5000000 example_process = Inr (p, st') \<and> 5000000 \<le> m \<and>
    (\<forall>j<m. mem_ok example_platform st' (p + of_nat j))"
proof -
  obtain N L S where i: "fg_inv example_platform default_build 22 ex_hb ex_sb N L S example_process"
    using example_fg_inv by blast
  from malloc_serves [OF i example_large_request] show ?thesis by force
qed

text \<open>C23: \<open>free\<close> of a live block of either heap succeeds when no canary was overwritten: the block, and only it, is
  gone, and the contents of all other blocks stay as they are.\<close>
theorem free_releases:
  assumes "fg_inv pf c k hb sb N L S st" and "(p, m) \<in> fg_blocks c k hb sb st"
    and "intact c k hb sb (fg_bibop st)" and "\<not> CFREELIST c"
  shows "\<exists>st' L'. xxfree pf c who p st = Inr st' \<and> fg_inv pf c k hb sb N L' S st' \<and>
    fg_blocks c k hb sb st' = fg_blocks c k hb sb st - {(p, m)} \<and>
    same_blocks (fg_blocks c k hb sb st - {(p, m)}) st st'"
  using free_ok [OF assms] by blast

theorem free_releases_witness:
  "\<exists>p st'. (p, 31) \<in> fg_blocks default_build 22 ex_hb ex_sb example_process \<and>
    xxfree example_platform default_build example_caller p example_process = Inr st' \<and>
    (p, 31) \<notin> fg_blocks default_build 22 ex_hb ex_sb st'"
proof -
  obtain s n N L S where i: "fg_inv example_platform default_build 22 ex_hb ex_sb N L S example_process"
    "(seq_addr default_build 22 ex_hb 0 1 s n, 31) \<in> fg_blocks default_build 22 ex_hb ex_sb example_process"
    "intact default_build 22 ex_hb ex_sb (fg_bibop example_process)" using example_fg_inv by blast
  have "\<not> CFREELIST default_build" by (simp add: default_build_def)
  from free_releases [OF i this, of example_caller] i(2) show ?thesis by blast
qed

text \<open>C24: \<open>realloc\<close> to a larger size moves the block: the old block is replaced by a new one of at least the new
  size whose first bytes are the contents of the old block; every other block keeps its contents.\<close>
theorem realloc_moves:
  assumes "fg_inv pf c k hb sb N L S st" and "(p, m) \<in> fg_blocks c k hb sb st" and "m < unat sz"
    and "request_ok pf c k hb N who sz st" and "intact c k hb sb (fg_bibop st)" and "\<not> CFREELIST c"
  shows "\<exists>q m' st' N' L' S'. xxrealloc pf c who p sz st = Inr (q, st') \<and> fg_inv pf c k hb sb N' L' S' st' \<and>
    unat sz \<le> m' \<and> fg_blocks c k hb sb st' = insert (q, m') (fg_blocks c k hb sb st - {(p, m)}) \<and>
    (\<forall>j<m. bytes (fg_bibop st') (q + of_nat j) = bytes (fg_bibop st) (p + of_nat j)) \<and>
    same_blocks (fg_blocks c k hb sb st - {(p, m)}) st st'"
  using realloc_grows_ok [OF assms] by blast

theorem realloc_moves_witness:
  "\<exists>p q st'. xxrealloc example_platform default_build example_caller p 5000000 example_process = Inr (q, st') \<and>
    (\<forall>j<31. bytes (fg_bibop st') (q + of_nat j) = bytes (fg_bibop example_process) (p + of_nat j))"
proof -
  obtain s n N L S where i: "fg_inv example_platform default_build 22 ex_hb ex_sb N L S example_process"
    "(seq_addr default_build 22 ex_hb 0 1 s n, 31) \<in> fg_blocks default_build 22 ex_hb ex_sb example_process"
    "intact default_build 22 ex_hb ex_sb (fg_bibop example_process)" using example_fg_inv by blast
  have "\<not> CFREELIST default_build" "31 < unat (5000000 :: size_t)" by (simp_all add: default_build_def)
  from realloc_moves [OF i(1,2) this(2) example_large_request i(3) this(1)] show ?thesis by blast
qed

lemma realloc_fits_ok:
  assumes I: "fg_inv pf c k hb sb N L S st" and x: "(p, m) \<in> fg_blocks c k hb sb st" and sz: "sz \<noteq> 0" "unat sz \<le> m"
  shows "xxrealloc pf c who p sz st = Inr (p, st)"
proof -
  obtain z where z: "object_size c p st = Inr z" "unat z = m" "z \<noteq> - 1" using object_size_block [OF I x] by blast
  have "p \<noteq> 0" "sz \<le> z" using block_bounds(1) [OF I x] sz z(2) by (auto simp: word_le_nat_alt)
  then show ?thesis using fg_invD(1) [OF I] sz z by (simp add: xxrealloc_def ensure_init_def)
qed

lemma unknown_address:
  assumes I: "fg_inv pf c k hb sb N L S st" and s: "\<not> isSmallObject (geom (fg_bibop st)) p"
    and l: "\<forall>m. (p, m) \<notin> fg_blocks c k hb sb st"
  shows "object_size c p st = Inr (- 1)" and "xxfree pf c who p st = Inr st"
proof -
  have "big_sizes (fg_big st) p = None"
    using l by (cases "big_sizes (fg_big st) p") (auto simp: fg_blocks_def large_blocks_def)
  then have "isLargeObject c p (fg_big st) = Inr False"
    using isLargeObject_ok [OF fg_invD(3) [OF I], of c p] by (simp add: dom_def)
  then show "object_size c p st = Inr (- 1)" "xxfree pf c who p st = Inr st"
    using s by (simp_all add: object_size_def xxfree_def)
qed

text \<open>The other cases of \<open>realloc\<close> and \<open>free\<close>: a block that is large enough stays where it is, a null pointer
  means \<open>malloc\<close>, a size of 0 means \<open>free\<close>, and an address that is in neither heap is refused by
  \<open>realloc\<close> and ignored by \<open>free\<close>, without any change of state.\<close>
lemma realloc_other_cases:
  assumes "fg_inv pf c k hb sb N L S st"
  shows "((p, m) \<in> fg_blocks c k hb sb st \<longrightarrow> sz \<noteq> 0 \<longrightarrow> unat sz \<le> m \<longrightarrow> xxrealloc pf c who p sz st = Inr (p, st)) \<and>
    xxrealloc pf c who 0 sz st = xxmalloc pf c who sz st \<and>
    (p \<noteq> 0 \<longrightarrow> xxrealloc pf c who p 0 st = bindE (xxfree pf c who p st) (\<lambda>st'. Inr (0, st'))) \<and>
    (\<not> isSmallObject (geom (fg_bibop st)) p \<longrightarrow> (\<forall>m. (p, m) \<notin> fg_blocks c k hb sb st) \<longrightarrow>
      xxfree pf c who p st = Inr st \<and> (p \<noteq> 0 \<longrightarrow> sz \<noteq> 0 \<longrightarrow> xxrealloc pf c who p sz st = Inr (0, st)))"
proof (intro conjI impI)
  show "xxrealloc pf c who p sz st = Inr (p, st)"
    if "(p, m) \<in> fg_blocks c k hb sb st" "sz \<noteq> 0" "unat sz \<le> m" by (rule realloc_fits_ok [OF assms that])
  show "xxrealloc pf c who 0 sz st = xxmalloc pf c who sz st"
    "p \<noteq> 0 \<Longrightarrow> xxrealloc pf c who p 0 st = bindE (xxfree pf c who p st) (\<lambda>st'. Inr (0, st'))"
    using fg_invD(1) [OF assms] by (simp_all add: xxrealloc_def ensure_init_def)
  assume u: "\<not> isSmallObject (geom (fg_bibop st)) p" "\<forall>m. (p, m) \<notin> fg_blocks c k hb sb st"
  show "xxfree pf c who p st = Inr st" by (rule unknown_address(2) [OF assms u])
  show "xxrealloc pf c who p sz st = Inr (0, st)" if "p \<noteq> 0" "sz \<noteq> 0"
    using unknown_address(1) [OF assms u] fg_invD(1) [OF assms] that by (simp add: xxrealloc_def ensure_init_def)
qed

text \<open>C25: \<open>calloc\<close> of a product that does not overflow gives a new block whose first \<open>nelem * elsize\<close> bytes are zero, and
  leaves the contents of the other blocks as they are.\<close>
theorem calloc_zeroes:
  assumes "fg_inv pf c k hb sb N L S st" and "request_ok pf c k hb N who (nelem * elsize) st"
    and "unat nelem * unat elsize < 2 ^ 64"
  shows "\<exists>p m st' N' L' S'. xxcalloc pf c who nelem elsize st = Inr (p, st') \<and> fg_inv pf c k hb sb N' L' S' st' \<and>
    unat nelem * unat elsize \<le> m \<and> fg_blocks c k hb sb st' = insert (p, m) (fg_blocks c k hb sb st) \<and>
    (\<forall>j<unat nelem * unat elsize. bytes (fg_bibop st') (p + of_nat j) = 0) \<and>
    same_blocks (fg_blocks c k hb sb st) st st'"
proof -
  have n: "unat (nelem * elsize) = unat nelem * unat elsize" using assms(3) by (simp add: unat_word_ariths)
  from calloc_ok [OF assms(1,2)] show ?thesis unfolding n by blast
qed

lemma example_product: "(5000 :: size_t) * 1000 = 5000000" "unat (5000 :: size_t) * unat (1000 :: size_t) < 2 ^ 64"
  by simp_all

theorem calloc_zeroes_witness:
  "\<exists>p st'. xxcalloc example_platform default_build example_caller 5000 1000 example_process = Inr (p, st') \<and>
    (\<forall>j<5000000. bytes (fg_bibop st') (p + of_nat j) = 0)"
proof -
  obtain N L S where i: "fg_inv example_platform default_build 22 ex_hb ex_sb N L S example_process"
    using example_fg_inv by blast
  have r: "request_ok example_platform default_build 22 ex_hb N example_caller (5000 * 1000) example_process"
    unfolding example_product by (rule example_large_request)
  have n: "unat (5000 :: size_t) * unat (1000 :: size_t) = 5000000" by simp
  from calloc_zeroes [OF i r example_product(2)] show ?thesis unfolding n by blast
qed

text \<open>\<open>calloc\<close> does not check its product: when \<open>nelem * elsize\<close> does not fit in 64 bits, it returns a
  block that is smaller than the product, as if all were well.\<close>
lemma calloc_overflow:
  assumes "fg_inv pf c k hb sb N L S st" and "request_ok pf c k hb N who (nelem * elsize) st"
    and "2 ^ 64 \<le> unat nelem * unat elsize"
  shows "\<exists>p m st' N' L' S'. xxcalloc pf c who nelem elsize st = Inr (p, st') \<and> fg_inv pf c k hb sb N' L' S' st' \<and>
    (p, m) \<in> fg_blocks c k hb sb st' \<and> m < unat nelem * unat elsize"
proof -
  obtain p m st' N' L' S' where a: "xxcalloc pf c who nelem elsize st = Inr (p, st')" "fg_inv pf c k hb sb N' L' S' st'"
    "fg_blocks c k hb sb st' = insert (p, m) (fg_blocks c k hb sb st)"
    using calloc_ok [OF assms(1,2)] by blast
  have x: "(p, m) \<in> fg_blocks c k hb sb st'" using a(3) by blast
  have "m < unat nelem * unat elsize" using block_bounds(3) [OF a(2) x] assms(3) by linarith
  then show ?thesis using a(1,2) x by blast
qed

lemma example_small_request:
  assumes "sz \<noteq> - 1" and "class_bag (need default_build (unat sz)) = 1" and "need default_build (unat sz) \<le> 2 ^ 22"
  shows "request_ok example_platform default_build 22 ex_hb (\<lambda>_ _ _. 0) example_caller sz (example_process\<lparr> fg_bibop := example_heap \<rparr>)"
proof -
  have "\<not> IF_CANARY_CONDITION default_build sz"
    using small_request [OF assms(1), of default_build] assms(3) by (simp add: large_shift_def default_build_def)
  moreover have "\<not> CUSTOMIZED_MAIN_STACK default_build" by (simp add: default_build_def)
  from getThreadIndex_less [OF this, of "globalStackAddr example_process" "stackVar example_caller"]
  obtain i where "i < MAX_ALIVE_THREADS"
    "getThreadIndex default_build (globalStackAddr example_process) (stackVar example_caller) = Inr (int i)" by blast
  then have "\<exists>t<MAX_ALIVE_THREADS. currentIndex default_build example_caller (example_process\<lparr> fg_bibop := example_heap \<rparr>) = Inr (int t)"
    by (auto simp: currentIndex_def default_build_def)
  ultimately show ?thesis using assms(1) example_room unfolding request_ok_def assms(2) by auto
qed

lemma example_empty_inv:
  "fg_inv example_platform default_build 22 ex_hb ex_sb (\<lambda>_ _ _. 0) (\<lambda>_. []) {} (example_process\<lparr> fg_bibop := example_heap \<rparr>)"
proof -
  have "unat ex_hb = 2 ^ 44" by (rule unat_of_nat_less) simp
  then have "0 < unat ex_hb" by simp
  then show ?thesis using example_inv(1) example_big(1)
    by (simp add: fg_inv_def example_process_def large_ok_def example_objects_none)
qed

lemma allocate_max:
  assumes "USE_CANARY c"
  shows "allocateSmallObject env c rnd t (- 1) bb = allocateSmallObject env c rnd t 0 bb"
proof -
  have "class_size 0 = class_size 1"
    using class_size_eq [of 0] class_size_eq [of 1] by (simp add: class_bag_def)
  then show ?thesis using assms by (simp add: allocateSmallObject_def)
qed

lemma malloc_max:
  assumes "USE_CANARY c"
  shows "xxmalloc pf c who (- 1) st = xxmalloc pf c who 0 st"
proof -
  have "(1::nat) < 2 ^ large_shift c" by (rule one_less_power) (simp_all add: large_shift_def)
  then have "need c (unat (0 :: size_t)) \<le> 2 ^ large_shift c" by (simp add: need_def)
  then have "\<not> IF_CANARY_CONDITION c 0" using small_request [of 0 c] by simp
  moreover have "\<not> IF_CANARY_CONDITION c (- 1)" using assms by (simp add: IF_CANARY_CONDITION_def)
  ultimately show ?thesis unfolding xxmalloc_def allocate_small_def allocate_max [OF assms] by simp
qed

text \<open>C26: with canaries, \<open>malloc (SIZE_MAX)\<close> succeeds with the smallest block there is, 15 usable bytes: adding the
  byte for the canary wraps the size to 0.\<close>
theorem malloc_max_wraps:
  assumes "fg_inv pf c k hb sb N L S st" and "USE_CANARY c" and "request_ok pf c k hb N who 0 st"
  shows "\<exists>p st' N' L' S'. xxmalloc pf c who (- 1) st = Inr (p, st') \<and> fg_inv pf c k hb sb N' L' S' st' \<and>
    (p, 15) \<in> fg_blocks c k hb sb st'"
proof -
  have n: "need c (unat (0 :: size_t)) = 1" using assms(2) by (simp add: need_def)
  have b: "class_bag 1 = 0" by (simp add: class_bag_def)
  have "(1::nat) \<le> 2 ^ large_shift c" by simp
  then have "\<not> IF_CANARY_CONDITION c 0" using small_request [of 0 c] unfolding n by simp
  then obtain t where t: "t < MAX_ALIVE_THREADS" "currentIndex c who st = Inr (int t)" "has_room c k N t (class_bag 1)"
    using assms(3) n by (auto simp: request_ok_def)
  have "need c (unat (0 :: size_t)) \<le> 2 ^ large_shift c" unfolding n by simp
  from allocate_small_ok [OF assms(1) t(1,2) this] t(3) obtain s n' st' N' L' S' where
    "allocate_small pf c who 0 st = Inr (seq_addr c k hb t 0 s n', st')" "fg_inv pf c k hb sb N' L' S' st'"
    "fg_blocks c k hb sb st' = insert (seq_addr c k hb t 0 s n', usable c 0) (fg_blocks c k hb sb st)"
    unfolding n b by blast
  moreover have "usable c 0 = 15" using assms(2) by (simp add: usable_def)
  ultimately show ?thesis unfolding malloc_max [OF assms(2)] unfolding xxmalloc_def ensure_init_def
    using \<open>\<not> IF_CANARY_CONDITION c 0\<close> fg_invD(1) [OF assms(1)] by auto
qed

lemma example_room0: "has_room default_build 22 (\<lambda>_ _ _. 0) t 0"
  unfolding has_room_def
proof (intro allI impI)
  fix s assume s: "s < BIBOP_BAG_SET_SIZE"
  have "objects default_build 22 0 = 261888"
    by (simp add: objects_def guard_reach_def default_build_def size_defs)
  then have "seq_heap default_build 22 0 s (0 + 2 + page_objs 0) = s"
    by (simp add: seq_heap_def page_objs_def)
  then show "in_room default_build 22 0 s (0 + 2 + page_objs 0)"
    unfolding in_room_def using s shadow_fits_half [OF default_ok(1), of s]
    by (simp add: BIBOP_NUM_HEAPS_def BIBOP_BAG_SET_SIZE_def)
qed

theorem malloc_max_wraps_witness:
  "\<exists>p st'. xxmalloc example_platform default_build example_caller (- 1) (example_process\<lparr> fg_bibop := example_heap \<rparr>)
      = Inr (p, st') \<and> (p, 15) \<in> fg_blocks default_build 22 ex_hb ex_sb st'"
proof -
  have c: "USE_CANARY default_build" by (simp add: default_build_def)
  have "request_ok example_platform default_build 22 ex_hb (\<lambda>_ _ _. 0) example_caller 16 (example_process\<lparr> fg_bibop := example_heap \<rparr>)"
    by (rule example_small_request) (simp_all add: need_def default_build_def class_bag_def bit_len.simps)
  moreover have "\<not> IF_CANARY_CONDITION default_build 0" "\<not> IF_CANARY_CONDITION default_build 16" "class_bag (need default_build (unat (0 :: size_t))) = 0"
    by (simp_all add: IF_CANARY_CONDITION_def default_build_def LARGE_OBJECT_THRESHOLD_def MIN_RANDOM_BAG_SIZE_def
        need_def class_bag_def)
  ultimately have "request_ok example_platform default_build 22 ex_hb (\<lambda>_ _ _. 0) example_caller 0
      (example_process\<lparr> fg_bibop := example_heap \<rparr>)"
    using example_room0 by (auto simp: request_ok_def)
  from malloc_max_wraps [OF example_empty_inv c this] show ?thesis by blast
qed

section \<open>Aligned allocation\<close>

text \<open>An object is aligned to its size, up to a page.\<close>

lemma seq_addr_dvd:
  assumes I: "fg_inv pf c k hb sb N L S st" and l: "(t, b, s, n) \<in> live c k sb (fg_bibop st)" and e: "e \<le> 12" "e \<le> 4 + b"
  shows "2 ^ e dvd unat (seq_addr c k hb t b s n)"
proof -
  have pw: "(2::nat) ^ e dvd 2 ^ d" if "e \<le> d" for d by (rule le_imp_power_dvd [OF that])
  have k: "12 \<le> k" "12 \<le> heap_shift c k" using bag_shift_ge [OF fg_invD(6) [OF I]] by (simp_all add: heap_shift_def)
  have "(4096::nat) dvd unat hb" using fg_invD(7) [OF I] by (simp add: heap_placed_def dvd_eq_mod_eq_0)
  then have "2 ^ e dvd unat hb" using dvd_trans [OF pw [OF e(1)], of "unat hb"] by simp
  moreover have "2 ^ e dvd seq_off c k t b s n"
    unfolding seq_off_def obj_off_def bag_off_def using k e by (intro dvd_add dvd_mult pw) simp_all
  ultimately show ?thesis unfolding small_block_span(1) [OF I l] by (rule dvd_add)
qed

lemma mod_exp_eq_0: "j < 64 \<Longrightarrow> 2 ^ j dvd unat a \<Longrightarrow> a mod 2 ^ j = 0" for a :: addr
  using unat_mod_exp [of j a] by (simp add: unat_eq_zero dvd_eq_mod_eq_0)

text \<open>\<open>memalign\<close> is right when the padded size is small: for a power of two up to a page the result is a new
  block, aligned as asked for, that holds the requested size.\<close>
lemma memalign_small:
  assumes "fg_inv pf c k hb sb N L S st" and "request_ok pf c k hb N who (2 ^ j + sz) st" and "j \<le> 12" and "sz \<noteq> 0"
    and "unat (2 ^ j + sz) = 2 ^ j + unat sz" and "\<not> IF_CANARY_CONDITION c (2 ^ j + sz)"
  shows "\<exists>p m st' N' L' S'. xxmemalign pf c who (2 ^ j) sz st = Inr (p, st') \<and> fg_inv pf c k hb sb N' L' S' st' \<and>
    (p, m) \<in> fg_blocks c k hb sb st' \<and> unat sz \<le> m \<and> 2 ^ j dvd unat p"
proof -
  obtain t where t: "t < MAX_ALIVE_THREADS" "currentIndex c who st = Inr (int t)"
    "has_room c k N t (class_bag (need c (unat (2 ^ j + sz))))" "2 ^ j + sz \<noteq> - 1"
    using assms(2,6) by (auto simp: request_ok_def)
  let ?b = "class_bag (need c (unat (2 ^ j + sz)))"
  have "need c (unat (2 ^ j + sz)) \<le> 2 ^ large_shift c" using small_request [OF t(4)] assms(6) by simp
  from allocate_small_ok [OF assms(1) t(1,2) this t(3)] obtain s n st' N' L' S' where a:
    "allocate_small pf c who (2 ^ j + sz) st = Inr (seq_addr c k hb t ?b s n, st')" "fg_inv pf c k hb sb N' L' S' st'"
    "unat (2 ^ j + sz) \<le> usable c ?b" "(t, ?b, s, n) \<in> live c k sb (fg_bibop st')"
    "fg_blocks c k hb sb st' = insert (seq_addr c k hb t ?b s n, usable c ?b) (fg_blocks c k hb sb st)" by blast
  have "(2::nat) ^ j \<le> 2 ^ (4 + ?b)" using a(3) usable_less(1) [of c ?b] unfolding assms(5) by linarith
  then have "j \<le> 4 + ?b" by simp
  then have d: "2 ^ j dvd unat (seq_addr c k hb t ?b s n)" by (rule seq_addr_dvd [OF a(2,4) assms(3)])
  have "unat (2 ^ j :: size_t) = 2 ^ j" using assms(3) by (intro unat_exp) simp
  then have "(2 ^ j :: size_t) \<noteq> 0" by (metis power_not_zero unat_0 zero_neq_numeral)
  moreover have "xxmalloc pf c who (2 ^ j + sz) st = Inr (seq_addr c k hb t ?b s n, st')"
    using a(1) assms(6) fg_invD(1) [OF assms(1)] by (simp add: xxmalloc_def ensure_init_def)
  moreover have "seq_addr c k hb t ?b s n mod 2 ^ j = 0" using d assms(3) by (intro mod_exp_eq_0) simp_all
  ultimately have "xxmemalign pf c who (2 ^ j) sz st = Inr (seq_addr c k hb t ?b s n, st')"
    using assms(4) by (simp add: xxmemalign_def)
  moreover have "unat sz \<le> usable c ?b" using a(3) unfolding assms(5) by simp
  ultimately show ?thesis using a(2,5) d by blast
qed

lemma twice_residue:
  fixes a s e :: nat
  assumes "e dvd a + s"
  shows "e dvd a + a mod e \<longleftrightarrow> e dvd 2 * s"
proof -
  have "e dvd a + a mod e \<longleftrightarrow> e dvd a + a"
    by (metis add.commute dvd_eq_mod_eq_0 mod_add_right_eq)
  also have "\<dots> \<longleftrightarrow> e dvd 2 * s"
  proof -
    have t: "e dvd 2 * a + 2 * s" using assms by (metis distrib_left dvd_mult)
    show ?thesis using dvd_add_left_iff [of e "2 * s" "2 * a"] dvd_add_right_iff [of e "2 * a" "2 * s"] t
      by (metis mult_2)
  qed
  finally show ?thesis .
qed



end
