(* ===== verification/StartProps.thy ===== *)
theory StartProps
  imports ProcessProps
begin

text \<open>
  The start of a process: the stack area with its guard pages, and \<open>heapinitialize\<close>, which brings every
  component into a state that satisfies its invariant.
\<close>

section \<open>The stack area\<close>

definition slot_start :: "addr \<Rightarrow> nat \<Rightarrow> addr" where
  "slot_start base i = base + of_nat i * of_nat STACK_SIZE"

text \<open>The calls that \<open>guard_stacks\<close> makes, the last one first.\<close>

fun stack_guards :: "addr \<Rightarrow> nat \<Rightarrow> nat \<Rightarrow> trace \<Rightarrow> trace" where
  "stack_guards base i 0 tr = tr"
| "stack_guards base i (Suc n) tr =
    stack_guards base (Suc i) n (Mprotect (slot_start base i) PageSize #
      Mprotect (slot_start base i + of_nat STACK_SIZE - PageSize) PageSize # tr)"

lemma guard_stacks_ok:
  "\<forall>p n tr. env (Mprotect p n # tr) = 0 \<Longrightarrow> guard_stacks env base i n tr = Inr (stack_guards base i n tr)"
  by (induction n arbitrary: i tr) (simp_all add: ext_def slot_start_def Let_def)

lemma set_stack_guards:
  "set (stack_guards base i n tr) = set tr \<union> (\<Union>j\<in>{i..<i + n}.
    {Mprotect (slot_start base j) PageSize, Mprotect (slot_start base j + of_nat STACK_SIZE - PageSize) PageSize})"
proof (induction n arbitrary: i tr)
  case (Suc n)
  have "{i..<i + Suc n} = insert i {Suc i..<Suc i + n}" by auto
  then show ?case using Suc.IH [of "Suc i"] by auto
qed simp

lemma protected_iff:
  "\<forall>p n tr. env (Mprotect p n # tr) = 0 \<Longrightarrow> protected env tr x \<longleftrightarrow> (\<exists>p n. Mprotect p n \<in> set tr \<and> x - p < n)"
proof (induction tr)
  case (Cons e tr)
  then show ?case by (cases e) auto
qed simp

text \<open>Byte \<open>d\<close> of slot \<open>i\<close> against the two pages of slot \<open>j\<close>.\<close>

lemma slot_page:
  assumes i: "i < MAX_THREADS" "d < STACK_SIZE" and j: "j < MAX_THREADS" and b: "b + 4096 \<le> STACK_SIZE"
  shows "(base + of_nat (i * STACK_SIZE + d)) - (base + of_nat (j * STACK_SIZE + b)) < PageSize \<longleftrightarrow>
    j = i \<and> b \<le> d \<and> d < b + 4096"
proof -
  let ?x = "i * STACK_SIZE + d" and ?y = "j * STACK_SIZE + b"
  have lt: "?x < 2 ^ 31" "?y + 4096 < 2 ^ 31"
    using i j b by (simp_all add: STACK_SIZE_def MAX_THREADS_def MAX_ALIVE_THREADS_def)
  have u: "unat (of_nat ?x :: addr) = ?x" "unat (of_nat ?y :: addr) = ?y"
    by (rule unat_of_nat_less, use lt in simp)+
  have P: "unat PageSize = 4096" by (simp add: PageSize_def)
  have "(base + of_nat ?x) - (base + of_nat ?y) = (of_nat ?x - of_nat ?y :: addr)"
    by (simp only: add_diff_cancel_left)
  moreover have "(of_nat ?x - of_nat ?y :: addr) < PageSize \<longleftrightarrow> ?y \<le> ?x \<and> ?x < ?y + 4096"
  proof -
    have "?y + 4096 < 2 ^ 64" using lt(2) by simp
    then show ?thesis using word_range [of "of_nat ?y" PageSize "of_nat ?x"] unfolding u P by blast
  qed
  moreover have "?y \<le> ?x \<and> ?x < ?y + 4096 \<longleftrightarrow> j = i \<and> b \<le> d \<and> d < b + 4096"
  proof (cases "j = i")
    case False
    then have "Suc i * STACK_SIZE \<le> j * STACK_SIZE \<or> Suc j * STACK_SIZE \<le> i * STACK_SIZE"
      by (metis Suc_leI linorder_neqE_nat mult_le_mono1)
    then show ?thesis using False i(2) b by auto
  qed auto
  ultimately show ?thesis by metis
qed

lemma setup_stacks_ok:
  assumes prot: "\<forall>p n tr. start_env pf (Mprotect p n # tr) = 0"
    and m: "start_env pf (private_map (of_nat STACK_SIZE * of_nat MAX_THREADS) # fg_calls st) = base"
    and base: "base \<noteq> MAP_FAILED" "base \<noteq> 0"
  shows "\<exists>tr. setup_stacks pf st = Inr (st\<lparr> globalStackAddr := base, fg_calls := tr \<rparr>) \<and>
    (\<forall>e. e \<in> set tr \<and> (\<exists>p n. e = Mprotect p n) \<longleftrightarrow> e \<in> set (fg_calls st) \<and> (\<exists>p n. e = Mprotect p n) \<or>
      (\<exists>j. 1 \<le> j \<and> j < MAX_THREADS \<and> (e = Mprotect (slot_start base j) PageSize \<or>
        e = Mprotect (slot_start base j + of_nat STACK_SIZE - PageSize) PageSize)))"
proof -
  let ?sz = "of_nat STACK_SIZE * of_nat MAX_THREADS :: size_t"
  let ?tr = "Madvise base ?sz # private_map ?sz # fg_calls st"
  have "setup_stacks pf st = Inr (st\<lparr> globalStackAddr := base, fg_calls := stack_guards base 1 (MAX_THREADS - 1) ?tr \<rparr>)"
    using m base guard_stacks_ok [OF prot] by (simp add: setup_stacks_def mmapAllocatePrivate_eq Let_def ext_def)
  moreover have "1 + (MAX_THREADS - 1) = MAX_THREADS" by (simp add: MAX_THREADS_def MAX_ALIVE_THREADS_def)
  ultimately show ?thesis
    by (intro exI [of _ "stack_guards base 1 (MAX_THREADS - 1) ?tr"]) (auto simp: set_stack_guards private_map_def)
qed

text \<open>C28: after the set-up of the stack area, when the kernel maps it and closes pages as asked, exactly the first
  and the last page of the stacks 1 to 127 are closed: a thread that runs off either end of its stack
  faults, and no byte of the stack that \<open>thread_create\<close> hands out is closed.\<close>
theorem stacks_guarded:
  assumes "\<forall>p n tr. start_env pf (Mprotect p n # tr) = 0"
    and "start_env pf (private_map (of_nat STACK_SIZE * of_nat MAX_THREADS) # fg_calls st) \<notin> {0, MAP_FAILED}"
    and "\<forall>p n. Mprotect p n \<notin> set (fg_calls st)" and "1 \<le> i" and "i < MAX_THREADS" and "d < STACK_SIZE"
  shows "\<exists>st'. setup_stacks pf st = Inr st' \<and>
    (protected (start_env pf) (fg_calls st') (globalStackAddr st' + of_nat (i * STACK_SIZE + d)) \<longleftrightarrow>
      d < 4096 \<or> STACK_SIZE - 4096 \<le> d)"
proof -
  define base where "base = start_env pf (private_map (of_nat STACK_SIZE * of_nat MAX_THREADS) # fg_calls st)"
  have b: "base \<noteq> MAP_FAILED" "base \<noteq> 0" using assms(2) by (auto simp: base_def)
  obtain tr where tr: "setup_stacks pf st = Inr (st\<lparr> globalStackAddr := base, fg_calls := tr \<rparr>)"
    "\<forall>e. e \<in> set tr \<and> (\<exists>p n. e = Mprotect p n) \<longleftrightarrow> e \<in> set (fg_calls st) \<and> (\<exists>p n. e = Mprotect p n) \<or>
      (\<exists>j. 1 \<le> j \<and> j < MAX_THREADS \<and> (e = Mprotect (slot_start base j) PageSize \<or>
        e = Mprotect (slot_start base j + of_nat STACK_SIZE - PageSize) PageSize))"
    using setup_stacks_ok [OF assms(1) base_def [symmetric] b] by blast
  have first: "slot_start base j = base + of_nat (j * STACK_SIZE + 0)" for j by (simp add: slot_start_def)
  have last: "slot_start base j + of_nat STACK_SIZE - PageSize = base + of_nat (j * STACK_SIZE + (STACK_SIZE - 4096))" for j
    by (simp add: slot_start_def STACK_SIZE_def PageSize_def)
  let ?x = "base + of_nat (i * STACK_SIZE + d)"
  have s: "0 + 4096 \<le> STACK_SIZE" "STACK_SIZE - 4096 + 4096 \<le> STACK_SIZE" by (simp_all add: STACK_SIZE_def)
  have "protected (start_env pf) tr ?x \<longleftrightarrow> (\<exists>j. 1 \<le> j \<and> j < MAX_THREADS \<and>
      (?x - slot_start base j < PageSize \<or> ?x - (slot_start base j + of_nat STACK_SIZE - PageSize) < PageSize))"
    unfolding protected_iff [OF assms(1)] using tr(2) assms(3) by blast
  also have "\<dots> \<longleftrightarrow> d < 4096 \<or> STACK_SIZE - 4096 \<le> d"
  proof -
    have "?x - slot_start base j < PageSize \<longleftrightarrow> j = i \<and> d < 4096" if "j < MAX_THREADS" for j
      unfolding first using slot_page [OF assms(5,6) that s(1)] by simp
    moreover have "?x - (slot_start base j + of_nat STACK_SIZE - PageSize) < PageSize \<longleftrightarrow> j = i \<and> STACK_SIZE - 4096 \<le> d"
      if "j < MAX_THREADS" for j
      unfolding last using slot_page [OF assms(5,6) that s(2), of base] assms(6) by auto
    ultimately show ?thesis using assms(4,5) by blast
  qed
  finally show ?thesis using tr(1) by (intro exI [of _ "st\<lparr> globalStackAddr := base, fg_calls := tr \<rparr>"]) simp
qed

theorem stacks_guarded_witness:
  "\<exists>st'. setup_stacks example_platform example_process = Inr st' \<and>
    (protected (start_env example_platform) (fg_calls st') (globalStackAddr st' + of_nat (127 * STACK_SIZE + 8384512)) \<longleftrightarrow>
      8384512 < (4096 :: nat) \<or> STACK_SIZE - 4096 \<le> 8384512)"
  by (rule stacks_guarded)
    (simp_all add: example_platform_def example_process_def private_map_def MAP_FAILED_def MAX_THREADS_def
      MAX_ALIVE_THREADS_def STACK_SIZE_def)

section \<open>Initialisation\<close>

text \<open>What the C library has to give the thread table and the large-object heap: memory for their tables, and
  the same thread identifier in both calls of \<open>pthread_self\<close>.\<close>

definition threads_start :: "env \<Rightarrow> xthread \<Rightarrow> bool" where
  "threads_start env xt \<longleftrightarrow>
    (let p = env (init_trace env xt); q = env (Real_malloc (of_nat sizeof_Entry) # Pthread_self # init_trace env xt)
     in p \<noteq> 0 \<and> unat p + sizeof_HashEntry * THREAD_MAP_SIZE < 2 ^ 64 \<and>
       env (Pthread_self # init_trace env xt) = env (Pthread_self # Sys_gettid # Sys_time # x_calls xt) \<and>
       q \<noteq> 0 \<and> (\<forall>i<THREAD_MAP_SIZE. q \<noteq> p + of_nat i * of_nat sizeof_HashEntry))"

definition large_start :: "env \<Rightarrow> bigheap \<Rightarrow> bool" where
  "large_start env bh \<longleftrightarrow>
    (let p = env (Real_malloc (of_nat (THREAD_MAP_SIZE * sizeof_HashEntry)) # big_calls bh)
     in p \<noteq> 0 \<and> unat p + sizeof_HashEntry * THREAD_MAP_SIZE < 2 ^ 64)"

text \<open>The heap object with the first seed, and where the kernel puts the heap that \<open>initialize\<close> makes: its areas
  do not overlap or wrap around.\<close>

definition seeded :: "'r platform \<Rightarrow> 'r process \<Rightarrow> 'r bibop" where
  "seeded pf st = (fg_bibop st)\<lparr> rng := srand pf 0 (ucast (start_env pf (Sys_time # fg_calls st))) (rng (fg_bibop st)) \<rparr>"

definition heap_start :: "env \<Rightarrow> build \<Rightarrow> ('r \<Rightarrow> u32 \<times> 'r) \<Rightarrow> 'r bibop \<Rightarrow> bool" where
  "heap_start env c rnd bb \<longleftrightarrow> (\<forall>sz tr. env (private_map sz # tr) \<noteq> MAP_FAILED) \<and>
    (\<forall>hb bb'. initialize env c rnd bb = Inr (hb, bb') \<longrightarrow> 0 < unat (heapBegin (geom bb')) \<and>
      placed c (bagShiftBits (geom bb')) (heapBegin (geom bb')) (shadowMemBegin (geom bb')) (threadBagAddr bb))"

lemma heap_inv_rng:
  assumes "heap_inv c k hb sb N L S st"
  shows "heap_inv c k hb sb N L S (st\<lparr> rng := r \<rparr>)" "live c k sb (st\<lparr> rng := r \<rparr>) = live c k sb st"
proof -
  have "bags_inv c k hb sb N (st\<lparr> rng := r \<rparr>) = bags_inv c k hb sb N st" by (rule bags_inv_cong) simp_all
  moreover have "lists_inv c k sb N L S (st\<lparr> rng := r \<rparr>) = lists_inv c k sb N L S st" by (rule lists_inv_cong) simp_all
  ultimately show "heap_inv c k hb sb N L S (st\<lparr> rng := r \<rparr>)" using assms by (simp add: heap_inv_def)
  show "live c k sb (st\<lparr> rng := r \<rparr>) = live c k sb st" by (rule live_cong) simp
qed

lemma initialize_inv:
  assumes size: "BIBOP_BAG_SIZE c = None" and start: "heap_start env c rnd bb"
    and calls: "\<forall>p n. Mprotect p n \<notin> set (calls bb)" and zero: "\<forall>p. snext (lists bb) p = 0"
  shows "\<exists>k hb sb bb'. initialize env c rnd bb = Inr (hb, bb') \<and> 0 < unat hb \<and>
    heap_inv c k hb sb (\<lambda>_ _ _. 0) (\<lambda>_. []) {} bb' \<and> live c k sb bb' = {}"
proof -
  obtain r rg' where r: "bag_size_random c rnd (rng bb) = (r, rg')" by fastforce
  obtain k where k: "bag_shift_ok c k" "choose_bag_size c r = of_nat (2 ^ k)"
    using choose_bag_size_random [OF size] by blast
  have maps: "env (private_map sz # tr) \<noteq> MAP_FAILED" for sz tr using start by (simp add: heap_start_def)
  obtain hb sb bb' where i: "initialize env c rnd bb = Inr (hb, bb')" "initial_heap c k hb sb bb bb'"
    using initialize_ok [OF k(1) r k(2), of env] maps by blast
  have g: "geom bb' = the_geometry c k hb sb" using i(2) by (simp add: initial_heap_def)
  have p: "0 < unat hb" "placed c k hb sb (threadBagAddr bb)"
    using start i(1) unfolding heap_start_def by (force simp: g the_geometry_def)+
  have c: "\<And>p len. Mprotect p len \<notin> set (calls bb)" using calls by simp
  have z: "\<And>t b s n. item_ok c t b s \<Longrightarrow> in_room c k b s n \<Longrightarrow> snext (lists bb) (seq_slot c k sb t b s n) = 0"
    using zero by simp
  note I = initial_heap_inv [OF k(1) i(2) p(2) c z]
  show ?thesis using i(1) p(1) I by blast
qed


text \<open>The process before the library is initialised: zeroed static objects.\<close>

definition fresh_process :: "u32 process" where
  "fresh_process = \<lparr> heapInitStatus = E_HEAP_INIT_NOT, numLargeObjects = 0, globalStackAddr = 0,
     fg_bibop = static_object default_build ex_base 0, fg_big = blank_big, fg_threads = blank_threads, fg_calls = [] \<rparr>"

lemma fresh_seeded: "seeded example_platform fresh_process = static_object default_build ex_base 0"
  unfolding seeded_def fresh_process_def example_platform_def static_object_def by simp

lemma fresh_heap_start:
  "heap_start example_env default_build example_rnd (static_object default_build ex_base 0)"
  unfolding heap_start_def
proof (intro conjI allI impI)
  fix sz tr show "example_env (private_map sz # tr) \<noteq> MAP_FAILED" by (rule example_mapped)
next
  fix hb and bb' :: "u32 bibop"
  assume "initialize example_env default_build example_rnd (static_object default_build ex_base 0) = Inr (hb, bb')"
  then have "bb' = example_heap" unfolding example_heap_def by (simp only: sum.case prod.case)
  then have g: "geom bb' = the_geometry default_build 22 ex_hb ex_sb"
    using example_heap_initial by (simp only: initial_heap_def)
  have e: "heapBegin (geom bb') = ex_hb" "shadowMemBegin (geom bb') = ex_sb" "bagShiftBits (geom bb') = 22"
    unfolding g the_geometry_def by simp_all
  have "unat ex_hb = 2 ^ 44" by (rule unat_of_nat_less) simp
  then show "0 < unat (heapBegin (geom bb'))" unfolding e by simp
  have "threadBagAddr (static_object default_build ex_base (0 :: u32)) = ex_base" unfolding static_object_def by simp
  then show "placed default_build (bagShiftBits (geom bb')) (heapBegin (geom bb')) (shadowMemBegin (geom bb'))
      (threadBagAddr (static_object default_build ex_base (0 :: u32)))"
    unfolding e using example_placed by (simp only:)
qed

lemma fresh_threads_start: "threads_start thread_env blank_threads"
proof -
  have tr: "init_trace thread_env blank_threads = [Real_malloc (of_nat (THREAD_MAP_SIZE * sizeof_HashEntry)),
      Pthread_self, Sys_gettid, Sys_time]" by (simp add: init_trace_def blank_threads_def)
  have e: "thread_env (init_trace thread_env blank_threads) = table_base"
    "thread_env (Pthread_self # init_trace thread_env blank_threads) = main_id"
    "thread_env (Pthread_self # Sys_gettid # Sys_time # x_calls blank_threads) = main_id"
    "thread_env (Real_malloc (of_nat sizeof_Entry) # Pthread_self # init_trace thread_env blank_threads) = node_base"
    unfolding tr by (simp_all add: thread_env_def)
  have u: "unat table_base = 2 ^ 30 + 2 ^ 16 * 3" "unat node_base = 2 ^ 30 + 2 ^ 16 * 5" by (rule unat_of_nat_less, simp)+
  then have n: "table_base \<noteq> 0" "node_base \<noteq> 0" by auto
  have l: "unat table_base + sizeof_HashEntry * THREAD_MAP_SIZE < 2 ^ 64"
    unfolding u by (simp add: sizeof_HashEntry_def THREAD_MAP_SIZE_def)
  have d: "\<forall>i<THREAD_MAP_SIZE. node_base \<noteq> table_base + of_nat i * of_nat sizeof_HashEntry"
    by (intro allI impI far_from_table) simp_all
  show ?thesis unfolding threads_start_def Let_def e using n l d by blast
qed

lemma fresh_large_start: "large_start table_env blank_big"
proof -
  have e: "table_env (Real_malloc (of_nat (THREAD_MAP_SIZE * sizeof_HashEntry)) # big_calls blank_big) = of_nat (2 ^ 30)"
    by (simp add: table_env_def blank_big_def)
  have "unat (of_nat (2 ^ 30) :: addr) = 2 ^ 30" by (rule unat_of_nat_less) simp
  then have "(of_nat (2 ^ 30) :: addr) \<noteq> 0" "unat (of_nat (2 ^ 30) :: addr) + sizeof_HashEntry * THREAD_MAP_SIZE < 2 ^ 64"
    by (auto simp: sizeof_HashEntry_def THREAD_MAP_SIZE_def)
  then show ?thesis unfolding large_start_def Let_def e by blast
qed


end
