(* ===== verification/MainStack.thy ===== *)
theory MainStack
  imports LibFreeGuard
begin

text \<open>
  The switch of the main stack (\<open>freeguard_libc_start_main\<close> with \<open>CUSTOMIZED_MAIN_STACK\<close>).

  The used part of the stack, from \<open>rsp\<close> to one or two pages above the frame, is copied to the stack area, the pointers
  \<open>argv\<close>, \<open>argv[0] .. argv[argc - 1]\<close> and \<open>stack_end\<close> are moved by the same distance, and the old bytes
  are erased.  Memory is a map from addresses to bytes; the local variables, which move with the registers, are values.
  Lemmas: \<open>switch_copied\<close>, \<open>switch_arguments\<close>, \<open>switch_erased\<close>.
\<close>

section \<open>Memory\<close>

type_synonym memory = "addr \<Rightarrow> byte"

definition load64 :: "memory \<Rightarrow> addr \<Rightarrow> addr" where
  "load64 m a = foldr (\<lambda>i w. push_bit (8 * i) (ucast (m (a + of_nat i))) OR w) [0..<8] 0"

definition store64 :: "addr \<Rightarrow> addr \<Rightarrow> memory \<Rightarrow> memory" where
  "store64 a v m = (\<lambda>x. if unat (x - a) < 8 then ucast (drop_bit (8 * unat (x - a)) v) else m x)"

definition move_bytes :: "addr \<Rightarrow> addr \<Rightarrow> nat \<Rightarrow> memory \<Rightarrow> memory" where
  "move_bytes d s n m = (\<lambda>x. if unat (x - d) < n then m (s + (x - d)) else m x)"

definition fill_bytes :: "addr \<Rightarrow> byte \<Rightarrow> nat \<Rightarrow> memory \<Rightarrow> memory" where
  "fill_bytes d v n m = (\<lambda>x. if unat (x - d) < n then v else m x)"

section \<open>The switch\<close>

text \<open>The address of the parameter \<open>main_fn\<close>, rounded up to a page, and one page more (line 67).\<close>

definition stack_top :: "addr \<Rightarrow> addr" where
  "stack_top main_fn = ((main_fn + PageSize) AND NOT (PageSize - 1)) + PageSize"

definition new_stack_top :: "addr \<Rightarrow> addr" where
  "new_stack_top stackArea = stackArea + of_nat STACK_SIZE - PageSize"

definition redirect :: "addr \<Rightarrow> addr \<Rightarrow> addr \<Rightarrow> addr" where
  "redirect newStackTop stackTop p = newStackTop - (stackTop - p)"

text \<open>The loop over the arguments (lines 97-99), \<open>n\<close> of them from \<open>i\<close> on.\<close>

fun redirect_args :: "addr \<Rightarrow> addr \<Rightarrow> addr \<Rightarrow> nat \<Rightarrow> nat \<Rightarrow> memory \<Rightarrow> memory" where
  "redirect_args newStackTop stackTop argv i 0 m = m"
| "redirect_args newStackTop stackTop argv i (Suc n) m =
    (let slot = argv + of_nat (8 * i)
     in redirect_args newStackTop stackTop argv (Suc i) n (store64 slot (redirect newStackTop stackTop (load64 m slot)) m))"

record start_frame =
  frame_bp :: addr
  frame_sp :: addr
  frame_argv :: addr
  frame_stack_end :: addr

definition switch_main_stack :: "addr \<Rightarrow> addr \<Rightarrow> nat \<Rightarrow> start_frame \<times> memory \<Rightarrow> start_frame \<times> memory" where
  "switch_main_stack stackArea main_fn argc = (\<lambda>(f, m).
    let stackTop = stack_top main_fn;
        newStackTop = new_stack_top stackArea;
        ebpOffset = stackTop - frame_bp f;
        espOffset = stackTop - frame_sp f;
        customizedEbp = newStackTop - ebpOffset;
        customizedEsp = newStackTop - espOffset;
        m1 = move_bytes customizedEsp (frame_sp f) (unat espOffset) m;
        argv = redirect newStackTop stackTop (frame_argv f);
        m2 = redirect_args newStackTop stackTop argv 0 argc m1;
        stack_end = redirect newStackTop stackTop (frame_stack_end f);
        m3 = fill_bytes (frame_sp f) 0 (unat espOffset) m2
    in (\<lparr> frame_bp = customizedEbp, frame_sp = customizedEsp, frame_argv = argv, frame_stack_end = stack_end \<rparr>, m3))"

text \<open>The whole of \<open>freeguard_libc_start_main\<close> up to the call of the C library's function.\<close>

definition start_main ::
  "'r platform \<Rightarrow> build \<Rightarrow> addr \<Rightarrow> nat \<Rightarrow> start_frame \<times> memory \<Rightarrow> 'r process \<Rightarrow> fg_error + (start_frame \<times> memory) \<times> 'r process"
where
  "start_main pf c main_fn argc fm st =
    bindE (setup_stacks pf st) (\<lambda>st1.
      Inr (if CUSTOMIZED_MAIN_STACK c then switch_main_stack (globalStackAddr st1) main_fn argc fm else fm, st1))"

section \<open>Words in memory\<close>

lemma bit_load_fold:
  "bit (foldr (\<lambda>i w. push_bit (8 * i) (ucast (f i :: byte)) OR w) xs (0 :: addr)) n \<longleftrightarrow>
    n < 64 \<and> (\<exists>i\<in>set xs. 8 * i \<le> n \<and> bit (f i) (n - 8 * i))"
  by (induction xs) (auto simp: bit_or_iff bit_push_bit_iff bit_unsigned_iff)

lemma bit_load64: "bit (load64 m a) n \<longleftrightarrow> n < 64 \<and> bit (m (a + of_nat (n div 8))) (n mod 8)"
proof (cases "n < 64")
  case True
  have "(8 * i \<le> n \<and> bit (m (a + of_nat i)) (n - 8 * i)) \<longleftrightarrow> i = n div 8 \<and> bit (m (a + of_nat (n div 8))) (n mod 8)" for i
  proof
    assume b: "8 * i \<le> n \<and> bit (m (a + of_nat i)) (n - 8 * i)"
    then have "n - 8 * i < 8" using bit_imp_le_length [of "m (a + of_nat i)" "n - 8 * i"] by simp
    with conjunct1 [OF b] have i: "i = n div 8" and r: "n - 8 * i = n mod 8" by presburger+
    have "bit (m (a + of_nat i)) (n mod 8)" using b unfolding r by blast
    then show "i = n div 8 \<and> bit (m (a + of_nat (n div 8))) (n mod 8)" using i by blast
  qed (simp add: minus_mult_div_eq_mod)
  then show ?thesis unfolding load64_def bit_load_fold using True by auto
qed (simp add: load64_def bit_load_fold)

lemma load64_cong:
  assumes "\<And>j. j < 8 \<Longrightarrow> m (a + of_nat j) = m' (a' + of_nat j)"
  shows "load64 m a = load64 m' a'"
  by (rule bit_word_eqI) (simp add: bit_load64 assms)

lemma load_store: "load64 (store64 a v m) a = v"
proof (rule bit_word_eqI)
  fix n assume n: "n < LENGTH(64)"
  have u: "unat (of_nat (n div 8) :: addr) = n div 8" using n by (intro unat_of_nat_less) simp
  have "8 * (n div 8) + n mod 8 = n" "n div 8 < 8" using n by simp_all
  then show "bit (load64 (store64 a v m) a) n = bit v n"
    using n by (simp add: bit_load64 store64_def u bit_unsigned_iff bit_drop_bit_eq)
qed

lemma in_interval:
  assumes "unat (x :: addr) < 2 ^ 48" "unat p < 2 ^ 48" "n < 2 ^ 48"
  shows "unat (x - p) < n \<longleftrightarrow> unat p \<le> unat x \<and> unat x < unat p + n"
proof -
  have "unat (of_nat n :: addr) = n" using assms(3) by (intro unat_of_nat_less) simp
  then show ?thesis using word_interval [OF assms, of 0] by (simp add: word_less_nat_alt)
qed

lemma unat_plus: "unat p + n < 2 ^ 48 \<Longrightarrow> unat ((p :: addr) + of_nat n) = unat p + n"
  by (rule trans [OF unat_add_less]) (simp_all add: unat_of_nat_less)

lemma unat_minus: "n \<le> unat p \<Longrightarrow> unat ((p :: addr) - of_nat n) = unat p - n"
  using unat_lt64 [of p] by (subst unat_sub) (simp_all add: word_le_nat_alt unat_of_nat_less)

lemma store_other:
  assumes "unat x < 2 ^ 48" "unat p < 2 ^ 48" "unat x < unat p \<or> unat p + 8 \<le> unat x"
  shows "store64 p v m x = m x"
  using in_interval [OF assms(1,2), of 8] assms(3) by (auto simp: store64_def)

lemma bytes_simps:
  assumes "unat x < 2 ^ 48" "unat d < 2 ^ 48" "n < 2 ^ 48"
  shows "move_bytes d s n m x = (if unat d \<le> unat x \<and> unat x < unat d + n then m (s + (x - d)) else m x)"
    and "fill_bytes d v n m x = (if unat d \<le> unat x \<and> unat x < unat d + n then v else m x)"
  by (simp_all only: move_bytes_def fill_bytes_def in_interval [OF assms])

section \<open>What the switch does\<close>

lemma redirect_args_ok:
  assumes "unat argv + 8 * (i + n) < 2 ^ 48"
  shows "\<forall>x. unat x < 2 ^ 48 \<longrightarrow> unat x < unat argv + 8 * i \<or> unat argv + 8 * (i + n) \<le> unat x \<longrightarrow>
      redirect_args nt t argv i n m x = m x" (is ?other)
    and "\<forall>j. i \<le> j \<longrightarrow> j < i + n \<longrightarrow> load64 (redirect_args nt t argv i n m) (argv + of_nat (8 * j)) =
      redirect nt t (load64 m (argv + of_nat (8 * j)))" (is ?args)
proof -
  have "?other \<and> ?args" using assms
  proof (induction n arbitrary: i m)
    case (Suc n)
    let ?slot = "argv + of_nat (8 * i)"
    let ?m = "store64 ?slot (redirect nt t (load64 m ?slot)) m"
    have bound: "unat argv + 8 * (Suc i + n) < 2 ^ 48" using Suc.prems by simp
    note IH = Suc.IH [OF bound, of ?m]
    have run: "redirect_args nt t argv i (Suc n) m = redirect_args nt t argv (Suc i) n ?m" by (simp add: Let_def)
    have u: "unat (argv + of_nat e) = unat argv + e" if "e < 8 * (i + Suc n)" for e
      by (rule unat_plus) (use that Suc.prems in linarith)
    have us: "unat ?slot = unat argv + 8 * i" by (rule u) simp
    have "redirect_args nt t argv i (Suc n) m x = m x"
      if "unat x < 2 ^ 48" "unat x < unat argv + 8 * i \<or> unat argv + 8 * (i + Suc n) \<le> unat x" for x
    proof -
      have "unat x < unat argv + 8 * Suc i \<or> unat argv + 8 * (Suc i + n) \<le> unat x" using that(2) by auto
      then have "redirect_args nt t argv i (Suc n) m x = ?m x" unfolding run using IH that(1) by blast
      also have "\<dots> = m x" by (rule store_other) (use that us Suc.prems in auto)
      finally show ?thesis .
    qed
    moreover have "load64 (redirect_args nt t argv i (Suc n) m) (argv + of_nat (8 * j)) =
        redirect nt t (load64 m (argv + of_nat (8 * j)))" if j: "i \<le> j" "j < i + Suc n" for j
    proof (cases "j = i")
      case True
      have "load64 (redirect_args nt t argv i (Suc n) m) ?slot = load64 ?m ?slot"
      proof (rule load64_cong)
        fix e :: nat assume e: "e < 8"
        have "unat (?slot + of_nat e) = unat ?slot + e" by (rule unat_plus) (use us e Suc.prems in simp)
        then have "unat (?slot + of_nat e) < 2 ^ 48" "unat (?slot + of_nat e) < unat argv + 8 * Suc i"
          using us e Suc.prems by simp_all
        then show "redirect_args nt t argv i (Suc n) m (?slot + of_nat e) = ?m (?slot + of_nat e)"
          unfolding run using IH by blast
      qed
      then show ?thesis unfolding True load_store .
    next
      case False
      have "load64 ?m (argv + of_nat (8 * j)) = load64 m (argv + of_nat (8 * j))"
      proof (rule load64_cong)
        fix e :: nat assume e: "e < 8"
        have uj: "unat (argv + of_nat (8 * j)) = unat argv + 8 * j" by (rule u) (use j in simp)
        have "unat (argv + of_nat (8 * j) + of_nat e) = unat argv + 8 * j + e"
          unfolding uj [symmetric] by (rule unat_plus) (use uj e j Suc.prems in simp)
        moreover have "unat argv + 8 * j + e < 2 ^ 48" "unat argv + 8 * i < 2 ^ 48" "8 * i + 8 \<le> 8 * j"
          using e j False Suc.prems by simp_all
        ultimately show "?m (argv + of_nat (8 * j) + of_nat e) = m (argv + of_nat (8 * j) + of_nat e)"
          using us by (intro store_other) simp_all
      qed
      then show ?thesis unfolding run using IH j False by auto
    qed
    ultimately show ?case by blast
  qed simp
  then show ?other ?args by blast+
qed

text \<open>What the switch relies on: the mapping of the stack area lies below the initial stack, the copied part fits into
  the first stack, and the argument vector is in the copied part.\<close>

definition main_layout :: "addr \<Rightarrow> addr \<Rightarrow> nat \<Rightarrow> start_frame \<Rightarrow> bool" where
  "main_layout stackArea main_fn argc f \<longleftrightarrow>
    unat stackArea + STACK_SIZE \<le> unat (frame_sp f) \<and> unat (stack_top main_fn) < 2 ^ 47 \<and>
    unat (stack_top main_fn) \<le> unat (frame_sp f) + (STACK_SIZE - unat PageSize) \<and>
    unat (frame_sp f) \<le> unat (frame_argv f) \<and> unat (frame_argv f) + 8 * argc \<le> unat (stack_top main_fn)"

lemma unat_new_stack_top:
  assumes "unat stackArea + STACK_SIZE < 2 ^ 48"
  shows "unat (new_stack_top stackArea) = unat stackArea + STACK_SIZE - 4096"
  unfolding new_stack_top_def PageSize_def
  using unat_plus [OF assms] unat_minus [of 4096 "stackArea + of_nat STACK_SIZE"] by (simp add: STACK_SIZE_def)

lemma unat_redirect:
  assumes "unat p \<le> unat t" "unat t - unat p \<le> unat nt"
  shows "unat (redirect nt t p) = unat nt - (unat t - unat p)"
  unfolding redirect_def using assms by (simp add: unat_sub word_le_nat_alt)

lemma redirect_plus: "redirect nt t p + d = redirect nt t (p + d)"
  by (simp add: redirect_def)

lemma switch_ok:
  assumes lay: "main_layout stackArea main_fn argc f"
    and run: "switch_main_stack stackArea main_fn argc (f, m) = (f', m')"
  defines "A \<equiv> unat (frame_sp f)" and "T \<equiv> unat (stack_top main_fn)" and "NT \<equiv> unat (new_stack_top stackArea)"
    and "to \<equiv> redirect (new_stack_top stackArea) (stack_top main_fn)"
  shows "frame_argv f' = to (frame_argv f)" "frame_sp f' = to (frame_sp f)" "frame_bp f' = to (frame_bp f)"
    and "A \<le> unat p \<Longrightarrow> unat p \<le> T \<Longrightarrow> unat (to p) = NT - (T - unat p) \<and> unat stackArea \<le> unat (to p)"
    and "A \<le> unat p \<Longrightarrow> unat p < T \<Longrightarrow> m' p = 0"
    and "A \<le> unat p \<Longrightarrow> unat p < T \<Longrightarrow>
      unat p < unat (frame_argv f) \<or> unat (frame_argv f) + 8 * argc \<le> unat p \<Longrightarrow> m' (to p) = m p"
    and "i < argc \<Longrightarrow> load64 m' (frame_argv f' + of_nat (8 * i)) = to (load64 m (frame_argv f + of_nat (8 * i)))"
proof -
  let ?top = "stack_top main_fn" and ?nt = "new_stack_top stackArea" and ?sp = "frame_sp f" and ?av = "frame_argv f"
  have pg: "unat PageSize = 4096" by (simp add: PageSize_def)
  have L: "unat stackArea + STACK_SIZE \<le> A" "T < 2 ^ 47" "T \<le> A + (STACK_SIZE - 4096)" "A \<le> unat ?av"
    "unat ?av + 8 * argc \<le> T" using lay unfolding main_layout_def pg A_def T_def by blast+
  have AT: "A \<le> T" using L(4,5) by linarith
  have SS: "STACK_SIZE = 8388608" by (simp add: STACK_SIZE_def)
  have "unat stackArea + STACK_SIZE < 2 ^ 48" using L(1,2) AT by simp
  then have nt: "NT = unat stackArea + STACK_SIZE - 4096" unfolding NT_def by (rule unat_new_stack_top)
  have lt: "NT < A" "T - A \<le> NT" using L AT unfolding nt SS by linarith+
  have off: "unat (?top - ?sp) = T - A"
    unfolding T_def A_def by (rule unat_sub) (use AT in \<open>simp add: word_le_nat_alt A_def T_def\<close>)
  define len where "len = T - A"
  let ?m1 = "move_bytes (to ?sp) ?sp len m"
  let ?m2 = "redirect_args ?nt ?top (to ?av) 0 argc ?m1"
  have F: "f' = \<lparr> frame_bp = to (frame_bp f), frame_sp = to ?sp, frame_argv = to ?av, frame_stack_end = to (frame_stack_end f) \<rparr>"
    and m': "m' = fill_bytes ?sp 0 len ?m2"
    using run unfolding switch_main_stack_def prod.case Let_def off len_def [symmetric] to_def redirect_def by auto
  show "frame_argv f' = to ?av" "frame_sp f' = to ?sp" "frame_bp f' = to (frame_bp f)" by (simp_all add: F)
  show P: "unat (to p) = NT - (T - unat p) \<and> unat stackArea \<le> unat (to p)" if "A \<le> unat p" "unat p \<le> T" for p
  proof -
    have "unat (to p) = NT - (T - unat p)"
      unfolding to_def NT_def T_def by (rule unat_redirect) (use that lt in \<open>simp_all add: NT_def T_def\<close>)
    then show ?thesis using that L(3) unfolding nt SS by linarith
  qed
  have usp: "unat (to ?sp) = NT - len" using P [of ?sp] AT by (simp add: A_def len_def)
  have small: "A < 2 ^ 48" "len < 2 ^ 48" "NT < 2 ^ 48" using L(2) AT lt by (simp_all add: len_def)
  have sp48: "unat (to ?sp) < 2 ^ 48" "unat ?sp < 2 ^ 48" using usp small(1,3) by (simp_all add: A_def)
  show "m' p = 0" if "A \<le> unat p" "unat p < T" for p
  proof -
    have p: "unat p < 2 ^ 48" using that L(2) by simp
    show ?thesis unfolding m' bytes_simps(2) [OF p sp48(2) small(2)] using that AT by (simp add: len_def A_def)
  qed
  have copied: "?m1 (to p) = m p" and kept: "m' (to p) = ?m2 (to p)" and p48: "unat (to p) < 2 ^ 48"
    if p: "A \<le> unat p" "unat p < T" for p
  proof -
    have u: "unat (to p) = NT - (T - unat p)" using P p by simp
    then show u48: "unat (to p) < 2 ^ 48" using small(3) by simp
    have r: "NT - len \<le> unat (to p)" "unat (to p) < NT - len + len"
      unfolding u len_def using p AT lt by linarith+
    have "?sp + (to p - to ?sp) = p" by (simp add: to_def redirect_def)
    then show "?m1 (to p) = m p" unfolding bytes_simps(1) [OF u48 sp48(1) small(2)] usp using r by simp
    have "unat (to p) < A" using r lt unfolding len_def by linarith
    then show "m' (to p) = ?m2 (to p)" unfolding m' bytes_simps(2) [OF u48 sp48(2) small(2)] by (simp add: A_def)
  qed
  have av: "unat (to ?av) = NT - (T - unat ?av)" using P L(4,5) by simp
  have fits: "unat (to ?av) + 8 * (0 + argc) < 2 ^ 48" unfolding av using L(4,5) lt small(3) by simp
  note R = redirect_args_ok [OF fits, of ?nt ?top ?m1]
  show "m' (to p) = m p" if p: "A \<le> unat p" "unat p < T" "unat p < unat ?av \<or> unat ?av + 8 * argc \<le> unat p" for p
  proof -
    have u: "unat (to p) = NT - (T - unat p)" using P p by simp
    have "unat (to p) < unat (to ?av) + 8 * 0 \<or> unat (to ?av) + 8 * (0 + argc) \<le> unat (to p)"
      using p(3)
    proof
      assume "unat p < unat ?av"
      then have "NT - (T - unat p) < NT - (T - unat ?av)" using p(1) L(4,5) lt by linarith
      then show ?thesis unfolding u av by (simp only: mult_0_right add_0_right simp_thms)
    next
      assume "unat ?av + 8 * argc \<le> unat p"
      then have "NT - (T - unat ?av) + 8 * argc \<le> NT - (T - unat p)" using p(2) L(4,5) lt by linarith
      then show ?thesis unfolding u av by (simp only: add_0_left simp_thms)
    qed
    then have "?m2 (to p) = ?m1 (to p)" using R(1) p48 [OF p(1,2)] by blast
    then show ?thesis using copied [OF p(1,2)] kept [OF p(1,2)] by simp
  qed
  show "load64 m' (frame_argv f' + of_nat (8 * i)) = to (load64 m (?av + of_nat (8 * i)))" if i: "i < argc"
  proof -
    have byte: "to ?av + of_nat (8 * i) + of_nat e = to (?av + of_nat (8 * i + e)) \<and>
        A \<le> unat (?av + of_nat (8 * i + e)) \<and> unat (?av + of_nat (8 * i + e)) < T" if "e < 8" for e
    proof -
      have "unat (?av + of_nat (8 * i + e)) = unat ?av + (8 * i + e)"
        by (rule unat_plus) (use that i L(2,5) in simp)
      then show ?thesis using that i L(4,5) by (simp add: to_def redirect_plus add.assoc)
    qed
    have "load64 m' (to ?av + of_nat (8 * i)) = load64 ?m2 (to ?av + of_nat (8 * i))"
      by (rule load64_cong) (use byte kept in auto)
    also have "\<dots> = to (load64 ?m1 (to ?av + of_nat (8 * i)))" using R(2) i unfolding to_def by simp
    also have "load64 ?m1 (to ?av + of_nat (8 * i)) = load64 m (?av + of_nat (8 * i))"
      by (rule load64_cong) (use byte copied in \<open>auto simp: add.assoc\<close>)
    finally show ?thesis by (simp add: F)
  qed
qed

text \<open>At most two pages above the frame are copied.\<close>

lemma stack_top_bound:
  assumes "unat main_fn + 8192 < 2 ^ 64"
  shows "unat main_fn < unat (stack_top main_fn) \<and> unat (stack_top main_fn) \<le> unat main_fn + 8192"
proof -
  have m: "PageSize - 1 = (mask 12 :: addr)" by (simp add: PageSize_def mask_eq_exp_minus_1)
  let ?x = "(main_fn + PageSize) AND NOT (mask 12)"
  have "unat (main_fn + PageSize) = unat main_fn + 4096"
    using assms by (subst unat_add_less) (simp_all add: PageSize_def)
  then have x: "unat ?x = (unat main_fn + 4096) div 4096 * 4096" by (simp add: unat_and_not_mask)
  have "unat (stack_top main_fn) = unat ?x + 4096"
    unfolding stack_top_def m by (subst unat_add_less) (use x assms in \<open>simp_all add: PageSize_def\<close>)
  moreover have "(unat main_fn + 4096) mod 4096 < 4096" by simp
  ultimately show ?thesis using x div_mult_mod_eq [of "unat main_fn + 4096" 4096] by linarith
qed

text \<open>An argument whose string lies above the copied part is moved as well, to an address above the new stack.\<close>

lemma main_stack_long_argument:
  assumes "main_layout stackArea main_fn argc f" and "switch_main_stack stackArea main_fn argc (f, m) = (f', m')"
    and "i < argc" and "load64 m (frame_argv f + of_nat (8 * i)) = stack_top main_fn + d"
  shows "load64 m' (frame_argv f' + of_nat (8 * i)) = new_stack_top stackArea + d"
  unfolding switch_ok(7) [OF assms(1-3)] assms(4) by (simp add: redirect_def)

section \<open>The properties\<close>

text \<open>C29: after the switch of the main stack, every argument whose string was in the copied part is found through the new
  \<open>argv\<close>, byte for byte, on the new stack.\<close>
theorem main_stack_keeps_arguments:
  assumes "main_layout stackArea main_fn argc f" and "switch_main_stack stackArea main_fn argc (f, m) = (f', m')"
    and "i < argc" and "unat (frame_argv f) + 8 * argc \<le> unat (load64 m (frame_argv f + of_nat (8 * i)))"
    and "unat (load64 m (frame_argv f + of_nat (8 * i))) + j < unat (stack_top main_fn)"
  shows "m' (load64 m' (frame_argv f' + of_nat (8 * i)) + of_nat j) = m (load64 m (frame_argv f + of_nat (8 * i)) + of_nat j) \<and>
    unat stackArea \<le> unat (load64 m' (frame_argv f' + of_nat (8 * i)) + of_nat j) \<and>
    unat (load64 m' (frame_argv f' + of_nat (8 * i)) + of_nat j) < unat (new_stack_top stackArea)"
proof -
  note S = switch_ok [OF assms(1,2)] and L = assms(1) [unfolded main_layout_def]
  let ?p = "load64 m (frame_argv f + of_nat (8 * i))"
  have u: "unat (?p + of_nat j) = unat ?p + j" by (rule unat_plus) (use assms(5) L in simp)
  have r: "unat (frame_sp f) \<le> unat (?p + of_nat j)" "unat (?p + of_nat j) < unat (stack_top main_fn)"
    "unat (frame_argv f) + 8 * argc \<le> unat (?p + of_nat j)" unfolding u using assms(4,5) L by linarith+
  have SS: "unat (new_stack_top stackArea) = unat stackArea + STACK_SIZE - 4096"
    by (rule unat_new_stack_top) (use L r in simp)
  have "unat PageSize = 4096" by (simp add: PageSize_def)
  then have "unat (stack_top main_fn) - unat (?p + of_nat j) \<le> STACK_SIZE - 4096" using L r(1) by linarith
  then show ?thesis
    unfolding S(7) [OF assms(3)] redirect_plus using S(4) [OF r(1)] S(6) [OF r(1,2)] r SS by (auto simp: STACK_SIZE_def)
qed

text \<open>A stack that ends at \<open>2^40 + 8192\<close>, above a stack area at \<open>2^30\<close>: one argument and, two slots further, one string of
  the environment.\<close>

definition example_frame :: start_frame where
  "example_frame = \<lparr> frame_bp = 0xFFFFFFFFF0, frame_sp = 0xFFFFFFFF00, frame_argv = 0x10000000100, frame_stack_end = 0x100000000F8 \<rparr>"

definition example_memory :: memory where
  "example_memory = store64 0x10000000100 0x10000000400 (store64 0x10000000110 0x10000000800 (\<lambda>_. 65))"

lemma example_stack:
  "stack_top 0x10000000000 = 0x10000002000"
  "main_layout 0x40000000 0x10000000000 1 example_frame"
proof -
  show "stack_top 0x10000000000 = 0x10000002000" by (simp add: stack_top_def PageSize_def)
  then show "main_layout 0x40000000 0x10000000000 1 example_frame"
    by (simp add: main_layout_def example_frame_def STACK_SIZE_def PageSize_def)
qed

lemma example_memory:
  "load64 example_memory 0x10000000100 = 0x10000000400" "load64 example_memory 0x10000000110 = 0x10000000800"
  "example_memory 0x10000000400 = 65"
proof -
  show "load64 example_memory 0x10000000100 = 0x10000000400" unfolding example_memory_def by (rule load_store)
  have "load64 example_memory 0x10000000110 = load64 (store64 0x10000000110 0x10000000800 (\<lambda>_. 65)) 0x10000000110"
  proof (rule load64_cong)
    fix e :: nat assume e: "e < 8"
    have "unat ((0x10000000110 :: addr) + of_nat e) = 0x10000000110 + e" using unat_plus [of "0x10000000110" e] e by simp
    then show "example_memory (0x10000000110 + of_nat e) = store64 0x10000000110 0x10000000800 (\<lambda>_. 65) (0x10000000110 + of_nat e)"
      unfolding example_memory_def using e by (intro store_other) simp_all
  qed
  then show "load64 example_memory 0x10000000110 = 0x10000000800" unfolding load_store .
  show "example_memory 0x10000000400 = 65" by (simp add: example_memory_def store64_def)
qed

theorem main_stack_keeps_arguments_witness:
  "\<exists>f' m'. switch_main_stack 0x40000000 0x10000000000 1 (example_frame, example_memory) = (f', m') \<and>
    m' (load64 m' (frame_argv f')) = 65"
proof -
  obtain f' m' where run: "switch_main_stack 0x40000000 0x10000000000 1 (example_frame, example_memory) = (f', m')" by fastforce
  have a: "frame_argv example_frame = 0x10000000100" by (simp add: example_frame_def)
  have "m' (load64 m' (frame_argv f' + of_nat (8 * 0)) + of_nat 0) =
      example_memory (load64 example_memory (frame_argv example_frame + of_nat (8 * 0)) + of_nat 0)"
    by (rule conjunct1 [OF main_stack_keeps_arguments [OF example_stack(2) run]])
      (simp_all add: a example_memory example_stack(1))
  then show ?thesis using run by (simp add: a example_memory)
qed

text \<open>C30: the entries behind the arguments, where the C library looks for the environment, are copied unchanged and so
  point to the old stack, which is erased: every environment string that was in the copied part is lost.\<close>
theorem main_stack_loses_environment:
  assumes "main_layout stackArea main_fn argc f" and "switch_main_stack stackArea main_fn argc (f, m) = (f', m')"
    and "argc < i" and "unat (frame_argv f) + 8 * i + 8 \<le> unat (stack_top main_fn)"
    and "unat (frame_sp f) \<le> unat (load64 m (frame_argv f + of_nat (8 * i)))"
    and "unat (load64 m (frame_argv f + of_nat (8 * i))) + j < unat (stack_top main_fn)"
  shows "load64 m' (frame_argv f' + of_nat (8 * i)) = load64 m (frame_argv f + of_nat (8 * i)) \<and>
    m' (load64 m' (frame_argv f' + of_nat (8 * i)) + of_nat j) = 0"
proof -
  note S = switch_ok [OF assms(1,2)] and L = assms(1) [unfolded main_layout_def]
  let ?p = "load64 m (frame_argv f + of_nat (8 * i))"
  have same: "load64 m' (frame_argv f' + of_nat (8 * i)) = ?p"
  proof (rule load64_cong)
    fix e :: nat assume e: "e < 8"
    let ?q = "frame_argv f + of_nat (8 * i) + of_nat e"
    have "unat (frame_argv f + of_nat (8 * i + e)) = unat (frame_argv f) + (8 * i + e)"
      by (rule unat_plus) (use assms(4) L e in simp)
    then have u: "unat ?q = unat (frame_argv f) + (8 * i + e)" by (simp add: add.assoc)
    have "unat (frame_sp f) \<le> unat ?q" "unat ?q < unat (stack_top main_fn)" "unat (frame_argv f) + 8 * argc \<le> unat ?q"
      unfolding u using assms(3,4) e L by linarith+
    from S(6) [OF this(1,2) disjI2 [OF this(3)]] show "m' (frame_argv f' + of_nat (8 * i) + of_nat e) = m ?q"
      unfolding S(1) redirect_plus .
  qed
  have u: "unat (?p + of_nat j) = unat ?p + j" by (rule unat_plus) (use assms(6) L in simp)
  have "m' (?p + of_nat j) = 0" by (rule S(5)) (use u assms(5,6) in simp_all)
  then show ?thesis unfolding same by simp
qed

theorem main_stack_loses_environment_witness:
  "\<exists>f' m'. switch_main_stack 0x40000000 0x10000000000 1 (example_frame, example_memory) = (f', m') \<and>
    load64 m' (frame_argv f' + 16) = 0x10000000800 \<and> m' 0x10000000800 = 0"
proof -
  obtain f' m' where run: "switch_main_stack 0x40000000 0x10000000000 1 (example_frame, example_memory) = (f', m')" by fastforce
  have a: "frame_argv example_frame = 0x10000000100" "frame_sp example_frame = 0xFFFFFFFF00" by (simp_all add: example_frame_def)
  have "load64 m' (frame_argv f' + of_nat (8 * 2)) = load64 example_memory (frame_argv example_frame + of_nat (8 * 2)) \<and>
      m' (load64 m' (frame_argv f' + of_nat (8 * 2)) + of_nat 0) = 0"
    by (rule main_stack_loses_environment [OF example_stack(2) run]) (simp_all add: a example_memory example_stack(1))
  then show ?thesis using run by (auto simp: a example_memory)
qed

end
