(* ===== verification/Sse2Rng.thy ===== *)
theory Sse2Rng
  imports BibopHeap
begin

text \<open>
  \<open>rng/sse2rng.c\<close>: the generator of the default build, written with SSE2 intrinsics on four 32-bit lanes.

  The intrinsics are modelled as their documentation says; \<open>rand_sse\<close> stores all four lanes and
  \<open>BibopHeap::getRandomNumber\<close> uses the first.  The seed is thread-local: the state here is that of one thread.
  Lemmas: each lane is a linear congruential generator modulo \<open>2 ^ 32\<close> of its own (\<open>rand_sse_lanes\<close>), and the
  period of such a generator is \<open>2 ^ 32\<close> (\<open>lcg_full_period\<close>).
\<close>

section \<open>The intrinsics\<close>

record m128i =
  lane0 :: u32
  lane1 :: u32
  lane2 :: u32
  lane3 :: u32

definition lanes :: "u32 \<Rightarrow> u32 \<Rightarrow> u32 \<Rightarrow> u32 \<Rightarrow> m128i" where
  "lanes a b c d = \<lparr> lane0 = a, lane1 = b, lane2 = c, lane3 = d \<rparr>"

definition mm_set_epi32 :: "u32 \<Rightarrow> u32 \<Rightarrow> u32 \<Rightarrow> u32 \<Rightarrow> m128i" where
  "mm_set_epi32 e3 e2 e1 e0 = lanes e0 e1 e2 e3"

text \<open>\<open>_mm_shuffle_epi32 (x, _MM_SHUFFLE (2, 3, 0, 1))\<close>.\<close>

definition mm_shuffle_2301 :: "m128i \<Rightarrow> m128i" where
  "mm_shuffle_2301 x = lanes (lane1 x) (lane0 x) (lane3 x) (lane2 x)"

text \<open>The two 64-bit products of lanes 0 and lanes 2, low half first.\<close>

definition mm_mul_epu32 :: "m128i \<Rightarrow> m128i \<Rightarrow> m128i" where
  "mm_mul_epu32 x y =
    (let p = ucast (lane0 x) * ucast (lane0 y) :: 64 word; q = ucast (lane2 x) * ucast (lane2 y) :: 64 word
     in lanes (ucast p) (ucast (drop_bit 32 p)) (ucast q) (ucast (drop_bit 32 q)))"

definition lanewise :: "(u32 \<Rightarrow> u32 \<Rightarrow> u32) \<Rightarrow> m128i \<Rightarrow> m128i \<Rightarrow> m128i" where
  "lanewise f x y = lanes (f (lane0 x) (lane0 y)) (f (lane1 x) (lane1 y)) (f (lane2 x) (lane2 y)) (f (lane3 x) (lane3 y))"

definition mm_and_si128 :: "m128i \<Rightarrow> m128i \<Rightarrow> m128i" where "mm_and_si128 = lanewise (AND)"
definition mm_or_si128 :: "m128i \<Rightarrow> m128i \<Rightarrow> m128i" where "mm_or_si128 = lanewise (OR)"
definition mm_add_epi32 :: "m128i \<Rightarrow> m128i \<Rightarrow> m128i" where "mm_add_epi32 = lanewise (+)"

definition mm_srai_epi32 :: "m128i \<Rightarrow> nat \<Rightarrow> m128i" where
  "mm_srai_epi32 x n = lanes (signed_drop_bit n (lane0 x)) (signed_drop_bit n (lane1 x))
     (signed_drop_bit n (lane2 x)) (signed_drop_bit n (lane3 x))"

section \<open>The generator\<close>

definition srand_sse :: "u32 \<Rightarrow> m128i" where
  "srand_sse seed = mm_set_epi32 seed (seed + 1) seed (seed + 1)"

text \<open>The four numbers stored in \<open>result\<close> and the new seed.\<close>

definition rand_sse :: "m128i \<Rightarrow> m128i \<times> m128i" where
  "rand_sse cur_seed =
    (let adder = lanes 2531011 10395331 13737667 1;
         multiplier = lanes 214013 17405 214013 69069;
         mod_mask = lanes 0xFFFFFFFF 0 0xFFFFFFFF 0;
         sra_mask = lanes 0x00007FFF 0x00007FFF 0x00007FFF 0x00007FFF;
         cur_seed_split = mm_shuffle_2301 cur_seed;
         cur_seed1 = mm_mul_epu32 cur_seed multiplier;
         multiplier1 = mm_shuffle_2301 multiplier;
         cur_seed_split1 = mm_mul_epu32 cur_seed_split multiplier1;
         cur_seed2 = mm_and_si128 cur_seed1 mod_mask;
         cur_seed_split2 = mm_and_si128 cur_seed_split1 mod_mask;
         cur_seed_split3 = mm_shuffle_2301 cur_seed_split2;
         cur_seed3 = mm_or_si128 cur_seed2 cur_seed_split3;
         cur_seed4 = mm_add_epi32 cur_seed3 adder;
         sseresult = mm_srai_epi32 cur_seed4 16;
         sseresult1 = mm_and_si128 sseresult sra_mask
     in (sseresult1, cur_seed4))"

text \<open>\<open>getRandomNumber\<close> of a heap built with \<open>SSE2RNG\<close>, as the parameter of the heap operations.\<close>

definition sse_random :: "m128i \<Rightarrow> u32 \<times> m128i" where
  "sse_random seed = (let (randNum, seed1) = rand_sse seed in (lane0 randNum, seed1))"

section \<open>The lanes\<close>

definition lcg :: "u32 \<Rightarrow> u32 \<Rightarrow> u32 \<Rightarrow> u32" where
  "lcg a c x = a * x + c"

lemma low_product: "ucast (ucast x * ucast y :: 64 word) = x * y" for x y :: u32
proof -
  have "unat (ucast x * ucast y :: 64 word) = (unat x * unat y) mod 2 ^ 64"
    by (simp add: unat_word_ariths unsigned_ucast_eq take_bit_eq_mod mod_mult_eq)
  then have "unat (ucast (ucast x * ucast y :: 64 word) :: u32) = (unat x * unat y) mod 2 ^ 64 mod 2 ^ 32"
    by (simp add: unsigned_ucast_eq take_bit_eq_mod)
  also have "\<dots> = (unat x * unat y) mod 2 ^ 32" by (rule mod_mod_cancel) simp
  also have "\<dots> = unat (x * y)" by (simp add: unat_word_ariths)
  finally show ?thesis by (simp only: word_unat_eq_iff)
qed

lemma srai_masked: "signed_drop_bit 16 x AND 0x7FFF = drop_bit 16 x AND (0x7FFF :: u32)"
proof -
  have m: "(0x7FFF :: u32) = mask 15" by (simp add: mask_eq_exp_minus_1)
  show ?thesis unfolding m
    by (rule bit_word_eqI) (auto simp: bit_and_iff bit_signed_drop_bit_iff bit_drop_bit_eq bit_mask_iff)
qed

definition lcg_step :: "m128i \<Rightarrow> m128i" where
  "lcg_step s = lanes (lcg 214013 2531011 (lane0 s)) (lcg 17405 10395331 (lane1 s))
     (lcg 214013 13737667 (lane2 s)) (lcg 69069 1 (lane3 s))"

definition high_bits :: "u32 \<Rightarrow> u32" where
  "high_bits x = drop_bit 16 x AND 0x7FFF"

lemma rand_sse_eq:
  "rand_sse s = (lanes (high_bits (lane0 (lcg_step s))) (high_bits (lane1 (lcg_step s)))
     (high_bits (lane2 (lcg_step s))) (high_bits (lane3 (lcg_step s))), lcg_step s)"
proof -
  have m: "(0xFFFFFFFF :: u32) = - 1" by simp
  have e: "snd (rand_sse s) = lcg_step s"
    unfolding rand_sse_def Let_def snd_conv mm_add_epi32_def mm_or_si128_def mm_and_si128_def mm_mul_epu32_def
      mm_shuffle_2301_def lanewise_def lanes_def m128i.simps low_product m lcg_step_def lcg_def
    by (simp add: mult.commute)
  have "fst (rand_sse s) = mm_and_si128 (mm_srai_epi32 (snd (rand_sse s)) 16) (lanes 0x7FFF 0x7FFF 0x7FFF 0x7FFF)"
    by (simp add: rand_sse_def Let_def)
  also have "\<dots> = lanes (high_bits (lane0 (lcg_step s))) (high_bits (lane1 (lcg_step s)))
     (high_bits (lane2 (lcg_step s))) (high_bits (lane3 (lcg_step s)))"
    unfolding e mm_and_si128_def mm_srai_epi32_def lanewise_def high_bits_def lanes_def m128i.simps srai_masked ..
  finally show ?thesis using e by (metis prod.collapse)
qed

lemma high_bits_less: "unat (high_bits x) < 2 ^ 15"
proof -
  have m: "(0x7FFF :: u32) = mask 15" by (simp add: mask_eq_exp_minus_1)
  show ?thesis unfolding high_bits_def m unat_and_mask by simp
qed

section \<open>The period\<close>

text \<open>\<open>1 + a + ... + a ^ (k - 1)\<close>: for \<open>a\<close> congruent to 1 modulo 4 it has as many factors 2 as \<open>k\<close>.\<close>

definition geo :: "nat \<Rightarrow> nat \<Rightarrow> nat" where
  "geo a k = (\<Sum>i<k. a ^ i)"

lemma geo_simps [simp]: "geo a 0 = 0" "geo a (Suc k) = geo a k + a ^ k"
  by (simp_all add: geo_def)

lemma geo_add: "geo a (j + k) = geo a j + a ^ j * geo a k"
  by (induction k) (simp_all add: distrib_left power_add)

lemma geo_odd: "odd a \<Longrightarrow> odd (geo a k) \<longleftrightarrow> odd k"
  by (induction k) simp_all

lemma geo_factors:
  assumes a: "a mod 4 = 1"
  shows "2 ^ n dvd geo a k \<longleftrightarrow> 2 ^ n dvd k"
proof (induction n arbitrary: k)
  case (Suc n)
  have "odd a" using a by presburger
  show ?case
  proof (cases "even k")
    case False
    then have "odd (geo a k)" using geo_odd [OF \<open>odd a\<close>] by simp
    moreover have "even m" if "2 ^ Suc n dvd m" for m :: nat using that by (auto elim: dvdE)
    ultimately show ?thesis using False by blast
  next
    case True
    then obtain j where k: "k = j + j" by (metis evenE mult_2)
    have g: "geo a k = geo a j * (1 + a ^ j)" unfolding k geo_add by (simp add: algebra_simps)
    have "a ^ j mod 4 = 1" using power_mod [of a 4 j] unfolding a by simp
    then have "a ^ j = 4 * (a ^ j div 4) + 1" using mult_div_mod_eq [of 4 "a ^ j"] by simp
    then obtain q where "a ^ j = 4 * q + 1" by blast
    then have e: "1 + a ^ j = 2 * (2 * q + 1)" by simp
    have "2 ^ Suc n dvd geo a k \<longleftrightarrow> 2 * 2 ^ n dvd 2 * (geo a j * (2 * q + 1))" unfolding g e by (simp add: mult.left_commute)
    also have "\<dots> \<longleftrightarrow> 2 ^ n dvd geo a j * (2 * q + 1)" by (rule nat_mult_dvd_cancel1) simp
    also have "\<dots> \<longleftrightarrow> 2 ^ n dvd geo a j" by (rule coprime_dvd_mult_left_iff) simp
    also have "\<dots> \<longleftrightarrow> 2 ^ n dvd j" by (rule Suc.IH)
    also have "\<dots> \<longleftrightarrow> 2 ^ Suc n dvd k" unfolding k by (simp flip: mult_2)
    finally show ?thesis .
  qed
qed simp

lemma geo_power: "0 < a \<Longrightarrow> a ^ k = (a - 1) * geo a k + 1"
proof (induction k)
  case (Suc k)
  have "a ^ Suc k = (a - 1) * a ^ k + a ^ k" using Suc.prems by (simp add: diff_mult_distrib)
  then show ?case using Suc by (simp add: distrib_left)
qed simp

lemma geo_shift: "geo a (Suc k) = 1 + a * geo a k"
  using geo_add [of a 1 k] by simp

lemma lcg_iterate:
  "(lcg (of_nat a) (of_nat c) ^^ k) (of_nat x) = (of_nat (a ^ k * x + c * geo a k) :: u32)"
proof (induction k)
  case (Suc k)
  have "a ^ Suc k * x + c * geo a (Suc k) = a * (a ^ k * x + c * geo a k) + c"
    unfolding geo_shift by (simp add: algebra_simps)
  then show ?case using Suc.IH by (simp add: lcg_def del: geo_simps)
qed simp

lemma lcg_full_period:
  assumes a: "unat a mod 4 = 1" and c: "odd (unat c)"
  shows "(lcg a c ^^ k) x = x \<longleftrightarrow> 2 ^ 32 dvd k"
proof -
  let ?a = "unat a" and ?c = "unat c" and ?x = "unat x"
  have pos: "0 < ?a" using a by (cases "?a") simp_all
  have "(lcg a c ^^ k) x = of_nat (?a ^ k * ?x + ?c * geo ?a k)"
    using lcg_iterate [where a = ?a and c = ?c and k = k and x = ?x] by simp
  also have "?a ^ k * ?x + ?c * geo ?a k = ?x + geo ?a k * ((?a - 1) * ?x + ?c)"
    unfolding geo_power [OF pos] by (simp add: algebra_simps)
  finally have "(lcg a c ^^ k) x = x + of_nat (geo ?a k * ((?a - 1) * ?x + ?c))" by simp
  then have "(lcg a c ^^ k) x = x \<longleftrightarrow> (of_nat (geo ?a k * ((?a - 1) * ?x + ?c)) :: u32) = 0" by simp
  also have "\<dots> \<longleftrightarrow> 2 ^ 32 dvd geo ?a k * ((?a - 1) * ?x + ?c)" by (simp only: word_of_nat_eq_0_iff) simp
  also have "\<dots> \<longleftrightarrow> 2 ^ 32 dvd geo ?a k"
  proof (rule coprime_dvd_mult_left_iff)
    have "even (?a - 1)" using a by presburger
    then have "odd ((?a - 1) * ?x + ?c)" using c by simp
    then show "coprime (2 ^ 32) ((?a - 1) * ?x + ?c)" by (simp only: coprime_power_left_iff coprime_left_2_iff_odd simp_thms)
  qed
  also have "\<dots> \<longleftrightarrow> 2 ^ 32 dvd k" by (rule geo_factors [OF a])
  finally show ?thesis .
qed

lemma lcg_step_iterate:
  "(lcg_step ^^ k) s = lanes ((lcg 214013 2531011 ^^ k) (lane0 s)) ((lcg 17405 10395331 ^^ k) (lane1 s))
     ((lcg 214013 13737667 ^^ k) (lane2 s)) ((lcg 69069 1 ^^ k) (lane3 s))"
  by (induction k) (simp_all add: lcg_step_def lanes_def)

text \<open>So the states of one period are all \<open>2 ^ 32\<close> numbers, each once.\<close>

lemma lcg_orbit_inj:
  assumes "unat a mod 4 = 1" "odd (unat c)" "(lcg a c ^^ i) x = (lcg a c ^^ j) x" "i \<le> j" "j < 2 ^ 32"
  shows "i = j"
proof -
  have "(lcg a c ^^ (j - i)) ((lcg a c ^^ i) x) = (lcg a c ^^ (j - i + i)) x" by (simp only: funpow_add o_apply)
  also have "\<dots> = (lcg a c ^^ i) x" using assms(3,4) by simp
  finally have "2 ^ 32 dvd j - i" by (simp only: lcg_full_period [OF assms(1,2)])
  moreover have "j - i < 2 ^ 32" using assms(5) by simp
  ultimately show ?thesis using assms(4) nat_dvd_not_less [of "j - i" "2 ^ 32"] by (cases "i = j") auto
qed

lemma lcg_orbit:
  assumes "unat a mod 4 = 1" "odd (unat c)"
  shows "bij_betw (\<lambda>k. (lcg a c ^^ k) x) {..<2 ^ 32} UNIV"
proof -
  have i: "inj_on (\<lambda>k. (lcg a c ^^ k) x) {..<2 ^ 32}"
  proof (rule inj_onI)
    fix i j :: nat assume "i \<in> {..<2 ^ 32}" "j \<in> {..<2 ^ 32}" "(lcg a c ^^ i) x = (lcg a c ^^ j) x"
    then show "i = j" using lcg_orbit_inj [OF assms, of i x j] lcg_orbit_inj [OF assms, of j x i] by (cases "i \<le> j") simp_all
  qed
  then have "card ((\<lambda>k. (lcg a c ^^ k) x) ` {..<2 ^ 32}) = CARD(32 word)" by (simp add: card_image card_word)
  then have "(\<lambda>k. (lcg a c ^^ k) x) ` {..<2 ^ 32} = UNIV" by (intro card_subset_eq) simp_all
  with i show ?thesis by (simp add: bij_betw_def)
qed

end
