(* ===== verification/ArcUniform.thy ===== *)
theory ArcUniform
  imports FGPrelude
begin

text \<open>
  \<open>rng/arc4random_uniform.c\<close>: a number below a bound from a source of 32-bit numbers.

  \<open>arc4random\<close> is a parameter, a function from its state to a number and the next state.  The loop may run for
  ever when the source never yields a number of at least \<open>min\<close>; then the result is \<open>None\<close>.  Lemmas:
  when the loop ends (\<open>uniform_loop_first\<close>), and that each result comes from equally many accepted
  numbers (\<open>accepted_residues\<close>).
\<close>

definition uniform_min :: "u32 \<Rightarrow> u32" where
  "uniform_min upper_bound = (- upper_bound) mod upper_bound"

partial_function (option) uniform_loop :: "('g \<Rightarrow> u32 \<times> 'g) \<Rightarrow> u32 \<Rightarrow> 'g \<Rightarrow> (u32 \<times> 'g) option" where
  "uniform_loop gen m g = (let (r, g1) = gen g in if r \<ge> m then Some (r, g1) else uniform_loop gen m g1)"

definition arc4random_uniform :: "('g \<Rightarrow> u32 \<times> 'g) \<Rightarrow> u32 \<Rightarrow> 'g \<Rightarrow> (u32 \<times> 'g) option" where
  "arc4random_uniform gen upper_bound g =
    (if upper_bound < 2 then Some (0, g)
     else case uniform_loop gen (uniform_min upper_bound) g of
       None \<Rightarrow> None
     | Some (r, g1) \<Rightarrow> Some (r mod upper_bound, g1))"

section \<open>Termination\<close>

text \<open>The number that the source yields after \<open>n\<close> numbers have been drawn.\<close>

definition drawn :: "('g \<Rightarrow> u32 \<times> 'g) \<Rightarrow> nat \<Rightarrow> 'g \<Rightarrow> u32" where
  "drawn gen n g = fst (gen (((\<lambda>s. snd (gen s)) ^^ n) g))"

lemma drawn_simps:
  "drawn gen 0 g = fst (gen g)" "drawn gen (Suc n) g = drawn gen n (snd (gen g))"
  by (simp_all add: drawn_def funpow_Suc_right del: funpow.simps(2))

lemma uniform_loop_first:
  "m \<le> drawn gen n g \<Longrightarrow> \<forall>j<n. drawn gen j g < m \<Longrightarrow>
    uniform_loop gen m g = Some (drawn gen n g, ((\<lambda>s. snd (gen s)) ^^ Suc n) g)"
proof (induction n arbitrary: g)
  case 0
  then show ?case by (subst uniform_loop.simps) (simp add: drawn_simps split_beta)
next
  case (Suc n)
  have "drawn gen 0 g < m" using Suc.prems(2) by blast
  then have l: "\<not> m \<le> fst (gen g)" by (simp add: drawn_simps)
  have "\<forall>j<n. drawn gen j (snd (gen g)) < m"
    using Suc.prems(2) by (metis Suc_less_eq drawn_simps(2))
  then have "uniform_loop gen m (snd (gen g)) = Some (drawn gen n (snd (gen g)), ((\<lambda>s. snd (gen s)) ^^ Suc n) (snd (gen g)))"
    using Suc.IH Suc.prems(1) by (simp only: drawn_simps)
  then show ?case using l
    by (subst uniform_loop.simps) (simp add: drawn_simps split_beta funpow_Suc_right del: funpow.simps(2))
qed

lemma uniform_loop_result:
  assumes "uniform_loop gen m g = Some (r, g')"
  shows "m \<le> r \<and> (\<exists>n. r = drawn gen n g)"
proof -
  have "case (r, g') of (r, g') \<Rightarrow> m \<le> r \<and> (\<exists>n. r = drawn gen n g)"
  proof (rule uniform_loop.raw_induct [OF _ assms, where P = "\<lambda>gen m g (r, g'). m \<le> r \<and> (\<exists>n. r = drawn gen n g)"])
    fix loop gen m and g :: 'a and y
    assume IH: "\<And>gen m (g :: 'a) y. loop gen m g = Some y \<Longrightarrow> case y of (r, g') \<Rightarrow> m \<le> r \<and> (\<exists>n. r = drawn gen n g)"
      and e: "(let (r, g1) = gen g in if m \<le> r then Some (r, g1) else loop gen m g1) = Some y"
    show "case y of (r, g') \<Rightarrow> m \<le> r \<and> (\<exists>n. r = drawn gen n g)"
    proof (cases "m \<le> fst (gen g)")
      case True
      then have "y = gen g" using e by (simp add: split_beta)
      moreover have "\<exists>n. fst (gen g) = drawn gen n g" using drawn_simps(1) [of gen g, symmetric] by (rule exI)
      ultimately show ?thesis using True by (simp add: split_beta)
    next
      case False
      then have "loop gen m (snd (gen g)) = Some y" using e by (simp add: split_beta)
      from IH [OF this] show ?thesis using drawn_simps(2) [of gen _ g] by (auto simp: split_beta) metis
    qed
  qed
  then show ?thesis by simp
qed

lemma uniform_loop_returns: "uniform_loop gen m g \<noteq> None \<longleftrightarrow> (\<exists>n. m \<le> drawn gen n g)"
proof
  assume "\<exists>n. m \<le> drawn gen n g"
  then obtain n where n: "m \<le> drawn gen n g" "\<And>j. j < n \<Longrightarrow> \<not> m \<le> drawn gen j g"
    using exists_least_iff [of "\<lambda>n. m \<le> drawn gen n g"] by blast
  then have "\<forall>j<n. drawn gen j g < m" by (simp add: not_le)
  from uniform_loop_first [OF n(1) this] show "uniform_loop gen m g \<noteq> None" by simp
next
  assume "uniform_loop gen m g \<noteq> None"
  then obtain r g' where "uniform_loop gen m g = Some (r, g')" by (cases "uniform_loop gen m g") auto
  from uniform_loop_result [OF this] show "\<exists>n. m \<le> drawn gen n g" by blast
qed

section \<open>Uniformity\<close>

lemma uniform_min_nat:
  assumes "2 \<le> ub"
  shows "unat (uniform_min ub) = 2 ^ 32 mod unat ub"
proof -
  have u: "0 < unat ub" "unat ub < 2 ^ 32" using assms unsigned_less [of ub, where ?'a = nat] by (simp_all add: word_le_nat_alt)
  have "(of_nat (2 ^ 32 - unat ub) :: u32) = - ub" using u(2) by (simp add: of_nat_diff)
  moreover have "unat (of_nat (2 ^ 32 - unat ub) :: u32) = 2 ^ 32 - unat ub" using u by (intro unat_of_nat_less) simp
  ultimately have "unat (- ub) = 2 ^ 32 - unat ub" by simp
  then have "unat (uniform_min ub) = (2 ^ 32 - unat ub) mod unat ub" by (simp add: uniform_min_def unat_mod)
  also have "\<dots> = 2 ^ 32 mod unat ub" using u le_mod_geq [of "unat ub" "2 ^ 32"] by simp
  finally show ?thesis .
qed

lemma same_residue: "x mod u = y mod u \<Longrightarrow> x \<le> y \<Longrightarrow> y < x + u \<Longrightarrow> x = y" for x y u :: nat
  using mod_eq_dvd_iff_nat [of x y u] nat_dvd_not_less [of "y - x" u] by (cases "x = y") auto

text \<open>In \<open>q\<close> blocks of length \<open>u\<close> each residue occurs \<open>q\<close> times.\<close>

lemma residues_in_block:
  fixes u :: nat
  assumes "v < u"
  shows "card {r \<in> {s..<s + u}. r mod u = v} = (1 :: nat)"
proof -
  define r where "r = s + (v + (u - s mod u)) mod u"
  have u: "0 < u" using assms by simp
  have lt: "s mod u < u" using u by simp
  have "r mod u = (s mod u + (v + (u - s mod u))) mod u" unfolding r_def by (simp only: mod_add_right_eq mod_add_left_eq)
  also have "s mod u + (v + (u - s mod u)) = v + u" using lt by simp
  finally have "r mod u = v" using assms by simp
  moreover have "r \<in> {s..<s + u}" unfolding r_def using u by simp
  moreover have "r' = r" if "r' \<in> {s..<s + u}" "r' mod u = v" for r'
  proof -
    from \<open>r \<in> {s..<s + u}\<close> have r: "s \<le> r" "r < s + u" by auto
    from that have r': "s \<le> r'" "r' < s + u" "r' mod u = r mod u" using calculation(1) by auto
    show ?thesis using same_residue [of r' u r] same_residue [of r u r'] r r' by (cases "r' \<le> r") auto
  qed
  ultimately have "{r \<in> {s..<s + u}. r mod u = v} = {r}" by blast
  then show ?thesis by simp
qed

lemma residues_in_blocks:
  fixes u :: nat
  assumes "v < u"
  shows "card {r \<in> {s..<s + q * u}. r mod u = v} = (q :: nat)"
proof (induction q)
  case (Suc q)
  let ?A = "{r \<in> {s..<s + q * u}. r mod u = v}" and ?B = "{r \<in> {s + q * u..<s + q * u + u}. r mod u = v}"
  have "{r \<in> {s..<s + Suc q * u}. r mod u = v} = ?A \<union> ?B" by auto
  moreover have "card (?A \<union> ?B) = card ?A + card ?B" by (rule card_Un_disjoint) auto
  ultimately show ?case using Suc.IH residues_in_block [OF assms, of "s + q * u"] by simp
qed simp

text \<open>Each result comes from \<open>2 ^ 32 div upper_bound\<close> of the numbers that the loop accepts.\<close>

lemma accepted_residues:
  assumes ub: "2 \<le> ub" and v: "v < ub"
  shows "card {r. uniform_min ub \<le> r \<and> r mod ub = v} = 2 ^ 32 div unat ub"
proof -
  let ?m = "2 ^ 32 mod unat ub" and ?q = "2 ^ 32 div unat ub"
  let ?S = "{r. uniform_min ub \<le> r \<and> r mod ub = v}"
  let ?T = "{r \<in> {?m..<?m + ?q * unat ub}. r mod unat ub = unat v}"
  have top: "?m + ?q * unat ub = 2 ^ 32" by simp
  have "unat ` ?S = ?T"
  proof (intro set_eqI iffI)
    fix n assume "n \<in> unat ` ?S"
    then obtain r where "n = unat r" "uniform_min ub \<le> r" "r mod ub = v" by blast
    moreover have "unat r < 2 ^ 32" using unsigned_less [of r, where ?'a = nat] by simp
    ultimately show "n \<in> ?T" unfolding top using uniform_min_nat [OF ub]
      by (auto simp: word_le_nat_alt unat_mod)
  next
    fix n assume "n \<in> ?T"
    then have n: "?m \<le> n" "n < 2 ^ 32" "n mod unat ub = unat v" unfolding top by auto
    have "unat (of_nat n :: u32) = n" using n(2) by (intro unat_of_nat_less) simp
    moreover then have "(of_nat n :: u32) mod ub = v" using n(3) by (simp add: word_unat_eq_iff unat_mod)
    ultimately show "n \<in> unat ` ?S" using n(1) uniform_min_nat [OF ub]
      by (intro image_eqI [of _ _ "of_nat n"]) (auto simp: word_le_nat_alt)
  qed
  moreover have "card (unat ` ?S) = card ?S" by (rule card_image) (simp add: inj_on_def word_unat_eq_iff)
  moreover have "card ?T = ?q" using v by (intro residues_in_blocks) (simp add: word_less_nat_alt)
  ultimately show ?thesis by simp
qed

text \<open>More than half of all numbers are accepted.\<close>

lemma uniform_min_half: "2 \<le> ub \<Longrightarrow> unat (uniform_min ub) < 2 ^ 31"
proof -
  assume ub: "2 \<le> ub"
  let ?u = "unat ub"
  have u: "2 \<le> ?u" "?u < 2 ^ 32" using ub unsigned_less [of ub, where ?'a = nat] by (simp_all add: word_le_nat_alt)
  have "2 ^ 32 mod ?u < ?u" using u by simp
  moreover have "?u * 1 \<le> ?u * (2 ^ 32 div ?u)" using u by (intro mult_le_mono2) (simp add: div_greater_zero_iff Suc_le_eq)
  moreover have "?u * (2 ^ 32 div ?u) + 2 ^ 32 mod ?u = 2 ^ 32" by (rule mult_div_mod_eq)
  ultimately have "2 * (2 ^ 32 mod ?u) < (2::nat) ^ 32" by linarith
  then have "2 ^ 32 mod ?u < (2::nat) ^ 31" by simp
  then show ?thesis by (simp only: uniform_min_nat [OF ub])
qed

lemma uniform_below:
  assumes "arc4random_uniform gen ub g = Some (r, g')"
  shows "unat r < max 1 (unat ub)"
proof (cases "ub < 2")
  case False
  with assms obtain x g1 where "r = x mod ub" by (auto simp: arc4random_uniform_def split: option.splits)
  moreover have "0 < unat ub" using False by (simp add: word_less_nat_alt)
  ultimately show ?thesis by (simp add: unat_mod)
qed (use assms in \<open>simp add: arc4random_uniform_def\<close>)

end
