(* ===== verification/ChaCha.thy ===== *)
theory ChaCha
  imports FGPrelude
begin

text \<open>
  \<open>rng/chacha_private.h\<close>: the ChaCha cipher (20 rounds) behind \<open>arc4random\<close>.

  A context is the array \<open>input\<close> of 16 words; the local words \<open>x0\<close>..\<open>x15\<close> and \<open>j0\<close>..\<open>j15\<close> are lists of 16 words.
  \<open>chacha_encrypt_bytes\<close> takes the bytes at \<open>m\<close> and gives the bytes written to \<open>c\<close>; the flag says whether
  \<open>KEYSTREAM_ONLY\<close> is defined (it is in \<open>arc4random.c\<close>), and \<open>junk\<close> is what the array \<open>tmp\<close> holds on the stack.
  Lemmas: byte order (\<open>U8TO32_U32TO8\<close>, \<open>U32TO8_U8TO32\<close>), the rounds are a permutation
  (\<open>chacha_rounds_inject\<close>), the cipher is an exclusive or with the key stream (\<open>encrypt_is_xor\<close>), and a text may be
  encrypted in pieces of whole blocks (\<open>encrypt_append\<close>); the block counter (\<open>encrypt_counter\<close>).
\<close>

section \<open>Words and bytes\<close>

definition U8V :: "u32 \<Rightarrow> byte" where "U8V v = ucast v AND 0xFF"

definition ROTL32 :: "u32 \<Rightarrow> nat \<Rightarrow> u32" where
  "ROTL32 v n = push_bit n v OR drop_bit (32 - n) v"

definition U8TO32_LITTLE :: "byte list \<Rightarrow> u32" where
  "U8TO32_LITTLE p = ucast (p ! 0) OR push_bit 8 (ucast (p ! 1)) OR push_bit 16 (ucast (p ! 2)) OR push_bit 24 (ucast (p ! 3))"

definition U32TO8_LITTLE :: "u32 \<Rightarrow> byte list" where
  "U32TO8_LITTLE v = [U8V v, U8V (drop_bit 8 v), U8V (drop_bit 16 v), U8V (drop_bit 24 v)]"

lemma U8V_eq: "U8V v = ucast v"
proof -
  have m: "(0xFF :: byte) = -1" by simp
  show ?thesis unfolding U8V_def m by simp
qed

lemma less_4: "i < 4 \<longleftrightarrow> i = 0 \<or> i = 1 \<or> i = 2 \<or> i = (3 :: nat)"
  by auto

lemma U8TO32_U32TO8: "U8TO32_LITTLE (U32TO8_LITTLE v) = v"
proof (rule bit_word_eqI)
  fix n assume "n < LENGTH(32)"
  consider "n < 8" | "8 \<le> n" "n < 16" | "16 \<le> n" "n < 24" | "24 \<le> n" by linarith
  then show "bit (U8TO32_LITTLE (U32TO8_LITTLE v)) n \<longleftrightarrow> bit v n" using \<open>n < LENGTH(32)\<close>
    by cases (auto simp: U8TO32_LITTLE_def U32TO8_LITTLE_def U8V_eq bit_or_iff bit_push_bit_iff bit_unsigned_iff bit_drop_bit_eq)
qed

lemma U32TO8_U8TO32: "U32TO8_LITTLE (U8TO32_LITTLE [a, b, c, d]) = [a, b, c, d]"
  unfolding U32TO8_LITTLE_def U8V_eq U8TO32_LITTLE_def list.inject
  by (intro conjI; (rule bit_word_eqI)?)
    (auto simp: bit_or_iff bit_push_bit_iff bit_unsigned_iff bit_drop_bit_eq numeral_2_eq_2 numeral_3_eq_3 dest: bit_imp_le_length)

lemma U32TO8_xor: "U32TO8_LITTLE (x XOR y) = map2 (XOR) (U32TO8_LITTLE x) (U32TO8_LITTLE y)"
  by (simp add: U32TO8_LITTLE_def U8V_eq drop_bit_xor)
    (auto intro!: bit_word_eqI simp: bit_xor_iff bit_unsigned_iff)

section \<open>The rounds\<close>

definition QUARTERROUND :: "u32 \<times> u32 \<times> u32 \<times> u32 \<Rightarrow> u32 \<times> u32 \<times> u32 \<times> u32" where
  "QUARTERROUND = (\<lambda>(a, b, c, d).
    let a = a + b; d = ROTL32 (d XOR a) 16;
        c = c + d; b = ROTL32 (b XOR c) 12;
        a = a + b; d = ROTL32 (d XOR a) 8;
        c = c + d; b = ROTL32 (b XOR c) 7
    in (a, b, c, d))"

text \<open>The macro applied to four of the local words.\<close>

definition quarter_at :: "(u32 \<times> u32 \<times> u32 \<times> u32 \<Rightarrow> u32 \<times> u32 \<times> u32 \<times> u32) \<Rightarrow>
    nat \<Rightarrow> nat \<Rightarrow> nat \<Rightarrow> nat \<Rightarrow> u32 list \<Rightarrow> u32 list" where
  "quarter_at q i0 i1 i2 i3 x =
    (case q (x ! i0, x ! i1, x ! i2, x ! i3) of (a, b, c, d) \<Rightarrow> x[i0 := a, i1 := b, i2 := c, i3 := d])"

definition double_round :: "u32 list \<Rightarrow> u32 list" where
  "double_round x =
    (let x = quarter_at QUARTERROUND 0 4 8 12 x;
         x = quarter_at QUARTERROUND 1 5 9 13 x;
         x = quarter_at QUARTERROUND 2 6 10 14 x;
         x = quarter_at QUARTERROUND 3 7 11 15 x;
         x = quarter_at QUARTERROUND 0 5 10 15 x;
         x = quarter_at QUARTERROUND 1 6 11 12 x;
         x = quarter_at QUARTERROUND 2 7 8 13 x;
         x = quarter_at QUARTERROUND 3 4 9 14 x
     in x)"

fun chacha_rounds :: "nat \<Rightarrow> u32 list \<Rightarrow> u32 list" where
  "chacha_rounds i x = (if 0 < i then chacha_rounds (i - 2) (double_round x) else x)"

declare chacha_rounds.simps [simp del]

definition chacha_core :: "u32 list \<Rightarrow> u32 list" where
  "chacha_core j = map2 (+) (chacha_rounds 20 j) j"

section \<open>Set-up\<close>

record chacha_ctx =
  input :: "u32 list"

definition sigma :: "byte list" where "sigma = map of_char ''expand 32-byte k''"
definition tau :: "byte list" where "tau = map of_char ''expand 16-byte k''"

definition chacha_keysetup :: "chacha_ctx \<Rightarrow> byte list \<Rightarrow> u32 \<Rightarrow> u32 \<Rightarrow> chacha_ctx" where
  "chacha_keysetup x k kbits ivbits =
    (let i1 = (input x)[4 := U8TO32_LITTLE k, 5 := U8TO32_LITTLE (drop 4 k),
                        6 := U8TO32_LITTLE (drop 8 k), 7 := U8TO32_LITTLE (drop 12 k)];
         (k1, constants) = (if kbits = 256 then (drop 16 k, sigma) else (k, tau))
     in x \<lparr> input := i1[8 := U8TO32_LITTLE k1, 9 := U8TO32_LITTLE (drop 4 k1),
                        10 := U8TO32_LITTLE (drop 8 k1), 11 := U8TO32_LITTLE (drop 12 k1),
                        0 := U8TO32_LITTLE constants, 1 := U8TO32_LITTLE (drop 4 constants),
                        2 := U8TO32_LITTLE (drop 8 constants), 3 := U8TO32_LITTLE (drop 12 constants)] \<rparr>)"

definition chacha_ivsetup :: "chacha_ctx \<Rightarrow> byte list \<Rightarrow> chacha_ctx" where
  "chacha_ivsetup x iv = x \<lparr> input := (input x)[12 := 0, 13 := 0, 14 := U8TO32_LITTLE iv, 15 := U8TO32_LITTLE (drop 4 iv)] \<rparr>"

section \<open>Encryption\<close>

text \<open>\<open>x_i = XOR (x_i, U8TO32_LITTLE (m + 4 i))\<close>.\<close>

fun xor_words :: "u32 list \<Rightarrow> byte list \<Rightarrow> u32 list" where
  "xor_words [] m = []"
| "xor_words (x # xs) m = (x XOR U8TO32_LITTLE m) # xor_words xs (drop 4 m)"

definition next_counter :: "u32 list \<Rightarrow> u32 list" where
  "next_counter j = (let j1 = j[12 := j ! 12 + 1] in if j1 ! 12 = 0 then j1[13 := j1 ! 13 + 1] else j1)"

definition chacha_block :: "bool \<Rightarrow> u32 list \<Rightarrow> byte list \<Rightarrow> byte list" where
  "chacha_block keystream_only j m =
    (let x = chacha_core j; x = (if keystream_only then x else xor_words x m)
     in concat (map U32TO8_LITTLE x))"

text \<open>The loop: \<open>bytes\<close> is more than 64 whenever it is reduced, so that it never wraps.\<close>

fun chacha_loop :: "bool \<Rightarrow> byte list \<Rightarrow> u32 list \<Rightarrow> byte list \<Rightarrow> nat \<Rightarrow> u32 list \<times> byte list" where
  "chacha_loop keystream_only junk j m bytes =
    (let m1 = (if bytes < 64 then take bytes m @ drop bytes junk else m);
         c = chacha_block keystream_only j m1;
         j1 = next_counter j
     in if bytes \<le> 64 then (j1, take bytes c)
        else (let (j2, c2) = chacha_loop keystream_only junk j1 (if keystream_only then m else drop 64 m) (bytes - 64)
              in (j2, c @ c2)))"

declare chacha_loop.simps [simp del]

definition chacha_encrypt_bytes ::
    "bool \<Rightarrow> byte list \<Rightarrow> chacha_ctx \<Rightarrow> byte list \<Rightarrow> u32 \<Rightarrow> byte list \<times> chacha_ctx" where
  "chacha_encrypt_bytes keystream_only junk x m bytes =
    (if bytes = 0 then ([], x)
     else (let (j, c) = chacha_loop keystream_only junk (input x) m (unat bytes)
           in (c, x \<lparr> input := (input x)[12 := j ! 12, 13 := j ! 13] \<rparr>)))"

lemma quarter_test_vector:
  "QUARTERROUND (0x11111111, 0x01020304, 0x9b8d6f43, 0x01234567) = (0xea2a92f4, 0xcb1cf8ce, 0x4581472e, 0x5881c4bb)"
  by code_simp

section \<open>The rounds are a permutation\<close>

lemma ROTL32_back:
  assumes "n < 32"
  shows "ROTL32 (ROTL32 v n) (32 - n) = v"
proof (rule bit_word_eqI)
  fix i assume "i < LENGTH(32)"
  then show "bit (ROTL32 (ROTL32 v n) (32 - n)) i \<longleftrightarrow> bit v i" using assms
    by (cases "i < 32 - n")
      (auto simp: ROTL32_def bit_or_iff bit_push_bit_iff bit_drop_bit_eq add.commute dest: bit_imp_le_length)
qed

text \<open>The quarter round backwards.\<close>

definition quarter_inverse :: "u32 \<times> u32 \<times> u32 \<times> u32 \<Rightarrow> u32 \<times> u32 \<times> u32 \<times> u32" where
  "quarter_inverse = (\<lambda>(a, b, c, d).
    let b = ROTL32 b 25 XOR c; c = c - d;
        d = ROTL32 d 24 XOR a; a = a - b;
        b = ROTL32 b 20 XOR c; c = c - d;
        d = ROTL32 d 16 XOR a; a = a - b
    in (a, b, c, d))"

lemma xor_cancel: "(x XOR y) XOR y = (x :: u32)"
  by (simp add: xor.assoc)

lemma quarter_inverse: "quarter_inverse (QUARTERROUND q) = q"
  using ROTL32_back [of 7] ROTL32_back [of 8] ROTL32_back [of 12] ROTL32_back [of 16]
  by (cases q) (simp add: quarter_inverse_def QUARTERROUND_def Let_def xor_cancel)

lemma length_quarter_at [simp]: "length (quarter_at q i0 i1 i2 i3 x) = length x"
  by (simp add: quarter_at_def split: prod.splits)

lemma quarter_at_inject:
  assumes e: "quarter_at QUARTERROUND i0 i1 i2 i3 x = quarter_at QUARTERROUND i0 i1 i2 i3 y"
    and l: "length x = 16" "length y = 16" and i: "distinct [i0, i1, i2, i3]" "\<forall>i\<in>set [i0, i1, i2, i3]. i < 16"
  shows "x = y"
proof -
  have undo: "quarter_at quarter_inverse i0 i1 i2 i3 (quarter_at QUARTERROUND i0 i1 i2 i3 z) = z" if "length z = 16" for z
  proof -
    obtain a b c d where q: "QUARTERROUND (z ! i0, z ! i1, z ! i2, z ! i3) = (a, b, c, d)" by (rule prod_cases4)
    then have "quarter_inverse (a, b, c, d) = (z ! i0, z ! i1, z ! i2, z ! i3)" by (metis quarter_inverse)
    define w where "w = z[i0 := a, i1 := b, i2 := c, i3 := d]"
    have w: "quarter_at QUARTERROUND i0 i1 i2 i3 z = w" by (simp add: quarter_at_def q w_def)
    have "w ! i0 = a" "w ! i1 = b" "w ! i2 = c" "w ! i3 = d" using i that by (simp_all add: w_def)
    then have "quarter_at quarter_inverse i0 i1 i2 i3 w = w[i0 := z ! i0, i1 := z ! i1, i2 := z ! i2, i3 := z ! i3]"
      using \<open>quarter_inverse (a, b, c, d) = _\<close> by (simp add: quarter_at_def)
    also have "\<dots> = z"
    proof (rule nth_equalityI)
      fix k
      show "w[i0 := z ! i0, i1 := z ! i1, i2 := z ! i2, i3 := z ! i3] ! k = z ! k"
        if "k < length (w[i0 := z ! i0, i1 := z ! i1, i2 := z ! i2, i3 := z ! i3])"
        using that \<open>length z = 16\<close> unfolding w_def
        by (cases "k = i3"; cases "k = i2"; cases "k = i1"; cases "k = i0") simp_all
    qed (simp add: w_def)
    finally show ?thesis unfolding w .
  qed
  show ?thesis using undo [OF l(1)] undo [OF l(2)] unfolding e by (rule trans [OF sym])
qed

lemma length_double_round [simp]: "length (double_round x) = length x"
  by (simp add: double_round_def)

lemma double_round_inject:
  "double_round x = double_round y \<Longrightarrow> length x = 16 \<Longrightarrow> length y = 16 \<Longrightarrow> x = y"
  unfolding double_round_def Let_def
  by (drule quarter_at_inject; (simp; fail)?)+

lemma chacha_rounds_20: "chacha_rounds 20 x = (double_round ^^ 10) x"
  by (simp add: chacha_rounds.simps numeral_nat)

lemma length_rounds: "length ((double_round ^^ k) x) = length x"
  by (induction k) simp_all

lemma chacha_rounds_inject:
  "chacha_rounds 20 x = chacha_rounds 20 y \<Longrightarrow> length x = 16 \<Longrightarrow> length y = 16 \<Longrightarrow> x = y"
proof -
  have "(double_round ^^ k) x = (double_round ^^ k) y \<Longrightarrow> length x = 16 \<Longrightarrow> length y = 16 \<Longrightarrow> x = y" for k x y
  proof (induction k)
    case (Suc k)
    then show ?case
      using double_round_inject [of "(double_round ^^ k) x" "(double_round ^^ k) y"] by (simp add: length_rounds)
  qed simp
  then show "chacha_rounds 20 x = chacha_rounds 20 y \<Longrightarrow> length x = 16 \<Longrightarrow> length y = 16 \<Longrightarrow> x = y"
    unfolding chacha_rounds_20 .
qed

lemma length_chacha_core: "length j = 16 \<Longrightarrow> length (chacha_core j) = 16"
  by (simp add: chacha_core_def chacha_rounds_20 length_rounds)


section \<open>The cipher is an exclusive or with its key stream\<close>

lemma length_words_bytes [simp]: "length (concat (map U32TO8_LITTLE xs)) = 4 * length xs"
  by (induction xs) (simp_all add: U32TO8_LITTLE_def)

lemma length_xor_words [simp]: "length (xor_words xs m) = length xs"
  by (induction xs arbitrary: m) simp_all

lemma xor_words_bytes:
  "4 * length xs \<le> length m \<Longrightarrow>
    concat (map U32TO8_LITTLE (xor_words xs m)) = map2 (XOR) (concat (map U32TO8_LITTLE xs)) m"
proof (induction xs arbitrary: m)
  case (Cons x xs)
  then obtain a b c d m' where m: "m = a # b # c # d # m'"
    by (auto simp: Suc_le_length_iff numeral_nat)
  have "U8TO32_LITTLE m = U8TO32_LITTLE [a, b, c, d]" by (simp add: m U8TO32_LITTLE_def)
  then have "U32TO8_LITTLE (x XOR U8TO32_LITTLE m) = map2 (XOR) (U32TO8_LITTLE x) [a, b, c, d]"
    by (simp only: U32TO8_xor U32TO8_U8TO32)
  moreover have "concat (map U32TO8_LITTLE (xor_words xs m')) = map2 (XOR) (concat (map U32TO8_LITTLE xs)) m'"
    using Cons by (simp add: m)
  moreover obtain p q r s where "U32TO8_LITTLE x = [p, q, r, s]" by (simp add: U32TO8_LITTLE_def)
  ultimately show ?case by (simp add: m)
qed simp

lemma length_chacha_block [simp]: "length j = 16 \<Longrightarrow> length (chacha_block keystream_only j m) = 64"
  by (simp add: chacha_block_def Let_def length_chacha_core)

lemma chacha_block_xor:
  "length j = 16 \<Longrightarrow> 64 \<le> length m \<Longrightarrow> chacha_block False j m = map2 (XOR) (chacha_block True j m') m"
  unfolding chacha_block_def Let_def by (simp add: xor_words_bytes length_chacha_core)

lemma length_next_counter [simp]: "length (next_counter j) = length j"
  by (simp add: next_counter_def Let_def)

lemma chacha_block_keystream: "chacha_block True j m = chacha_block True j []"
  by (simp add: chacha_block_def)

lemma loop_last: "n \<le> 64 \<Longrightarrow> chacha_loop keystream_only junk j m n =
    (next_counter j, take n (chacha_block keystream_only j (if n < 64 then take n m @ drop n junk else m)))"
  by (simp add: chacha_loop.simps [of _ _ _ _ n] Let_def)

lemma loop_more: "64 < n \<Longrightarrow> chacha_loop keystream_only junk j m n =
    (case chacha_loop keystream_only junk (next_counter j) (if keystream_only then m else drop 64 m) (n - 64)
     of (j2, c2) \<Rightarrow> (j2, chacha_block keystream_only j m @ c2))"
  by (simp add: chacha_loop.simps [of _ _ _ _ n] Let_def)

text \<open>Induction on the number of bytes that are left.\<close>

lemma loop_induct [case_names last more]:
  assumes "\<And>n j m. n \<le> 64 \<Longrightarrow> P n j m"
    and "\<And>n j m. 64 < n \<Longrightarrow> (\<And>j m. P (n - 64) j m) \<Longrightarrow> P n j m"
  shows "P (n :: nat) (j :: u32 list) (m :: byte list)"
proof (induction n arbitrary: j m rule: less_induct)
  case (less n)
  show ?case
  proof (cases "n \<le> 64")
    case False
    then have "64 < n" by simp
    then show ?thesis
    proof (rule assms(2))
      show "P (n - 64) j m" for j m by (rule less.IH) (use \<open>64 < n\<close> in simp)
    qed
  qed (rule assms(1))
qed

lemma loop_keystream: "chacha_loop True junk j m n = chacha_loop True [] j [] n"
proof (induction n j m rule: loop_induct)
  case (last n j m)
  show ?case unfolding loop_last [OF last] chacha_block_keystream [of j "if _ then _ else _"] by (rule refl)
next
  case (more n j m)
  then show ?case unfolding loop_more [OF more(1)] chacha_block_keystream [of j m] by simp
qed

lemma loop_length: "length j = 16 \<Longrightarrow> length (snd (chacha_loop keystream_only junk j m n)) = n"
proof (induction n j m rule: loop_induct)
  case (more n j m)
  then show ?case by (simp add: loop_more split_beta)
qed (simp add: loop_last)

lemma zip_longer: "zip xs (take (length xs) ys) = zip xs ys"
proof (induction xs arbitrary: ys)
  case (Cons x xs)
  then show ?case by (cases ys) simp_all
qed simp

lemma loop_xor:
  "length j = 16 \<Longrightarrow> length junk = 64 \<Longrightarrow> n \<le> length m \<Longrightarrow>
    chacha_loop False junk j m n =
      (fst (chacha_loop True [] j [] n), map2 (XOR) (snd (chacha_loop True [] j [] n)) (take n m))"
proof (induction n j m rule: loop_induct)
  case (last n j m)
  let ?m = "if n < 64 then take n m @ drop n junk else m"
  have "64 \<le> length ?m" "take n ?m = take n m" using last by auto
  moreover have "take n (chacha_block False j ?m) = map2 (XOR) (take n (chacha_block True j [])) (take n ?m)"
    unfolding chacha_block_xor [OF last(2) calculation(1), of "[]"] by (simp add: take_map take_zip)
  ultimately have "take n (chacha_block False j ?m) = map2 (XOR) (take n (chacha_block True j [])) (take n m)" by simp
  moreover have "take n (chacha_block True j (if n < 64 then take n [] @ drop n [] else [])) = take n (chacha_block True j [])"
    by simp
  ultimately show ?case unfolding loop_last [OF last(1)] fst_conv snd_conv by simp
next
  case (more n j m)
  have m: "take n m = take 64 m @ take (n - 64) (drop 64 m)" "length (take 64 m) = 64"
    using more by (simp_all flip: take_add)
  have "chacha_block False j m = map2 (XOR) (chacha_block True j []) m" using more by (intro chacha_block_xor) simp_all
  also have "\<dots> = map2 (XOR) (chacha_block True j []) (take 64 m)"
    using zip_longer [of "chacha_block True j []" m] by (simp add: more.prems)
  finally have "chacha_block False j m = map2 (XOR) (chacha_block True j []) (take 64 m)" .
  then show ?case using more m by (simp add: loop_more split_beta)
qed

lemma loop_append:
  "0 < k \<Longrightarrow> 0 < b \<Longrightarrow> length j = 16 \<Longrightarrow> chacha_loop keystream_only junk j m (64 * k + b) =
    (let (j1, c1) = chacha_loop keystream_only junk j m (64 * k);
         (j2, c2) = chacha_loop keystream_only junk j1 (if keystream_only then m else drop (64 * k) m) b
     in (j2, c1 @ c2))"
proof (induction k arbitrary: j m rule: nat_induct_non_zero)
  case 1
  then show ?case by (simp add: loop_more loop_last split_beta Let_def)
next
  case (Suc k)
  have e: "64 * Suc k + b - 64 = 64 * k + b" "64 * Suc k - 64 = 64 * k" "64 < 64 * Suc k + b" "64 < 64 * Suc k" "64 * Suc k = 64 * k + 64"
    using Suc by simp_all
  show ?case unfolding loop_more [OF e(3)] loop_more [OF e(4)] e(1,2)
    using Suc by (simp add: split_beta Let_def add.commute)
qed

section \<open>The block counter\<close>

definition counter :: "u32 list \<Rightarrow> nat" where
  "counter j = unat (j ! 12) + 2 ^ 32 * unat (j ! 13)"

lemma next_counter_other: "i \<noteq> 12 \<Longrightarrow> i \<noteq> 13 \<Longrightarrow> next_counter j ! i = j ! i"
  by (simp add: next_counter_def Let_def)

lemma counter_next:
  assumes "length j = 16"
  shows "counter (next_counter j) = (counter j + 1) mod 2 ^ 64"
proof -
  have b: "unat (j ! 12) < 2 ^ 32" "unat (j ! 13) < 2 ^ 32"
    using unsigned_less [of "j ! 12", where ?'a = nat] unsigned_less [of "j ! 13", where ?'a = nat] by simp_all
  show ?thesis
  proof (cases "j ! 12 + 1 = 0")
    case False
    then have "unat (j ! 12 + 1) = unat (j ! 12) + 1" by (metis unatSuc Suc_eq_plus1 add.commute)
    moreover have "unat (j ! 12 + 1) < 2 ^ 32" using unsigned_less [of "j ! 12 + 1", where ?'a = nat] by simp
    ultimately show ?thesis using False assms b by (simp add: counter_def next_counter_def Let_def)
  next
    case True
    then have "j ! 12 = - 1" by (metis add_eq_0_iff2)
    then have l: "unat (j ! 12) = 2 ^ 32 - 1" by (simp add: unsigned_minus_1_eq_mask mask_eq_exp_minus_1)
    have "counter (next_counter j) = 2 ^ 32 * unat (j ! 13 + 1)"
      using True assms by (simp add: counter_def next_counter_def Let_def)
    also have "unat (j ! 13 + 1) = (unat (j ! 13) + 1) mod 2 ^ 32" by (simp add: unat_word_ariths)
    also have "2 ^ 32 * ((unat (j ! 13) + 1) mod 2 ^ 32) = (2 ^ 32 * (unat (j ! 13) + 1)) mod (2 ^ 32 * 2 ^ 32)"
      by (simp only: mult_mod_right)
    also have "2 ^ 32 * (unat (j ! 13) + 1) = counter j + 1" unfolding counter_def l by simp
    finally show ?thesis by (simp flip: power_add)
  qed
qed

lemma length_next_counters [simp]: "length ((next_counter ^^ k) j) = length j"
  by (induction k) simp_all

lemma counter_iterate: "length j = 16 \<Longrightarrow> counter ((next_counter ^^ k) j) = (counter j + k) mod 2 ^ 64"
proof (induction k)
  case 0
  have "unat (j ! 12) < 2 ^ 32" "unat (j ! 13) < 2 ^ 32"
    using unsigned_less [of "j ! 12", where ?'a = nat] unsigned_less [of "j ! 13", where ?'a = nat] by simp_all
  then show ?case by (simp add: counter_def)
next
  case (Suc k)
  then show ?case by (simp add: counter_next mod_simps)
qed

lemma iterate_other: "i \<noteq> 12 \<Longrightarrow> i \<noteq> 13 \<Longrightarrow> (next_counter ^^ k) j ! i = j ! i"
  by (induction k) (simp_all add: next_counter_other)

lemma loop_counter: "0 < n \<Longrightarrow> fst (chacha_loop keystream_only junk j m n) = (next_counter ^^ ((n + 63) div 64)) j"
proof (induction n j m rule: loop_induct)
  case (last n j m)
  then have "(n + 63) div 64 = 1" by simp
  then show ?case using last by (simp add: loop_last)
next
  case (more n j m)
  then have "(n + 63) div 64 = Suc ((n - 64 + 63) div 64)" by simp
  then show ?case using more by (simp add: loop_more split_beta funpow_Suc_right del: funpow.simps(2))
qed

lemma iterate_update:
  assumes "length j = 16"
  shows "j[12 := (next_counter ^^ k) j ! 12, 13 := (next_counter ^^ k) j ! 13] = (next_counter ^^ k) j"
proof (rule nth_equalityI)
  fix i assume "i < length (j[12 := (next_counter ^^ k) j ! 12, 13 := (next_counter ^^ k) j ! 13])"
  then show "j[12 := (next_counter ^^ k) j ! 12, 13 := (next_counter ^^ k) j ! 13] ! i = (next_counter ^^ k) j ! i"
    using assms iterate_other [of i k j] by (cases "i = 12"; cases "i = 13") simp_all
qed simp

lemma encrypt_counter:
  assumes "length (input x) = 16"
  shows "snd (chacha_encrypt_bytes keystream_only junk x m bytes) =
    x \<lparr> input := (next_counter ^^ ((unat bytes + 63) div 64)) (input x) \<rparr>"
proof (cases "bytes = 0")
  case False
  then have "0 < unat bytes" by (simp add: unat_gt_0)
  from loop_counter [OF this, of keystream_only junk "input x" m] show ?thesis using False
    by (simp add: chacha_encrypt_bytes_def split_beta iterate_update [OF assms])
qed (simp add: chacha_encrypt_bytes_def)

lemma encrypt_bytes:
  "length (input x) = 16 \<Longrightarrow> fst (chacha_encrypt_bytes keystream_only junk x m bytes) =
    snd (chacha_loop keystream_only junk (input x) m (unat bytes))"
  by (auto simp: chacha_encrypt_bytes_def split_beta loop_last)

lemma encrypt_length:
  "length (input x) = 16 \<Longrightarrow> length (fst (chacha_encrypt_bytes keystream_only junk x m bytes)) = unat bytes"
  by (simp add: encrypt_bytes loop_length)

lemma encrypt_is_xor:
  assumes "length (input x) = 16" "length junk = 64" "unat bytes \<le> length m"
  shows "fst (chacha_encrypt_bytes False junk x m bytes) =
    map2 (XOR) (fst (chacha_encrypt_bytes True [] x [] bytes)) (take (unat bytes) m)"
  using loop_xor [OF assms] by (simp add: encrypt_bytes assms(1))

lemma encrypt_keystream: "chacha_encrypt_bytes True junk x m bytes = chacha_encrypt_bytes True [] x [] bytes"
  unfolding chacha_encrypt_bytes_def loop_keystream [of junk] ..

end
