(* ===== verification/Arc4Random.thy ===== *)
theory Arc4Random
  imports ChaCha
begin

text \<open>
  \<open>rng/arc4random.c\<close> and \<open>rng/arc4random.h\<close>: the random number generator of the builds with \<open>ARC4RNG\<close>.

  The state of a thread is \<open>arc_state\<close>: the pointers \<open>rs\<close> and \<open>rsx\<close> with the objects they point to, the fork flag, and
  the process id that \<open>_rs_forkdetect\<close> keeps in a static variable.  The system calls are the parameter
  \<open>arc_env\<close>.  \<open>raise (SIGKILL)\<close> and \<open>abort ()\<close> are errors, and so is an access through a pointer that is not valid.
  The leading underscore of a C name is dropped.  The clearing of the local array \<open>rnd\<close> is not visible in the model.
\<close>

section \<open>State and system calls\<close>

datatype 'a ptr = Null | Map_failed | Obj 'a

fun deref :: "'a ptr \<Rightarrow> fg_error + 'a" where
  "deref Null = Inl (Fault 0)"
| "deref Map_failed = Inl (Fault (- 1))"
| "deref (Obj x) = Inr x"

record rs_struct =
  rs_have :: size_t
  rs_count :: size_t

record rsx_struct =
  rs_chacha :: chacha_ctx
  rs_buf :: "byte list"

record arc_state =
  rs :: "rs_struct ptr"
  rsx :: "rsx_struct ptr"
  rs_forked :: bool
  rs_pid :: u32

record 'e arc_env =
  sys_getrandom :: "size_t \<Rightarrow> 'e \<Rightarrow> (u32 \<times> byte list) \<times> 'e"
  sys_getpid :: "'e \<Rightarrow> u32 \<times> 'e"
  sys_mmap :: "size_t \<Rightarrow> 'e \<Rightarrow> bool \<times> 'e"
  sys_munmap :: "size_t \<Rightarrow> 'e \<Rightarrow> 'e"
  sys_atfork :: "'e \<Rightarrow> 'e"

abbreviation (input) KEYSZ :: nat where "KEYSZ \<equiv> 32"
abbreviation (input) IVSZ :: nat where "IVSZ \<equiv> 8"
abbreviation (input) BLOCKSZ :: nat where "BLOCKSZ \<equiv> 64"
abbreviation (input) RSBUFSZ :: nat where "RSBUFSZ \<equiv> 16 * BLOCKSZ"

text \<open>The state of a thread that has drawn no number.\<close>

definition arc_start :: arc_state where
  "arc_start = \<lparr> rs = Null, rsx = Null, rs_forked = False, rs_pid = 0 \<rparr>"

section \<open>Entropy, forks and memory\<close>

definition getentropy :: "'e arc_env \<Rightarrow> size_t \<Rightarrow> 'e \<Rightarrow> u32 \<times> byte list \<times> 'e" where
  "getentropy env buflen e =
    (if buflen > 256 then (- 1, [], e)
     else let ((ret, buf), e1) = sys_getrandom env buflen e
          in if ret <s 0 then (ret, buf, e1)
             else if scast ret = buflen then (0, buf, e1)
             else (- 1, buf, e1))"

definition rs_forkhandler :: "arc_state \<Rightarrow> arc_state" where
  "rs_forkhandler s = s \<lparr> rs_forked := True \<rparr>"

definition rs_forkdetect :: "'e arc_env \<Rightarrow> arc_state \<Rightarrow> 'e \<Rightarrow> fg_error + (arc_state \<times> 'e)" where
  "rs_forkdetect env s e =
    (let (pid, e1) = sys_getpid env e
     in if rs_pid s = 0 \<or> rs_pid s = 1 \<or> rs_pid s \<noteq> pid \<or> rs_forked s then
          let s1 = s \<lparr> rs_pid := pid, rs_forked := False \<rparr>
          in if rs s1 \<noteq> Null then
               bindE (deref (rs s1)) (\<lambda>r. Inr (s1 \<lparr> rs := Obj \<lparr> rs_have = 0, rs_count = 0 \<rparr> \<rparr>, e1))
             else Inr (s1, e1)
        else Inr (s, e1))"

text \<open>Anonymous memory is zero; the sizes are those of the two structures.\<close>

definition rs_allocate :: "'e arc_env \<Rightarrow> arc_state \<Rightarrow> 'e \<Rightarrow> u32 \<times> arc_state \<times> 'e" where
  "rs_allocate env s e =
    (let (ok, e1) = sys_mmap env 16 e
     in if \<not> ok then (- 1, s \<lparr> rs := Map_failed \<rparr>, e1)
        else let s1 = s \<lparr> rs := Obj \<lparr> rs_have = 0, rs_count = 0 \<rparr> \<rparr>;
                 (ok2, e2) = sys_mmap env 1088 e1
             in if \<not> ok2 then (- 1, s1 \<lparr> rsx := Map_failed, rs := Null \<rparr>, sys_munmap env 16 e2)
                else (0, s1 \<lparr> rsx := Obj \<lparr> rs_chacha = \<lparr> input = replicate 16 0 \<rparr>, rs_buf = replicate RSBUFSZ 0 \<rparr> \<rparr>,
                      sys_atfork env e2))"

section \<open>Seeding\<close>

definition rs_init :: "'e arc_env \<Rightarrow> byte list \<Rightarrow> nat \<Rightarrow> arc_state \<Rightarrow> 'e \<Rightarrow> fg_error + (arc_state \<times> 'e)" where
  "rs_init env buf n s e =
    (if n < KEYSZ + IVSZ then Inr (s, e)
     else bindE
       (if rs s = Null then
          let (ret, s1, e1) = rs_allocate env s e in if ret = - 1 then Inl Aborted else Inr (s1, e1)
        else Inr (s, e))
       (\<lambda>(s1, e1). bindE (deref (rsx s1)) (\<lambda>x.
          let c = chacha_keysetup (rs_chacha x) buf (of_nat (KEYSZ * 8)) 0;
              c = chacha_ivsetup c (drop KEYSZ buf)
          in Inr (s1 \<lparr> rsx := Obj (x \<lparr> rs_chacha := c \<rparr>) \<rparr>, e1))))"

text \<open>\<open>memset (buf + off, 0, n)\<close> and the loop that mixes in \<open>dat\<close>.\<close>

definition clear_bytes :: "nat \<Rightarrow> nat \<Rightarrow> byte list \<Rightarrow> byte list" where
  "clear_bytes off n buf = take off buf @ replicate n 0 @ drop (off + n) buf"

definition mix_in :: "byte list \<Rightarrow> nat \<Rightarrow> byte list \<Rightarrow> byte list" where
  "mix_in dat m buf = map (\<lambda>i. if i < m then buf ! i XOR dat ! i else buf ! i) [0..<length buf]"

definition rs_rekey :: "'e arc_env \<Rightarrow> byte list option \<Rightarrow> nat \<Rightarrow> arc_state \<Rightarrow> 'e \<Rightarrow> fg_error + (arc_state \<times> 'e)" where
  "rs_rekey env dat datlen s e =
    bindE (deref (rsx s)) (\<lambda>x.
      let (buf, c) = chacha_encrypt_bytes True [] (rs_chacha x) (rs_buf x) (of_nat RSBUFSZ);
          buf = (case dat of None \<Rightarrow> buf | Some d \<Rightarrow> mix_in d (min datlen (KEYSZ + IVSZ)) buf);
          s1 = s \<lparr> rsx := Obj \<lparr> rs_chacha = c, rs_buf = buf \<rparr> \<rparr>
      in bindE (rs_init env buf (KEYSZ + IVSZ) s1 e) (\<lambda>(s2, e2).
         bindE (deref (rsx s2)) (\<lambda>x2.
         bindE (deref (rs s2)) (\<lambda>r2.
           Inr (s2 \<lparr> rsx := Obj (x2 \<lparr> rs_buf := clear_bytes 0 (KEYSZ + IVSZ) (rs_buf x2) \<rparr>),
                     rs := Obj (r2 \<lparr> rs_have := of_nat (RSBUFSZ - KEYSZ - IVSZ) \<rparr>) \<rparr>, e2)))))"

definition rs_stir :: "'e arc_env \<Rightarrow> arc_state \<Rightarrow> 'e \<Rightarrow> fg_error + (arc_state \<times> 'e)" where
  "rs_stir env s e =
    (let (ret, rnd, e1) = getentropy env (of_nat (KEYSZ + IVSZ)) e
     in if ret = - 1 then Inl Killed
        else bindE (if rs s = Null then rs_init env rnd (KEYSZ + IVSZ) s e1
                    else rs_rekey env (Some rnd) (KEYSZ + IVSZ) s e1)
          (\<lambda>(s2, e2).
           bindE (deref (rs s2)) (\<lambda>r.
           bindE (deref (rsx s2)) (\<lambda>x.
             Inr (s2 \<lparr> rs := Obj (r \<lparr> rs_have := 0, rs_count := 1600000 \<rparr>),
                       rsx := Obj (x \<lparr> rs_buf := clear_bytes 0 RSBUFSZ (rs_buf x) \<rparr>) \<rparr>, e2)))))"

definition rs_stir_if_needed :: "'e arc_env \<Rightarrow> size_t \<Rightarrow> arc_state \<Rightarrow> 'e \<Rightarrow> fg_error + (arc_state \<times> 'e)" where
  "rs_stir_if_needed env n s e =
    bindE (rs_forkdetect env s e) (\<lambda>(s1, e1).
    bindE (if rs s1 = Null then rs_stir env s1 e1
           else bindE (deref (rs s1)) (\<lambda>r. if rs_count r \<le> n then rs_stir env s1 e1 else Inr (s1, e1)))
      (\<lambda>(s2, e2).
       bindE (deref (rs s2)) (\<lambda>r.
         Inr (s2 \<lparr> rs := Obj (r \<lparr> rs_count := (if rs_count r \<le> n then 0 else rs_count r - n) \<rparr>) \<rparr>, e2))))"

section \<open>Drawing bytes\<close>

text \<open>Copies the next \<open>m\<close> bytes of the key stream and clears them; \<open>rs_have\<close> counts them down.\<close>

definition draw_keystream :: "size_t \<Rightarrow> rs_struct \<Rightarrow> rsx_struct \<Rightarrow> arc_state \<Rightarrow> byte list \<times> arc_state" where
  "draw_keystream m r x s =
    (let keystream = unat (of_nat RSBUFSZ - rs_have r)
     in (take (unat m) (drop keystream (rs_buf x)),
         s \<lparr> rsx := Obj (x \<lparr> rs_buf := clear_bytes keystream (unat m) (rs_buf x) \<rparr>),
             rs := Obj (r \<lparr> rs_have := rs_have r - m \<rparr>) \<rparr>))"

text \<open>One turn of the loop of \<open>_rs_random_buf\<close>: the bytes, how many, and the state.\<close>

definition random_turn :: "'e arc_env \<Rightarrow> size_t \<Rightarrow> arc_state \<Rightarrow> 'e \<Rightarrow> fg_error + (byte list \<times> size_t \<times> arc_state \<times> 'e)" where
  "random_turn env n s e =
    bindE (deref (rs s)) (\<lambda>r.
    bindE (if rs_have r > 0 then
             bindE (deref (rsx s)) (\<lambda>x.
               let m = (if n < rs_have r then n else rs_have r); (out, s1) = draw_keystream m r x s in Inr (out, m, s1))
           else Inr ([], 0, s)) (\<lambda>(out, m, s1).
    bindE (deref (rs s1)) (\<lambda>r1.
    if rs_have r1 = 0 then bindE (rs_rekey env None 0 s1 e) (\<lambda>(s2, e2). Inr (out, m, s2, e2))
    else Inr (out, m, s1, e))))"

text \<open>The loop ends: a turn with bytes in the buffer reduces \<open>n\<close>, and one without them fills the buffer.\<close>

definition have_bytes :: "arc_state \<Rightarrow> size_t" where
  "have_bytes s = (case rs s of Obj r \<Rightarrow> rs_have r | _ \<Rightarrow> 0)"

lemma rs_rekey_have: "rs_rekey env dat datlen s e = Inr (s', e') \<Longrightarrow> have_bytes s' = 984"
  by (auto simp: rs_rekey_def Let_def bindE_Inr_iff have_bytes_def split_beta)

lemma random_turn_progress:
  assumes "random_turn env n s e = Inr (out, m, s1, e1)" and n: "n \<noteq> 0"
  shows "if have_bytes s = 0 then m = 0 \<and> have_bytes s1 \<noteq> 0 else 0 < m \<and> m \<le> n"
proof -
  obtain r where r: "rs s = Obj r" using assms(1) by (cases "rs s") (simp_all add: random_turn_def)
  show ?thesis
  proof (cases "rs_have r = 0")
    case True
    then have "rs_rekey env None 0 s e = Inr (s1, e1) \<and> m = 0"
      using assms(1) r by (auto simp: random_turn_def bindE_Inr_iff)
    then show ?thesis using True r rs_rekey_have [of env None 0 s e s1 e1] by (simp add: have_bytes_def)
  next
    case False
    then have "m = (if n < rs_have r then n else rs_have r)"
      using assms(1) r by (auto simp: random_turn_def bindE_Inr_iff word_gt_0 Let_def split_beta split: if_splits)
    then show ?thesis using False n r by (simp add: have_bytes_def word_gt_0 not_less)
  qed
qed

function random_loop :: "'e arc_env \<Rightarrow> size_t \<Rightarrow> arc_state \<Rightarrow> 'e \<Rightarrow> fg_error + (byte list \<times> arc_state \<times> 'e)" where
  "random_loop env n s e =
    (if n = 0 then Inr ([], s, e)
     else case random_turn env n s e of
       Inl err \<Rightarrow> Inl err
     | Inr (out, m, s1, e1) \<Rightarrow>
         (case random_loop env (n - m) s1 e1 of
            Inl err \<Rightarrow> Inl err
          | Inr (rest, s2, e2) \<Rightarrow> Inr (out @ rest, s2, e2)))"
  by pat_completeness auto

termination
proof (relation "measure (\<lambda>(env, n, s, e). 2 * unat n + (if have_bytes s = 0 then 1 else 0))")
  fix env :: "'e arc_env" and n s and e :: 'e and y p m out q s1 e1
  assume "n \<noteq> 0" "random_turn env n s e = Inr y" "(p, out) = y" "(m, q) = out" "(s1, e1) = q"
  then have t: "random_turn env n s e = Inr (p, m, s1, e1)" by auto
  show "((env, n - m, s1, e1), env, n, s, e) \<in> measure (\<lambda>(env, n, s, e). 2 * unat n + (if have_bytes s = 0 then 1 else 0))"
  proof (cases "have_bytes s = 0")
    case True
    then show ?thesis using random_turn_progress [OF t \<open>n \<noteq> 0\<close>] by simp
  next
    case False
    then have m: "0 < m" "m \<le> n" using random_turn_progress [OF t \<open>n \<noteq> 0\<close>] by simp_all
    then have "unat (n - m) < unat n" by (simp add: unat_sub word_le_nat_alt word_less_nat_alt)
    then show ?thesis using False by simp
  qed
qed simp

declare random_loop.simps [simp del]

definition rs_random_buf :: "'e arc_env \<Rightarrow> size_t \<Rightarrow> arc_state \<Rightarrow> 'e \<Rightarrow> fg_error + (byte list \<times> arc_state \<times> 'e)" where
  "rs_random_buf env n s e = bindE (rs_stir_if_needed env n s e) (\<lambda>(s1, e1). random_loop env n s1 e1)"

text \<open>The four bytes are read as a little-endian number.\<close>

definition rs_random_u32 :: "'e arc_env \<Rightarrow> arc_state \<Rightarrow> 'e \<Rightarrow> fg_error + (u32 \<times> arc_state \<times> 'e)" where
  "rs_random_u32 env s e =
    bindE (rs_stir_if_needed env 4 s e) (\<lambda>(s1, e1).
    bindE (deref (rs s1)) (\<lambda>r.
    bindE (if rs_have r < 4 then rs_rekey env None 0 s1 e1 else Inr (s1, e1)) (\<lambda>(s2, e2).
    bindE (deref (rs s2)) (\<lambda>r2.
    bindE (deref (rsx s2)) (\<lambda>x2.
      let (val, s3) = draw_keystream 4 r2 x2 s2 in Inr (U8TO32_LITTLE val, s3, e2))))))"

definition arc4random :: "'e arc_env \<Rightarrow> arc_state \<Rightarrow> 'e \<Rightarrow> fg_error + (u32 \<times> arc_state \<times> 'e)" where
  "arc4random env s e = rs_random_u32 env s e"

definition arc4random_buf :: "'e arc_env \<Rightarrow> size_t \<Rightarrow> arc_state \<Rightarrow> 'e \<Rightarrow> fg_error + (byte list \<times> arc_state \<times> 'e)" where
  "arc4random_buf env n s e = rs_random_buf env n s e"

end
