(* ===== verification/Arc4Stream.thy ===== *)
theory Arc4Stream
  imports Arc4Random "HOL-Library.Stream"
begin

text \<open>
  What \<open>arc4random\<close> promises: the bytes it hands out are those of one stream.

  \<open>arc_ok\<close> is the invariant of a thread's generator: both objects exist or neither does, at most 984 bytes of the
  buffer are unread, and all that were read are cleared.  \<open>future\<close> is the abstract state: the unread bytes followed by the key
  stream blocks of all later rekeys.  Lemmas: a rekey without data appends the next block (\<open>rekey_plain\<close>), a turn and the
  loop hand out a prefix of the future (\<open>random_turn_stream\<close>, \<open>random_loop_stream\<close>), every operation keeps the invariant
  (\<open>rekey_ok\<close>, \<open>stir_ok\<close>, \<open>stir_if_needed_ok\<close>), and the operations succeed when the system calls do.
\<close>

section \<open>The invariant\<close>

definition buf_shape :: "rs_struct \<Rightarrow> rsx_struct \<Rightarrow> bool" where
  "buf_shape r x \<longleftrightarrow> unat (rs_have r) \<le> 984 \<and> unat (rs_count r) \<le> 1600000 \<and>
     length (rs_buf x) = 1024 \<and> length (input (rs_chacha x)) = 16"

definition read_erased :: "rs_struct \<Rightarrow> rsx_struct \<Rightarrow> bool" where
  "read_erased r x \<longleftrightarrow> take (1024 - unat (rs_have r)) (rs_buf x) = replicate (1024 - unat (rs_have r)) 0"

definition buf_ok :: "rs_struct \<Rightarrow> rsx_struct \<Rightarrow> bool" where
  "buf_ok r x \<longleftrightarrow> buf_shape r x \<and> read_erased r x"

definition arc_live :: "arc_state \<Rightarrow> bool" where
  "arc_live s \<longleftrightarrow> (case rs s of Obj r \<Rightarrow> (case rsx s of Obj x \<Rightarrow> buf_ok r x | _ \<Rightarrow> False) | _ \<Rightarrow> False)"

definition arc_ok :: "arc_state \<Rightarrow> bool" where
  "arc_ok s \<longleftrightarrow> (rs s = Null \<and> rsx s = Null) \<or> arc_live s"

text \<open>Between the detection of a fork and the new seed nothing is known of the bytes in the buffer.\<close>

definition arc_shape :: "arc_state \<Rightarrow> bool" where
  "arc_shape s \<longleftrightarrow> (rs s = Null \<and> rsx s = Null) \<or> (\<exists>r x. rs s = Obj r \<and> rsx s = Obj x \<and> buf_shape r x)"

lemma arc_live_iff: "arc_live s \<longleftrightarrow> (\<exists>r x. rs s = Obj r \<and> rsx s = Obj x \<and> buf_ok r x)"
  by (auto simp: arc_live_def split: ptr.splits)

lemma arc_shapeE [consumes 1, case_names null live]:
  assumes "arc_shape s" and "rs s = Null \<Longrightarrow> rsx s = Null \<Longrightarrow> P"
    and "\<And>r x. rs s = Obj r \<Longrightarrow> rsx s = Obj x \<Longrightarrow> buf_shape r x \<Longrightarrow> P"
  shows P
  using assms by (auto simp: arc_shape_def)

lemma arc_ok_shape: "arc_ok s \<Longrightarrow> arc_shape s"
  by (auto simp: arc_ok_def arc_shape_def arc_live_iff buf_ok_def)

lemma buf_okD: "buf_ok r x \<Longrightarrow> buf_shape r x"
  by (simp add: buf_ok_def)

lemmas buf_defs = buf_ok_def buf_shape_def read_erased_def

section \<open>The stream\<close>

definition rekey_stream :: "chacha_ctx \<Rightarrow> byte list" where
  "rekey_stream c = fst (chacha_encrypt_bytes True [] c [] 1024)"

text \<open>The bytes of a rekey that are handed out, and the context it leaves.\<close>

definition rekey_block :: "chacha_ctx \<Rightarrow> byte list" where
  "rekey_block c = drop 40 (rekey_stream c)"

definition reinit :: "chacha_ctx \<Rightarrow> byte list \<Rightarrow> chacha_ctx" where
  "reinit c seed = chacha_ivsetup (chacha_keysetup c seed 256 0) (drop 32 seed)"

definition rekey_ctx :: "chacha_ctx \<Rightarrow> chacha_ctx" where
  "rekey_ctx c = reinit (snd (chacha_encrypt_bytes True [] c [] 1024)) (rekey_stream c)"

definition unread :: "rs_struct \<Rightarrow> rsx_struct \<Rightarrow> byte list" where
  "unread r x = drop (1024 - unat (rs_have r)) (rs_buf x)"

definition later :: "chacha_ctx \<Rightarrow> byte stream" where
  "later c = flat (smap rekey_block (siterate rekey_ctx c))"

definition future :: "arc_state \<Rightarrow> byte stream" where
  "future s = (case rs s of Obj r \<Rightarrow> (case rsx s of Obj x \<Rightarrow> unread r x @- later (rs_chacha x) | _ \<Rightarrow> later \<lparr> input = [] \<rparr>)
                          | _ \<Rightarrow> later \<lparr> input = [] \<rparr>)"

lemma length_reinit [simp]: "length (input (reinit c seed)) = length (input c)"
  by (simp add: reinit_def chacha_ivsetup_def chacha_keysetup_def)

lemma length_rekey_stream [simp]: "length (input c) = 16 \<Longrightarrow> length (rekey_stream c) = 1024"
  by (simp add: rekey_stream_def encrypt_length)

lemma length_rekey_block [simp]: "length (input c) = 16 \<Longrightarrow> length (rekey_block c) = 984"
  by (simp add: rekey_block_def)

lemma length_encrypted [simp]:
  "length (input c) = 16 \<Longrightarrow> length (input (snd (chacha_encrypt_bytes keystream_only junk c m n))) = 16"
  by (simp add: encrypt_counter)

lemma length_rekey_ctx [simp]: "length (input c) = 16 \<Longrightarrow> length (input (rekey_ctx c)) = 16"
  by (simp add: rekey_ctx_def)

lemma later_unfold: "length (input c) = 16 \<Longrightarrow> later c = rekey_block c @- later (rekey_ctx c)"
proof -
  assume "length (input c) = 16"
  then have "rekey_block c \<noteq> []" using length_rekey_block [of c] by force
  then show ?thesis by (simp add: later_def siterate.code [of rekey_ctx c] flat_Cons)
qed

lemma future_live: "rs s = Obj r \<Longrightarrow> rsx s = Obj x \<Longrightarrow> future s = unread r x @- later (rs_chacha x)"
  by (simp add: future_def)

section \<open>Rekeying\<close>

lemma length_mix_in [simp]: "length (mix_in d m buf) = length buf"
  by (simp add: mix_in_def)

lemma rekey_live:
  assumes "rs s = Obj r" "rsx s = Obj x"
  shows "rs_rekey env dat n s e =
    (let buf = (case dat of None \<Rightarrow> rekey_stream (rs_chacha x) | Some d \<Rightarrow> mix_in d (min n 40) (rekey_stream (rs_chacha x)))
     in Inr (s \<lparr> rsx := Obj \<lparr> rs_chacha = reinit (snd (chacha_encrypt_bytes True [] (rs_chacha x) [] 1024)) buf,
                             rs_buf = clear_bytes 0 40 buf \<rparr>,
                 rs := Obj (r \<lparr> rs_have := 984 \<rparr>) \<rparr>, e))"
  using encrypt_keystream [of "[]" "rs_chacha x" "rs_buf x" 1024] assms
  by (cases dat) (simp_all add: rs_rekey_def rs_init_def Let_def split_beta rekey_stream_def reinit_def)

lemma clear_bytes_prefix: "clear_bytes 0 n buf = replicate n 0 @ drop n buf"
  by (simp add: clear_bytes_def)

lemma rekey_ok:
  assumes "rs s = Obj r" "rsx s = Obj x" "buf_shape r x"
  shows "\<exists>s'. rs_rekey env dat n s e = Inr (s', e) \<and> arc_live s'"
  using assms by (auto simp: rekey_live Let_def arc_live_iff buf_defs clear_bytes_prefix split: option.splits)

text \<open>A rekey without data makes the next block of the stream available.\<close>

lemma rekey_plain:
  assumes "rs s = Obj r" "rsx s = Obj x" "buf_shape r x"
  shows "\<exists>s'. rs_rekey env None 0 s e = Inr (s', e) \<and> arc_live s' \<and> future s' = later (rs_chacha x) \<and> have_bytes s' = 984"
proof -
  have l: "length (input (rs_chacha x)) = 16" using assms(3) by (simp add: buf_shape_def)
  obtain s' where s': "rs_rekey env None 0 s e = Inr (s', e)" "arc_live s'"
    using rekey_ok [OF assms, where env = env and dat = None and n = 0 and e = e] by blast
  have "s' = s \<lparr> rsx := Obj \<lparr> rs_chacha = rekey_ctx (rs_chacha x), rs_buf = clear_bytes 0 40 (rekey_stream (rs_chacha x)) \<rparr>,
                 rs := Obj (r \<lparr> rs_have := 984 \<rparr>) \<rparr>"
    using s'(1) by (simp add: rekey_live [OF assms(1,2)] rekey_ctx_def Let_def)
  then have "future s' = later (rs_chacha x)"
    using later_unfold [OF l] l by (simp add: future_live unread_def clear_bytes_prefix rekey_block_def)
  then show ?thesis using s' rs_rekey_have [OF s'(1)] by blast
qed

section \<open>Drawing\<close>

lemma draw_keystream_stream:
  assumes "rs s = Obj r" "rsx s = Obj x" "buf_ok r x" "m \<le> rs_have r"
  shows "fst (draw_keystream m r x s) = stake (unat m) (future s) \<and> arc_live (snd (draw_keystream m r x s)) \<and>
    future (snd (draw_keystream m r x s)) = sdrop (unat m) (future s) \<and>
    have_bytes (snd (draw_keystream m r x s)) = rs_have r - m \<and> length (stake (unat m) (future s)) = unat m"
proof -
  have h: "unat (rs_have r) \<le> 984" "length (rs_buf x) = 1024" "unat m \<le> unat (rs_have r)"
    using assms by (simp_all add: buf_defs word_le_nat_alt)
  define k where "k = 1024 - unat (rs_have r)"
  have "unat (1024 - rs_have r) = k" using h by (simp add: unat_sub word_le_nat_alt k_def)
  then have d: "draw_keystream m r x s = (take (unat m) (drop k (rs_buf x)),
      s \<lparr> rsx := Obj (x \<lparr> rs_buf := clear_bytes k (unat m) (rs_buf x) \<rparr>), rs := Obj (r \<lparr> rs_have := rs_have r - m \<rparr>) \<rparr>)"
    by (simp add: draw_keystream_def)
  have k: "1024 - unat (rs_have r - m) = k + unat m" "unat (rs_have r - m) \<le> 984" "k + unat m \<le> 1024"
    using h by (simp_all add: unat_sub word_le_nat_alt k_def)
  have u: "unread r x = drop k (rs_buf x)" "unat m \<le> length (unread r x)" using h by (simp_all add: unread_def k_def)
  have t: "take k (rs_buf x) = replicate k 0" using assms(3) by (simp add: buf_defs k_def)
  have kb: "k \<le> length (rs_buf x)" using h by (simp add: k_def)
  have z: "take (k + unat m) (clear_bytes k (unat m) (rs_buf x)) = replicate (k + unat m) 0"
    "drop (k + unat m) (clear_bytes k (unat m) (rs_buf x)) = drop (unat m) (unread r x)"
    "length (clear_bytes k (unat m) (rs_buf x)) = 1024"
    using kb k(3) h(2) by (simp_all add: clear_bytes_def u t add.commute flip: replicate_add)
  have "arc_live (snd (draw_keystream m r x s))" using assms(3) k z by (simp add: d arc_live_iff buf_defs)
  moreover have "future (snd (draw_keystream m r x s)) = drop (unat m) (unread r x) @- later (rs_chacha x)"
    by (simp add: d future_live unread_def [of "_ \<lparr> rs_have := _ \<rparr>"] k z)
  ultimately show ?thesis using u by (simp add: future_live [OF assms(1,2)] stake_shift sdrop_shift d have_bytes_def)
qed

text \<open>A turn of the loop, and the loop.\<close>

lemma random_turn_stream:
  assumes "arc_live s" "n \<noteq> 0"
  shows "\<exists>m s1. random_turn env n s e = Inr (stake (unat m) (future s), m, s1, e) \<and> m \<le> n \<and> arc_live s1 \<and>
    future s1 = sdrop (unat m) (future s)"
proof -
  obtain r x where s: "rs s = Obj r" "rsx s = Obj x" "buf_ok r x" using assms by (auto simp: arc_live_iff)
  define m where "m = (if rs_have r = 0 then 0 else if n < rs_have r then n else rs_have r)"
  have m: "m \<le> rs_have r" "m \<le> n" by (auto simp: m_def)
  define s1 where "s1 = (if rs_have r = 0 then s else snd (draw_keystream m r x s))"
  note d = draw_keystream_stream [OF s m(1)]
  have s1: "arc_live s1" "future s1 = sdrop (unat m) (future s)"
    using d assms(1) by (auto simp: s1_def m_def)
  then obtain r1 x1 where o: "rs s1 = Obj r1" "rsx s1 = Obj x1" "buf_ok r1 x1" by (auto simp: arc_live_iff)
  have t: "random_turn env n s e = (if rs_have r1 = 0 then bindE (rs_rekey env None 0 s1 e) (\<lambda>(s2, e2). Inr (stake (unat m) (future s), m, s2, e2))
      else Inr (stake (unat m) (future s), m, s1, e))"
  proof (cases "rs_have r = 0")
    case True
    then show ?thesis using s(1) o(1) by (simp add: random_turn_def s1_def m_def)
  next
    case False
    then have "(if n < rs_have r then n else rs_have r) = m" by (simp add: m_def)
    then show ?thesis using False s(1,2) o(1) d
      by (simp add: random_turn_def s1_def word_gt_0 Let_def split_beta)
  qed
  show ?thesis
  proof (cases "rs_have r1 = 0")
    case False
    then show ?thesis using t s1 m by auto
  next
    case True
    obtain s2 where "rs_rekey env None 0 s1 e = Inr (s2, e)" "arc_live s2" "future s2 = later (rs_chacha x1)"
      using rekey_plain [OF o(1,2) buf_okD [OF o(3)], where env = env and e = e] by blast
    moreover have "future s1 = later (rs_chacha x1)" using o True by (simp add: future_live unread_def buf_defs)
    ultimately show ?thesis using t True s1 m by auto
  qed
qed

lemma random_loop_stream:
  "arc_live s \<Longrightarrow> \<exists>s'. random_loop env n s e = Inr (stake (unat n) (future s), s', e) \<and> arc_live s' \<and>
    future s' = sdrop (unat n) (future s)"
proof (induction env n s e rule: random_loop.induct)
  case (1 env n s e)
  show ?case
  proof (cases "n = 0")
    case True
    then show ?thesis using 1 by (simp add: random_loop.simps [of env 0 s e])
  next
    case False
    from random_turn_stream [OF "1.prems" False, of env e] obtain m s1 where
      t: "random_turn env n s e = Inr (stake (unat m) (future s), m, s1, e)" "m \<le> n" "arc_live s1"
        "future s1 = sdrop (unat m) (future s)" by blast
    from "1.IH" [OF False t(1) refl refl refl t(3)] obtain s' where
      s': "random_loop env (n - m) s1 e = Inr (stake (unat (n - m)) (future s1), s', e)" "arc_live s'"
        "future s' = sdrop (unat (n - m)) (future s1)" by blast
    have n: "unat n = unat m + unat (n - m)" using t(2) by (simp add: unat_sub word_le_nat_alt)
    have "random_loop env n s e = Inr (stake (unat n) (future s), s', e)"
      using False t(1) s'(1) by (simp add: random_loop.simps [of env n] t(4) n stake_add)
    moreover have "future s' = sdrop (unat n) (future s)" by (simp add: s'(3) t(4) n sdrop_add)
    ultimately show ?thesis using s'(2) by blast
  qed
qed

section \<open>Seeding\<close>

definition mmap_serves :: "'e arc_env \<Rightarrow> bool" where
  "mmap_serves env \<longleftrightarrow> (\<forall>n e. fst (sys_mmap env n e))"

definition entropy_serves :: "'e arc_env \<Rightarrow> bool" where
  "entropy_serves env \<longleftrightarrow> (\<forall>e. fst (fst (sys_getrandom env 40 e)) = 40)"

lemma getentropy_serves: "entropy_serves env \<Longrightarrow> fst (getentropy env 40 e) = 0"
  by (simp add: getentropy_def entropy_serves_def split_beta Let_def word_sless_alt)

lemma init_ok:
  "rs s = Null \<Longrightarrow> case rs_init env buf 40 s e of
     Inl err \<Rightarrow> err = Aborted \<and> \<not> mmap_serves env
   | Inr (s', e') \<Rightarrow> arc_live s'"
  by (auto simp: rs_init_def rs_allocate_def Let_def split_beta mmap_serves_def arc_live_iff buf_defs
      chacha_ivsetup_def chacha_keysetup_def)

lemma stir_ok:
  assumes "arc_shape s"
  shows "case rs_stir env s e of
     Inl err \<Rightarrow> (err = Killed \<and> fst (getentropy env 40 e) = - 1) \<or> (err = Aborted \<and> \<not> mmap_serves env)
   | Inr (s', e') \<Rightarrow> fst (getentropy env 40 e) \<noteq> - 1 \<and> arc_live s' \<and> have_bytes s' = 0"
proof -
  obtain ret rnd e1 where g: "getentropy env 40 e = (ret, rnd, e1)" by (rule prod_cases3)
  define seeded where "seeded = (if rs s = Null then rs_init env rnd 40 s e1 else rs_rekey env (Some rnd) 40 s e1)"
  have "case seeded of Inl err \<Rightarrow> err = Aborted \<and> \<not> mmap_serves env | Inr (s', e') \<Rightarrow> arc_live s'"
    using assms
  proof (cases rule: arc_shapeE)
    case null
    then show ?thesis using init_ok [OF null(1), of env rnd e1] by (simp add: seeded_def)
  next
    case (live r x)
    then show ?thesis using rekey_ok [OF live, where env = env and dat = "Some rnd" and n = 40 and e = e1] by (auto simp: seeded_def)
  qed
  moreover have "rs_stir env s e = (if ret = - 1 then Inl Killed else bindE seeded (\<lambda>(s2, e2).
           bindE (deref (rs s2)) (\<lambda>r. bindE (deref (rsx s2)) (\<lambda>x.
             Inr (s2 \<lparr> rs := Obj (r \<lparr> rs_have := 0, rs_count := 1600000 \<rparr>),
                       rsx := Obj (x \<lparr> rs_buf := clear_bytes 0 1024 (rs_buf x) \<rparr>) \<rparr>, e2)))))"
    by (simp add: rs_stir_def g seeded_def)
  ultimately show ?thesis
    by (auto simp: g arc_live_iff buf_defs clear_bytes_prefix have_bytes_def split: sum.splits)
qed

text \<open>When a request of \<open>n\<close> bytes reseeds: never seeded, after a fork, or with too few bytes left of the 1600000.\<close>

definition reseed_due :: "'e arc_env \<Rightarrow> size_t \<Rightarrow> arc_state \<Rightarrow> 'e \<Rightarrow> bool" where
  "reseed_due env n s e \<longleftrightarrow>
    rs_pid s = 0 \<or> rs_pid s = 1 \<or> rs_pid s \<noteq> fst (sys_getpid env e) \<or> rs_forked s \<or>
    (case rs s of Obj r \<Rightarrow> rs_count r \<le> n | _ \<Rightarrow> True)"

lemma stir_if_needed_keep:
  assumes "arc_live s" "\<not> reseed_due env n s e"
  shows "\<exists>s'. rs_stir_if_needed env n s e = Inr (s', snd (sys_getpid env e)) \<and> arc_live s' \<and> future s' = future s \<and>
    have_bytes s' = have_bytes s \<and> rsx s' = rsx s"
proof -
  obtain r x where s: "rs s = Obj r" "rsx s = Obj x" "buf_ok r x" using assms by (auto simp: arc_live_iff)
  have c: "n < rs_count r" using assms(2) s by (simp add: reseed_due_def not_le)
  then have u: "unat (rs_count r - n) \<le> 1600000"
    using s(3) c unat_sub [of n "rs_count r"] by (auto simp: buf_defs less_imp_le intro: le_trans [OF diff_le_self])
  let ?s = "s \<lparr> rs := Obj (r \<lparr> rs_count := rs_count r - n \<rparr>) \<rparr>"
  have "rs_stir_if_needed env n s e = Inr (?s, snd (sys_getpid env e))"
    using assms(2) s by (simp add: rs_stir_if_needed_def rs_forkdetect_def reseed_due_def split_beta Let_def)
  moreover have "arc_live ?s" using s u by (simp add: arc_live_iff buf_defs)
  moreover have "future ?s = future s" using s by (simp add: future_def unread_def)
  ultimately show ?thesis using s by (auto simp: have_bytes_def)
qed

lemma forkdetect_shape:
  assumes "arc_shape s" "reseed_due env n s e"
  shows "\<exists>s1. rs_forkdetect env s e = Inr (s1, snd (sys_getpid env e)) \<and> arc_shape s1 \<and> (\<forall>r. rs s1 = Obj r \<longrightarrow> rs_count r \<le> n)"
  using assms(1)
proof (cases rule: arc_shapeE)
  case null
  then show ?thesis by (simp add: rs_forkdetect_def split_beta Let_def arc_shape_def)
next
  case (live r x)
  show ?thesis
  proof (cases "rs_pid s = 0 \<or> rs_pid s = 1 \<or> rs_pid s \<noteq> fst (sys_getpid env e) \<or> rs_forked s")
    case True
    then have "rs_forkdetect env s e = Inr (s \<lparr> rs_pid := fst (sys_getpid env e), rs_forked := False,
        rs := Obj \<lparr> rs_have = 0, rs_count = 0 \<rparr> \<rparr>, snd (sys_getpid env e))"
      using live by (simp add: rs_forkdetect_def split_beta Let_def)
    then show ?thesis using live by (simp add: arc_shape_def buf_shape_def)
  next
    case False
    then have "rs_forkdetect env s e = Inr (s, snd (sys_getpid env e))"
      by (simp add: rs_forkdetect_def split_beta Let_def)
    then show ?thesis using assms live False by (simp add: reseed_due_def)
  qed
qed

lemma stir_if_needed_reseed:
  assumes "arc_shape s" "reseed_due env n s e"
  shows "\<exists>s1. arc_shape s1 \<and> rs_stir_if_needed env n s e =
    bindE (rs_stir env s1 (snd (sys_getpid env e))) (\<lambda>(s2, e2). bindE (deref (rs s2)) (\<lambda>r.
      Inr (s2 \<lparr> rs := Obj (r \<lparr> rs_count := (if rs_count r \<le> n then 0 else rs_count r - n) \<rparr>) \<rparr>, e2)))"
proof -
  from forkdetect_shape [OF assms] obtain s1 where s1: "rs_forkdetect env s e = Inr (s1, snd (sys_getpid env e))" "arc_shape s1"
    "\<forall>r. rs s1 = Obj r \<longrightarrow> rs_count r \<le> n" by blast
  show ?thesis using s1(2)
  proof (cases rule: arc_shapeE)
    case null
    then show ?thesis using s1 by (auto simp: rs_stir_if_needed_def)
  next
    case (live r x)
    then show ?thesis using s1 by (auto simp: rs_stir_if_needed_def)
  qed
qed

lemma stir_if_needed_ok:
  assumes "arc_ok s"
  shows "case rs_stir_if_needed env n s e of
     Inl err \<Rightarrow> (err = Killed \<and> \<not> entropy_serves env) \<or> (err = Aborted \<and> \<not> mmap_serves env)
   | Inr (s', e') \<Rightarrow> arc_live s'"
proof (cases "reseed_due env n s e")
  case False
  then have "arc_live s" using assms by (auto simp: arc_ok_def reseed_due_def)
  from stir_if_needed_keep [OF this False] show ?thesis by auto
next
  case True
  from stir_if_needed_reseed [OF arc_ok_shape [OF assms] True] obtain s1 where s1: "arc_shape s1"
    "rs_stir_if_needed env n s e = bindE (rs_stir env s1 (snd (sys_getpid env e))) (\<lambda>(s2, e2). bindE (deref (rs s2)) (\<lambda>r.
      Inr (s2 \<lparr> rs := Obj (r \<lparr> rs_count := (if rs_count r \<le> n then 0 else rs_count r - n) \<rparr>) \<rparr>, e2)))" by blast
  have count: "unat (if c \<le> n then 0 else c - n) \<le> 1600000" if "unat c \<le> 1600000" for c
    using that unat_sub [of n c] by (auto simp: intro: le_trans [OF diff_le_self])
  show ?thesis
  proof (cases "rs_stir env s1 (snd (sys_getpid env e))")
    case (Inl err)
    then show ?thesis using stir_ok [OF s1(1), of env "snd (sys_getpid env e)"] getentropy_serves [of env] by (auto simp: s1(2))
  next
    case (Inr y)
    then have "arc_live (fst y)" using stir_ok [OF s1(1), of env "snd (sys_getpid env e)"] by (simp add: split_beta)
    then show ?thesis using Inr count by (auto simp: s1(2) split_beta arc_live_iff buf_defs)
  qed
qed

lemma stir_if_needed_killed:
  assumes "arc_ok s" "reseed_due env n s e" "\<And>e. fst (getentropy env 40 e) = - 1"
  shows "rs_stir_if_needed env n s e = Inl Killed"
proof -
  from stir_if_needed_reseed [OF arc_ok_shape [OF assms(1)] assms(2)] obtain s1 where s1: "arc_shape s1"
    "rs_stir_if_needed env n s e = bindE (rs_stir env s1 (snd (sys_getpid env e))) (\<lambda>(s2, e2). bindE (deref (rs s2)) (\<lambda>r.
      Inr (s2 \<lparr> rs := Obj (r \<lparr> rs_count := (if rs_count r \<le> n then 0 else rs_count r - n) \<rparr>) \<rparr>, e2)))" by blast
  have "rs_stir env s1 (snd (sys_getpid env e)) = Inl Killed"
    using assms(3) by (simp add: rs_stir_def split_beta Let_def)
  then show ?thesis by (simp add: s1(2))
qed

section \<open>A word of the stream\<close>

text \<open>With fewer than four bytes unread, those are dropped and the number comes from the next block.\<close>

definition word_source :: "arc_state \<Rightarrow> byte stream" where
  "word_source s = (if have_bytes s < 4 then sdrop (unat (have_bytes s)) (future s) else future s)"

lemma word_of_stream:
  assumes "arc_live s"
  shows "\<exists>s'. (bindE (deref (rs s)) (\<lambda>r.
    bindE (if rs_have r < 4 then rs_rekey env None 0 s e else Inr (s, e)) (\<lambda>(s2, e2).
    bindE (deref (rs s2)) (\<lambda>r2. bindE (deref (rsx s2)) (\<lambda>x2.
      let (val, s3) = draw_keystream 4 r2 x2 s2 in Inr (U8TO32_LITTLE val, s3, e2)))))) =
      Inr (U8TO32_LITTLE (stake 4 (word_source s)), s', e) \<and> arc_live s' \<and> future s' = sdrop 4 (word_source s)"
proof -
  obtain r x where s: "rs s = Obj r" "rsx s = Obj x" "buf_ok r x" using assms by (auto simp: arc_live_iff)
  obtain s2 where s2: "(if rs_have r < 4 then rs_rekey env None 0 s e else Inr (s, e)) = Inr (s2, e)"
    "arc_live s2" "future s2 = word_source s" "4 \<le> have_bytes s2"
  proof (cases "rs_have r < 4")
    case True
    obtain s2 where "rs_rekey env None 0 s e = Inr (s2, e)" "arc_live s2" "future s2 = later (rs_chacha x)" "have_bytes s2 = 984"
      using rekey_plain [OF s(1,2) buf_okD [OF s(3)], where env = env and e = e] by blast
    moreover have "word_source s = later (rs_chacha x)"
      using True s by (simp add: word_source_def have_bytes_def future_live unread_def buf_defs sdrop_shift)
    ultimately show ?thesis using True that [of s2] by simp
  next
    case False
    then show ?thesis using s assms that [of s] by (auto simp: word_source_def have_bytes_def not_less [symmetric])
  qed
  obtain r2 x2 where o: "rs s2 = Obj r2" "rsx s2 = Obj x2" "buf_ok r2 x2" using s2(2) by (auto simp: arc_live_iff)
  have h: "4 \<le> rs_have r2" using s2(4) o by (simp add: have_bytes_def)
  note d = draw_keystream_stream [OF o h]
  show ?thesis using s(1) s2(1,3) o(1,2) d by (auto simp: split_beta)
qed

section \<open>The entry points\<close>

lemma buf_ok_results:
  assumes "arc_ok s"
  shows "case arc4random_buf env n s e of
     Inl err \<Rightarrow> (err = Killed \<and> \<not> entropy_serves env) \<or> (err = Aborted \<and> \<not> mmap_serves env)
   | Inr (out, s', e') \<Rightarrow> length out = unat n \<and> arc_live s'"
proof (cases "rs_stir_if_needed env n s e")
  case (Inl err)
  then show ?thesis using stir_if_needed_ok [OF assms, of env n e] by (simp add: arc4random_buf_def rs_random_buf_def)
next
  case (Inr y)
  then have "arc_live (fst y)" using stir_if_needed_ok [OF assms, of env n e] by (simp add: split_beta)
  from random_loop_stream [OF this, of env n "snd y"] show ?thesis
    using Inr by (auto simp: arc4random_buf_def rs_random_buf_def split_beta)
qed

lemma word_ok_results:
  assumes "arc_ok s"
  shows "case arc4random env s e of
     Inl err \<Rightarrow> (err = Killed \<and> \<not> entropy_serves env) \<or> (err = Aborted \<and> \<not> mmap_serves env)
   | Inr (v, s', e') \<Rightarrow> arc_live s'"
proof (cases "rs_stir_if_needed env 4 s e")
  case (Inl err)
  then show ?thesis using stir_if_needed_ok [OF assms, of env 4 e] by (simp add: arc4random_def rs_random_u32_def)
next
  case (Inr y)
  then have "arc_live (fst y)" using stir_if_needed_ok [OF assms, of env 4 e] by (simp add: split_beta)
  from word_of_stream [OF this, of env "snd y"] show ?thesis
    using Inr by (auto simp: arc4random_def rs_random_u32_def split_beta)
qed

end
