(* ===== verification/RngProps.thy ===== *)
theory RngProps
  imports Sse2Rng ArcUniform Arc4Stream
begin

text \<open>
  The properties of the random number generators: the SSE2 generator of the default build, the uniform numbers, the
  cipher, and \<open>arc4random\<close>; with the concrete inputs of the witnesses.
\<close>

section \<open>The SSE2 generator\<close>

text \<open>C34: The vector code of \<open>rand_sse\<close> is four independent linear congruential generators, one per lane; each of
  its results is the 15 bits above the low half of the new seed, so it is below 32768.\<close>
theorem sse_four_generators:
  "rand_sse s =
    (let n0 = 214013 * lane0 s + 2531011; n1 = 17405 * lane1 s + 10395331;
         n2 = 214013 * lane2 s + 13737667; n3 = 69069 * lane3 s + 1;
         out = (\<lambda>n. of_nat (unat n div 2 ^ 16 mod 2 ^ 15))
     in (lanes (out n0) (out n1) (out n2) (out n3), lanes n0 n1 n2 n3))"
proof -
  have "high_bits x = of_nat (unat x div 2 ^ 16 mod 2 ^ 15)" for x
  proof (rule word_eq_of_nat)
    have m: "(0x7FFF :: u32) = mask 15" by (simp add: mask_eq_exp_minus_1)
    show "unat (high_bits x) = unat x div 2 ^ 16 mod 2 ^ 15" unfolding high_bits_def m unat_and_mask unat_drop_bit ..
  qed
  moreover have "lane0 (lanes a b c d) = a" "lane1 (lanes a b c d) = b" "lane2 (lanes a b c d) = c" "lane3 (lanes a b c d) = d"
    for a b c d by (simp_all add: lanes_def)
  ultimately show ?thesis unfolding rand_sse_eq lcg_step_def lcg_def Let_def by simp
qed

text \<open>The generator has the full period: from every seed the state comes back after exactly \<open>2 ^ 32\<close> steps and their
  multiples, however bad the seed is.\<close>
lemma sse_full_period: "((\<lambda>seed. snd (rand_sse seed)) ^^ k) s = s \<longleftrightarrow> 2 ^ 32 dvd k"
proof -
  have f: "(\<lambda>seed. snd (rand_sse seed)) = lcg_step" by (simp add: rand_sse_eq fun_eq_iff)
  have "(lcg 214013 2531011 ^^ k) (lane0 s) = lane0 s \<longleftrightarrow> 2 ^ 32 dvd k" by (rule lcg_full_period) simp_all
  moreover have "(lcg 17405 10395331 ^^ k) (lane1 s) = lane1 s \<longleftrightarrow> 2 ^ 32 dvd k" by (rule lcg_full_period) simp_all
  moreover have "(lcg 214013 13737667 ^^ k) (lane2 s) = lane2 s \<longleftrightarrow> 2 ^ 32 dvd k" by (rule lcg_full_period) simp_all
  moreover have "(lcg 69069 1 ^^ k) (lane3 s) = lane3 s \<longleftrightarrow> 2 ^ 32 dvd k" by (rule lcg_full_period) simp_all
  ultimately show ?thesis unfolding f lcg_step_iterate by (cases s) (auto simp: lanes_def)
qed

text \<open>The numbers whose 15 bits above the low half are below \<open>u\<close>.\<close>

lemma card_high_bits:
  assumes "u \<le> 2 ^ 15"
  shows "card {x. unat (high_bits x) < u} = u * 2 ^ 17"
proof -
  let ?T = "\<lambda>v. {r \<in> {0..<0 + 2 * 2 ^ 31}. r mod 2 ^ 31 = (v :: nat)}"
  have h: "unat (high_bits x) = unat x div 2 ^ 16 mod 2 ^ 15" for x
  proof -
    have m: "(0x7FFF :: u32) = mask 15" by (simp add: mask_eq_exp_minus_1)
    show ?thesis unfolding high_bits_def m unat_and_mask unat_drop_bit ..
  qed
  have d: "unat (high_bits x) < u \<longleftrightarrow> unat x mod 2 ^ 31 < u * 2 ^ 16" for x
  proof -
    have "unat x div 2 ^ 16 mod 2 ^ 15 = unat x mod 2 ^ 31 div 2 ^ 16" using mod_mult2_eq [of "unat x" "2 ^ 16" "2 ^ 15"] by simp
    then show ?thesis unfolding h by (simp only: div_less_iff_less_mult zero_less_power zero_less_numeral)
  qed
  have "unat ` {x. unat (high_bits x) < u} = (\<Union>v\<in>{..<u * 2 ^ 16}. ?T v)"
  proof (intro set_eqI iffI)
    fix n assume "n \<in> unat ` {x. unat (high_bits x) < u}"
    then obtain x where x: "n = unat x" "unat (high_bits x) < u" by blast
    then have "n mod 2 ^ 31 < u * 2 ^ 16" unfolding d by simp
    moreover have "n < 2 * 2 ^ 31" using unsigned_less [of x, where ?'a = nat] x(1) by simp
    ultimately show "n \<in> (\<Union>v\<in>{..<u * 2 ^ 16}. ?T v)" by auto
  next
    fix n assume "n \<in> (\<Union>v\<in>{..<u * 2 ^ 16}. ?T v)"
    then have n: "n < 2 ^ 32" "n mod 2 ^ 31 < u * 2 ^ 16" by auto
    then have "unat (of_nat n :: u32) = n" by (intro unat_of_nat_less) simp
    then show "n \<in> unat ` {x. unat (high_bits x) < u}" using n(2)
      by (intro image_eqI [of _ _ "of_nat n"]) (simp_all add: d)
  qed
  moreover have "card (unat ` {x. unat (high_bits x) < u}) = card {x. unat (high_bits x) < u}"
    by (rule card_image) (simp add: inj_on_def word_unat_eq_iff)
  moreover have "card (\<Union>v\<in>{..<u * 2 ^ 16}. ?T v) = (\<Sum>v\<in>{..<u * 2 ^ 16}. card (?T v))"
    by (rule card_UN_disjoint) auto
  moreover have "(\<Sum>v\<in>{..<u * 2 ^ 16}. card (?T v)) = (\<Sum>v\<in>{..<u * 2 ^ 16}. 2)"
  proof (rule sum.cong)
    fix v assume "v \<in> {..<u * 2 ^ 16}"
    then have "v < 2 ^ 31" using assms by simp
    then show "card (?T v) = 2" by (rule residues_in_blocks)
  qed simp
  ultimately show ?thesis by simp
qed

text \<open>C33: The rate of random guard pages: over a full period of the generator, from any seed, exactly 3277 of every 32768
  random numbers are below the cutoff of 10 per cent, so that \<open>tryRandomGuardPage\<close> places a guard page.\<close>
theorem guard_page_rate:
  assumes "SSE2RNG c"
  shows "card {k. k < 2 ^ 32 \<and>
      below_RANDOM_GUARD_RAND_CUTOFF c (fst (sse_random (((\<lambda>seed. snd (sse_random seed)) ^^ k) s)))} = 3277 * 2 ^ 17"
proof -
  let ?S = "{x. unat (high_bits x) < 3277}" and ?orbit = "\<lambda>k. (lcg 214013 2531011 ^^ k) (lcg 214013 2531011 (lane0 s))"
  have f: "(\<lambda>seed. snd (sse_random seed)) = lcg_step" by (simp add: sse_random_def rand_sse_eq fun_eq_iff)
  have r: "fst (sse_random ((lcg_step ^^ k) s)) = high_bits (?orbit k)" for k
    unfolding lcg_step_iterate by (simp add: sse_random_def rand_sse_eq lcg_step_def lanes_def flip: funpow_swap1)
  have b: "below_RANDOM_GUARD_RAND_CUTOFF c (high_bits x) \<longleftrightarrow> x \<in> ?S" for x
  proof -
    have u: "unat (high_bits x) < 2 ^ 15" by (rule high_bits_less)
    then have "sint (high_bits x) = int (unat (high_bits x))"
      using sint_of_nat_less [of "unat (high_bits x)", where ?'a = 32] by simp
    then have "below_RANDOM_GUARD_RAND_CUTOFF c (high_bits x) \<longleftrightarrow> 10 * int (unat (high_bits x)) < 0x8000"
      using assms by (simp only: below_RANDOM_GUARD_RAND_CUTOFF_def RNG_MAX_def if_True)
    also have "\<dots> \<longleftrightarrow> unat (high_bits x) < 3277" by linarith
    finally show ?thesis by simp
  qed
  have o: "bij_betw ?orbit {..<2 ^ 32} UNIV" by (rule lcg_orbit) simp_all
  have "card {k. k < 2 ^ 32 \<and> ?orbit k \<in> ?S} = card (?orbit ` {k. k < 2 ^ 32 \<and> ?orbit k \<in> ?S})"
    by (rule card_image [symmetric], rule inj_on_subset [OF bij_betw_imp_inj_on [OF o]]) auto
  also have "?orbit ` {k. k < 2 ^ 32 \<and> ?orbit k \<in> ?S} = ?S"
  proof -
    have "x \<in> ?orbit ` {..<2 ^ 32}" for x using bij_betw_imp_surj_on [OF o] by simp
    then show ?thesis by (fastforce simp del: funpow.simps)
  qed
  also have "card ?S = 3277 * 2 ^ 17" by (rule card_high_bits) simp
  finally show ?thesis unfolding f r b .
qed

theorem guard_page_rate_witness:
  "card {k. k < 2 ^ 32 \<and> below_RANDOM_GUARD_RAND_CUTOFF default_build
      (fst (sse_random (((\<lambda>seed. snd (sse_random seed)) ^^ k) (srand_sse 1))))} = 3277 * 2 ^ 17"
  by (rule guard_page_rate) (simp add: default_build_def)

section \<open>Uniform numbers\<close>

text \<open>C38: \<open>arc4random_uniform\<close> answers with the first number of the source that is at least \<open>2 ^ 32 mod upper_bound\<close>,
  reduced modulo the bound, and each result comes from equally many of the accepted numbers, \<open>2 ^ 32 div upper_bound\<close>:
  there is no modulo bias.\<close>
theorem uniform_unbiased:
  assumes "2 \<le> ub" and "v < ub" and "\<forall>j<n. drawn gen j g < uniform_min ub" and "uniform_min ub \<le> drawn gen n g"
  shows "arc4random_uniform gen ub g = Some (drawn gen n g mod ub, ((\<lambda>s. snd (gen s)) ^^ Suc n) g) \<and>
    unat (uniform_min ub) = 2 ^ 32 mod unat ub \<and>
    card {r. uniform_min ub \<le> r \<and> r mod ub = v} = 2 ^ 32 div unat ub"
  using uniform_loop_first [OF assms(4,3)] uniform_min_nat [OF assms(1)] accepted_residues [OF assms(1,2)]
    assms(1) [folded not_less]
  by (simp add: arc4random_uniform_def del: funpow.simps)

theorem uniform_unbiased_witness:
  "arc4random_uniform (\<lambda>x. (x, x + 5)) 6 2 = Some (1, 12) \<and> card {r :: u32. uniform_min 6 \<le> r \<and> r mod 6 = 5} = 715827882"
proof -
  have m: "uniform_min 6 = 4" by code_simp
  have d: "drawn (\<lambda>x :: u32. (x, x + 5)) 0 2 = 2" "drawn (\<lambda>x :: u32. (x, x + 5)) (Suc 0) 2 = 7" by (simp_all add: drawn_def)
  have "\<forall>j<1. drawn (\<lambda>x :: u32. (x, x + 5)) j 2 < uniform_min 6" "uniform_min 6 \<le> drawn (\<lambda>x :: u32. (x, x + 5)) 1 2"
    using d by (simp_all add: m)
  from uniform_unbiased [OF _ _ this, of 5] show ?thesis by (simp add: d)
qed

text \<open>C39: \<open>arc4random_uniform\<close> returns exactly when the bound is below 2 or the source yields an acceptable number at some
  time; more than half of all numbers are acceptable whatever the bound.\<close>
theorem uniform_terminates:
  "(arc4random_uniform gen ub g \<noteq> None) = (ub < 2 \<or> (\<exists>n. uniform_min ub \<le> drawn gen n g)) \<and>
   (if ub < 2 then True else unat (uniform_min ub) < 2 ^ 31)"
  using uniform_loop_returns [of gen "uniform_min ub" g] uniform_min_half [of ub]
  by (auto simp: arc4random_uniform_def not_less split: option.splits)

section \<open>The cipher\<close>

text \<open>Decrypting is encrypting again: run twice from the same context, the cipher gives the text back.\<close>
lemma chacha_roundtrip:
  assumes "length (input x) = 16" and "length junk = 64" and "unat nb \<le> length m"
  shows "fst (chacha_encrypt_bytes False junk x (fst (chacha_encrypt_bytes False junk x m nb)) nb) = take (unat nb) m"
proof -
  define ks where "ks = fst (chacha_encrypt_bytes True [] x [] nb)"
  have l: "length ks = unat nb" by (simp add: ks_def encrypt_length assms(1))
  have c: "fst (chacha_encrypt_bytes False junk x m nb) = map2 (XOR) ks (take (unat nb) m)"
    unfolding ks_def by (rule encrypt_is_xor [OF assms])
  have "fst (chacha_encrypt_bytes False junk x (map2 (XOR) ks (take (unat nb) m)) nb) =
      map2 (XOR) ks (map2 (XOR) ks (take (unat nb) m))"
    using encrypt_is_xor [OF assms(1,2), of nb "map2 (XOR) ks (take (unat nb) m)"] l assms(3) by (simp add: ks_def)
  also have "\<dots> = take (unat nb) m"
    using l assms(3) by (intro nth_equalityI) (simp_all flip: xor.assoc)
  finally show ?thesis unfolding c .
qed

definition example_ctx :: chacha_ctx where "example_ctx = \<lparr> input = replicate 16 0 \<rparr>"

text \<open>A text may be encrypted in two calls when the first covers whole blocks: the second call goes on in the key
  stream where the first stopped, and the context is the same as after one call.\<close>
lemma chacha_in_pieces:
  assumes "length (input x) = 16" and "64 dvd unat a" and "unat a + unat b < 2 ^ 32"
  shows "chacha_encrypt_bytes keystream_only junk x m (a + b) =
    (let (c1, x1) = chacha_encrypt_bytes keystream_only junk x m a;
         (c2, x2) = chacha_encrypt_bytes keystream_only junk x1 (if keystream_only then m else drop (unat a) m) b
     in (c1 @ c2, x2))"
proof (cases "a = 0 \<or> b = 0")
  case True
  then show ?thesis by (auto simp: chacha_encrypt_bytes_def split: prod.splits)
next
  case False
  obtain k where k: "unat a = 64 * k" using assms(2) by (elim dvdE)
  have pos: "0 < k" "0 < unat b" using False k by (auto simp: unat_gt_0) (metis unat_eq_zero mult_0_right neq0_conv)
  have s: "unat (a + b) = 64 * k + unat b" using assms(3) unat_add_less [of a b] by (simp add: k)
  define x1 where "x1 = snd (chacha_encrypt_bytes keystream_only junk x m a)"
  have blocks: "(unat (a + b) + 63) div 64 = k + (unat b + 63) div 64" "(unat a + 63) div 64 = k"
    unfolding s k by simp_all
  have i1: "input x1 = (next_counter ^^ k) (input x)" by (simp add: x1_def encrypt_counter assms(1) blocks)
  have "fst (chacha_loop keystream_only junk (input x) m (64 * k)) = (next_counter ^^ k) (input x)"
    using loop_counter [of "64 * k" keystream_only junk "input x" m] pos blocks(2) by (simp add: k)
  then have "fst (chacha_encrypt_bytes keystream_only junk x m (a + b)) =
      fst (chacha_encrypt_bytes keystream_only junk x m a) @
      fst (chacha_encrypt_bytes keystream_only junk x1 (if keystream_only then m else drop (unat a) m) b)"
    using loop_append [OF pos assms(1), of keystream_only junk m]
    by (simp add: encrypt_bytes i1 assms(1) s k split_beta Let_def)
  moreover have "snd (chacha_encrypt_bytes keystream_only junk x m (a + b)) =
      snd (chacha_encrypt_bytes keystream_only junk x1 (if keystream_only then m else drop (unat a) m) b)"
    using i1 by (simp add: encrypt_counter assms(1) blocks add.commute [of k] funpow_add x1_def)
  ultimately show ?thesis unfolding x1_def Let_def split_beta by (simp add: prod_eq_iff)
qed

section \<open>The random number generator\<close>

text \<open>C35: The generator's state stays valid: from a valid state a draw either ends the process, because there is no
  entropy or no memory, or leaves a valid state in which every byte that was handed out has been erased from the
  buffer.  No invalid pointer is followed.\<close>
theorem arc4random_safe:
  assumes "arc_ok s"
  shows "(case arc4random env s e of Inl err \<Rightarrow> err = Killed \<or> err = Aborted | Inr (v, s', e') \<Rightarrow> arc_live s') \<and>
    (case arc4random_buf env n s e of Inl err \<Rightarrow> err = Killed \<or> err = Aborted | Inr (out, s', e') \<Rightarrow> arc_live s')"
  using word_ok_results [OF assms, of env e] buf_ok_results [OF assms, of env n e] by (auto split: sum.splits)

definition example_calls :: "nat arc_env" where
  "example_calls = \<lparr> sys_getrandom = (\<lambda>n e. ((ucast n, replicate (unat n) (of_nat e)), Suc e)), sys_getpid = (\<lambda>e. (42, e)),
     sys_mmap = (\<lambda>_ e. (True, e)), sys_munmap = (\<lambda>_ e. e), sys_atfork = (\<lambda>e. e) \<rparr>"

definition example_generator :: arc_state where
  "example_generator = \<lparr> rs = Obj \<lparr> rs_have = 0, rs_count = 100 \<rparr>,
     rsx = Obj \<lparr> rs_chacha = example_ctx, rs_buf = replicate 1024 0 \<rparr>, rs_forked = False, rs_pid = 42 \<rparr>"

lemma example_generator_live: "arc_live example_generator"
  by (simp add: arc_live_def example_generator_def buf_defs example_ctx_def)

theorem arc4random_safe_witness:
  "(case arc4random example_calls example_generator 7 of Inl err \<Rightarrow> err = Killed \<or> err = Aborted | Inr (v, s', e') \<Rightarrow> arc_live s') \<and>
   (case arc4random_buf example_calls 3000 example_generator 7 of Inl err \<Rightarrow> err = Killed \<or> err = Aborted | Inr (out, s', e') \<Rightarrow> arc_live s')"
  using arc4random_safe [of example_generator example_calls 7 3000] example_generator_live by (simp add: arc_ok_def)

text \<open>C36: When the kernel gives entropy and memory, every draw returns: \<open>arc4random\<close> a number, and
  \<open>arc4random_buf\<close> exactly as many bytes as were asked for, also in a thread that never drew before.\<close>
theorem arc4random_serves:
  assumes "arc_ok s" and "entropy_serves env" and "mmap_serves env"
  shows "(\<exists>v s' e'. arc4random env s e = Inr (v, s', e') \<and> arc_ok s') \<and>
    (\<exists>out s' e'. arc4random_buf env n s e = Inr (out, s', e') \<and> length out = unat n \<and> arc_ok s')"
  using word_ok_results [OF assms(1), of env e] buf_ok_results [OF assms(1), of env n e] assms(2,3)
  by (auto simp: arc_ok_def split: sum.splits)

theorem arc4random_serves_witness:
  "(\<exists>v s' e'. arc4random example_calls arc_start 7 = Inr (v, s', e') \<and> arc_ok s') \<and>
   (\<exists>out s' e'. arc4random_buf example_calls 5000 arc_start 7 = Inr (out, s', e') \<and> length out = 5000 \<and> arc_ok s')"
proof -
  have "arc_ok arc_start" by (simp add: arc_ok_def arc_start_def)
  moreover have "entropy_serves example_calls" "mmap_serves example_calls"
    by (simp_all add: entropy_serves_def mmap_serves_def example_calls_def)
  ultimately show ?thesis using arc4random_serves [of arc_start example_calls 7 5000] by simp
qed

text \<open>C37: The generator is a stream of bytes: while no reseed is due, \<open>arc4random_buf\<close> hands out the next \<open>n\<close> bytes of the
  stream, over any number of rekeys, and leaves the rest of it; \<open>arc4random\<close> hands out the next four, or those
  after the fewer than four bytes that end a block.\<close>
theorem arc4random_stream:
  assumes "arc_live s" and "\<not> reseed_due env n s e" and "\<not> reseed_due env 4 s e"
  shows "(\<exists>s'. arc4random_buf env n s e = Inr (stake (unat n) (future s), s', snd (sys_getpid env e)) \<and>
      arc_live s' \<and> future s' = sdrop (unat n) (future s)) \<and>
    (\<exists>s'. arc4random env s e = Inr (U8TO32_LITTLE (stake 4 (word_source s)), s', snd (sys_getpid env e)) \<and>
      arc_live s' \<and> future s' = sdrop 4 (word_source s))"
proof
  obtain s1 where s1: "rs_stir_if_needed env n s e = Inr (s1, snd (sys_getpid env e))" "arc_live s1" "future s1 = future s"
    using stir_if_needed_keep [OF assms(1,2)] by blast
  from random_loop_stream [OF s1(2), of env n "snd (sys_getpid env e)"]
  show "\<exists>s'. arc4random_buf env n s e = Inr (stake (unat n) (future s), s', snd (sys_getpid env e)) \<and>
      arc_live s' \<and> future s' = sdrop (unat n) (future s)"
    by (simp add: arc4random_buf_def rs_random_buf_def s1(1,3))
next
  obtain s1 where s1: "rs_stir_if_needed env 4 s e = Inr (s1, snd (sys_getpid env e))" "arc_live s1" "future s1 = future s"
    "have_bytes s1 = have_bytes s"
    using stir_if_needed_keep [OF assms(1,3)] by blast
  then have "word_source s1 = word_source s" by (simp add: word_source_def)
  with word_of_stream [OF s1(2), of env "snd (sys_getpid env e)"]
  show "\<exists>s'. arc4random env s e = Inr (U8TO32_LITTLE (stake 4 (word_source s)), s', snd (sys_getpid env e)) \<and>
      arc_live s' \<and> future s' = sdrop 4 (word_source s)"
    by (simp add: arc4random_def rs_random_u32_def s1(1))
qed

theorem arc4random_stream_witness:
  "\<exists>s'. arc4random_buf example_calls 50 example_generator 7 = Inr (stake 50 (future example_generator), s', 7) \<and>
      arc_live s' \<and> future s' = sdrop 50 (future example_generator)"
proof -
  have "\<not> reseed_due example_calls n example_generator 7" if "n < 100" for n
    using that by (simp add: reseed_due_def example_calls_def example_generator_def not_le)
  from this [of 50] this [of 4] arc4random_stream [OF example_generator_live, of example_calls 50 7]
  show ?thesis by (simp add: example_calls_def)
qed

text \<open>Without entropy no number leaves a generator that must be seeded: in a new thread, after a fork (a new process
  id, or the handler ran), or when the 1600000 bytes of a seed are used up, the process is killed.\<close>
lemma arc4random_no_entropy:
  assumes "arc_ok s" and "\<And>e. fst (getentropy env 40 e) = - 1" and "reseed_due env 4 s e" and "reseed_due env n s e"
  shows "arc4random env s e = Inl Killed \<and> arc4random_buf env n s e = Inl Killed"
  using stir_if_needed_killed [OF assms(1,3,2)] stir_if_needed_killed [OF assms(1,4,2)]
  by (simp add: arc4random_def rs_random_u32_def arc4random_buf_def rs_random_buf_def)

end
