(* ===== verification/FreeRace.thy ===== *)
theory FreeRace
  imports ProcessOps
begin

text \<open>
  Concurrent calls of \<open>freeSmallObject\<close>.

  Only the insertion into the free list holds the lock of the bag; what comes before it, from the look-up of the slot to
  the erasure of the object, does not.  So a call is two atomic steps here, \<open>free_check\<close> and \<open>release_slot\<close>, and
  \<open>race_step\<close> interleaves the steps of any number of threads; a call that runs alone is the two steps in a row
  (\<open>freeSmallObject_steps\<close>).  Lemmas: erasing an object keeps all canaries (\<open>erase_intact\<close>), what a check does
  (\<open>free_check_ok\<close>), and the invariant of the interleaved calls (\<open>race_inv_step\<close>, \<open>race_progress\<close>).
\<close>

section \<open>The steps\<close>

definition free_check :: "env \<Rightarrow> build \<Rightarrow> addr \<Rightarrow> 'r bibop \<Rightarrow> fg_error + ((addr \<times> (nat \<times> nat) \<times> nat) \<times> 'r bibop)" where
  "free_check env c a st =
    bindE (getShadowObjectInfo c (geom st) (threadBag st) a) (\<lambda>(shadowinfo, (t, b), item).
      bindE (load_slot shadowinfo st) (\<lambda>nxt.
        if isObjectFree nxt then Inl (Double_free a)
        else
          let bag = get_bag st t b;
              objectSizeWoCanary = (if USE_CANARY c then classSize bag - 1 else classSize bag)
          in bindE (check_canaries env c st bag a shadowinfo) (\<lambda>_.
             bindE (if DESTROY_ON_FREE c then destroyObject env a objectSizeWoCanary st else Inr st)
               (\<lambda>st1. Inr ((shadowinfo, (t, b), item), st1)))))"

lemma bindE_assoc: "bindE (bindE m f) g = bindE m (\<lambda>x. bindE (f x) g)"
  by (cases m) simp_all

lemma freeSmallObject_steps:
  "freeSmallObject env c ti a st =
    bindE (free_check env c a st) (\<lambda>((shadowinfo, (t, b), item), st1). release_slot c ti t b item shadowinfo st1)"
proof (cases "getShadowObjectInfo c (geom st) (threadBag st) a")
  case (Inr y)
  obtain shadowinfo t b item where y: "y = (shadowinfo, (t, b), item)" by (cases y) auto
  show ?thesis
    by (cases "load_slot shadowinfo st") (simp_all add: freeSmallObject_def free_check_def Inr y Let_def bindE_assoc)
qed (simp add: freeSmallObject_def free_check_def)

datatype free_pc = Checking addr | Inserting addr "nat \<times> nat" nat | Finished

inductive race_step :: "env \<Rightarrow> build \<Rightarrow> free_pc list \<times> 'r bibop \<Rightarrow> free_pc list \<times> 'r bibop \<Rightarrow> bool" for env c where
  check: "i < length ps \<Longrightarrow> ps ! i = Checking a \<Longrightarrow> free_check env c a st = Inr ((shadowinfo, bag, item), st') \<Longrightarrow>
    race_step env c (ps, st) (ps[i := Inserting shadowinfo bag item], st')"
| insert: "i < length ps \<Longrightarrow> ps ! i = Inserting shadowinfo (t, b) item \<Longrightarrow>
    release_slot c ti t b item shadowinfo st = Inr st' \<Longrightarrow>
    race_step env c (ps, st) (ps[i := Finished], st')"

inductive_cases race_stepE: "race_step env c x y"

definition race_reach :: "env \<Rightarrow> build \<Rightarrow> free_pc list \<times> 'r bibop \<Rightarrow> free_pc list \<times> 'r bibop \<Rightarrow> bool" where
  "race_reach env c = (race_step env c)\<^sup>*\<^sup>*"

section \<open>Erasing an object\<close>

lemma zeroed_offset:
  assumes "X < 2 ^ 48" "P < 2 ^ 48" "m < 2 ^ 48" "\<not> (P \<le> X \<and> X < P + m)"
  shows "zeroed (hb + of_nat P) m f (hb + of_nat X) = f (hb + of_nat X)"
proof -
  have "(hb + of_nat X) - (hb + of_nat P) < of_nat m \<longleftrightarrow> unat ((hb + of_nat X) - (hb + of_nat P)) < m"
    using assms(3) by (simp only: word_less_nat_alt) (subst unat_of_nat_less, simp_all)
  then show ?thesis using word_interval [OF assms(1-3), of hb] assms(4) by (simp add: zeroed_def)
qed

lemma erase_intact:
  assumes inv: "heap_inv c k hb sb N L S st" and l: "(t, b, s, n) \<in> live c k sb st" and v: "intact c k hb sb st"
  shows "intact c k hb sb (st\<lparr> bytes := zeroed (seq_addr c k hb t b s n) (erased c b) (bytes st) \<rparr>)"
proof (rule intactI)
  let ?st = "st\<lparr> bytes := zeroed (seq_addr c k hb t b s n) (erased c b) (bytes st) \<rparr>"
  fix t' b' s' n' assume can: "USE_CANARY c" and l1: "(t', b', s', n') \<in> live c k sb ?st"
  have l': "(t', b', s', n') \<in> live c k sb st" using l1 by (simp add: live_def)
  have k: "bag_shift_ok c k" using inv by (simp add: heap_inv_def bags_inv_def)
  have i: "item_ok c t b s" "in_room c k b s n" and j: "item_ok c t' b' s'" "in_room c k b' s' n'"
    using l l' by (simp_all add: live_def)
  let ?P = "seq_off c k t b s n" and ?Q = "seq_off c k t' b' s' n'"
  have pos: "0 < (2::nat) ^ (4 + b')" "0 < (2::nat) ^ (4 + b)" by simp_all
  have er: "erased c b \<le> 2 ^ (4 + b) - 1" using can by (simp add: erased_def Let_def)
  have le: "(2::nat) ^ (4 + b') \<le> 2 ^ 22" "(2::nat) ^ (4 + b) \<le> 2 ^ 22"
    using class_word_lt [of b' c] class_word_lt [of b c] i j by (simp_all add: item_ok_def)
  have "\<not> (?P \<le> ?Q + (2 ^ (4 + b') - 1) \<and> ?Q + (2 ^ (4 + b') - 1) < ?P + erased c b)"
  proof
    assume x: "?P \<le> ?Q + (2 ^ (4 + b') - 1) \<and> ?Q + (2 ^ (4 + b') - 1) < ?P + erased c b"
    have "(t, b, s, n) = (t', b', s', n')"
      by (rule seq_range_unique [OF k i(1) j(1) i(2) j(2), of "?Q + (2 ^ (4 + b') - 1)"]) (use x er pos in linarith)+
    then show False using x er by auto
  qed
  moreover have "(2::nat) ^ (4 + b') - 1 < 2 ^ 22" "erased c b < 2 ^ 22" using le er pos by linarith+
  then have "?Q + (2 ^ (4 + b') - 1) < 2 ^ 48" "?P < 2 ^ 48" "erased c b < 2 ^ 48"
    using seq_off_lt(2) [OF k i] seq_off_lt(2) [OF k j] by simp_all
  moreover have "canary_addr c k hb t' b' s' n' = hb + of_nat (?Q + (2 ^ (4 + b') - 1))"
    unfolding canary_addr_def seq_addr_off by (rule offset_add) simp
  moreover have "bytes ?st = zeroed (hb + of_nat ?P) (erased c b) (bytes st)" by (simp add: seq_addr_off)
  ultimately have "bytes ?st (canary_addr c k hb t' b' s' n') = bytes st (canary_addr c k hb t' b' s' n')"
    by (metis zeroed_offset)
  then show "bytes ?st (canary_addr c k hb t' b' s' n') = CANARY_SENTINEL" using v can l' by (auto simp: intact_def)
qed

lemma free_check_ok:
  assumes inv: "heap_inv c k hb sb N L S st" and l: "(t, b, s, n) \<in> live c k sb st" and v: "intact c k hb sb st"
  shows "free_check env c (seq_addr c k hb t b s n) st =
    Inr ((seq_slot c k sb t b s n, (t, b), s), st\<lparr> bytes := zeroed (seq_addr c k hb t b s n) (erased c b) (bytes st) \<rparr>)"
proof -
  have bi: "bags_inv c k hb sb N st" using inv by (simp add: heap_inv_def)
  have i: "item_ok c t b s" and r: "in_room c k b s n" using l by (simp_all add: live_def)
  have "\<not> isObjectFree (snext (lists st) (seq_slot c k sb t b s n))"
    using l by (simp add: live_def isObjectFree_def)
  then show ?thesis
    unfolding free_check_def find_object [OF bi i r] bindE_simps prod.case Let_def
      check_canaries_eq [OF inv l] verdict_def [symmetric] destroy_ok [OF inv l]
    using verdict_intact [OF v l] by simp
qed

section \<open>Interleaved calls on different objects\<close>

text \<open>Thread \<open>i\<close> frees the object \<open>xs ! i\<close>.  A thread has its object's slot until it is done, and the objects of
  the threads that are not done are still live.\<close>

definition pc_ok :: "build \<Rightarrow> nat \<Rightarrow> addr \<Rightarrow> addr \<Rightarrow> obj \<Rightarrow> free_pc \<Rightarrow> bool" where
  "pc_ok c k hb sb x p = (case x of (t, b, s, n) \<Rightarrow>
     p = Checking (seq_addr c k hb t b s n) \<or> p = Inserting (seq_slot c k sb t b s n) (t, b) s \<or> p = Finished)"

definition freed :: "obj list \<Rightarrow> free_pc list \<Rightarrow> obj set" where
  "freed xs ps = {xs ! i | i. i < length ps \<and> ps ! i = Finished}"

definition race_inv ::
  "build \<Rightarrow> nat \<Rightarrow> addr \<Rightarrow> addr \<Rightarrow> bump_map \<Rightarrow> obj set \<Rightarrow> obj set \<Rightarrow> obj list \<Rightarrow> free_pc list \<times> 'r bibop \<Rightarrow> bool"
where
  "race_inv c k hb sb N S A xs = (\<lambda>(ps, st). length ps = length xs \<and>
     (\<forall>i<length xs. pc_ok c k hb sb (xs ! i) (ps ! i)) \<and> (\<exists>L. heap_inv c k hb sb N L S st) \<and>
     intact c k hb sb st \<and> live c k sb st = A - freed xs ps)"

lemma freed_update:
  assumes "i < length ps"
  shows "freed xs (ps[i := Finished]) = insert (xs ! i) (freed xs ps)"
    and "ps ! i \<noteq> Finished \<Longrightarrow> p \<noteq> Finished \<Longrightarrow> freed xs (ps[i := p]) = freed xs ps"
  using assms by (auto simp: freed_def nth_list_update)

lemma unfinished_live:
  assumes "race_inv c k hb sb N S A xs (ps, st)" "distinct xs" "set xs \<subseteq> A" "i < length ps" "ps ! i \<noteq> Finished"
  shows "xs ! i \<in> live c k sb st"
proof -
  have l: "length ps = length xs" and lv: "live c k sb st = A - freed xs ps" using assms(1) by (auto simp: race_inv_def)
  have "xs ! i \<notin> freed xs ps"
    using assms(2,4,5) l by (auto simp: freed_def nth_eq_iff_index_eq)
  moreover have "xs ! i \<in> A" using assms(3,4) l nth_mem [of i xs] by auto
  ultimately show ?thesis unfolding lv by blast
qed

text \<open>The effect of the two steps of a thread on a state with the invariant.\<close>

lemma check_effect:
  assumes I: "race_inv c k hb sb N S A xs (ps, st)" and d: "distinct xs" "set xs \<subseteq> A"
    and i: "i < length ps" "ps ! i = Checking a"
  shows "\<exists>sh bag item st'. free_check env c a st = Inr ((sh, bag, item), st') \<and>
    race_inv c k hb sb N S A xs (ps[i := Inserting sh bag item], st')"
proof -
  obtain t b s n where x: "xs ! i = (t, b, s, n)" by (cases "xs ! i") auto
  have l: "(t, b, s, n) \<in> live c k sb st" using unfinished_live [OF I d i(1)] i(2) by (simp add: x)
  have len: "length ps = length xs" and pc: "\<forall>j<length xs. pc_ok c k hb sb (xs ! j) (ps ! j)"
    and lv: "live c k sb st = A - freed xs ps" and v: "intact c k hb sb st" using I by (auto simp: race_inv_def)
  obtain L where h: "heap_inv c k hb sb N L S st" using I by (auto simp: race_inv_def)
  have a: "a = seq_addr c k hb t b s n" using pc i len x by (auto simp: pc_ok_def)
  let ?st = "st\<lparr> bytes := zeroed (seq_addr c k hb t b s n) (erased c b) (bytes st) \<rparr>"
  let ?p = "Inserting (seq_slot c k sb t b s n) (t, b) s"
  have fr: "freed xs (ps[i := ?p]) = freed xs ps" by (rule freed_update(2)) (use i in simp_all)
  have "\<forall>j<length xs. pc_ok c k hb sb (xs ! j) (ps[i := ?p] ! j)"
    using pc i(1) x by (auto simp: nth_list_update pc_ok_def)
  moreover have "heap_inv c k hb sb N L S ?st" by (rule destroy_inv(1) [OF h])
  moreover have "live c k sb ?st = A - freed xs (ps[i := ?p])" unfolding destroy_inv(2) [OF h] fr by (rule lv)
  ultimately have "race_inv c k hb sb N S A xs (ps[i := ?p], ?st)"
    unfolding race_inv_def prod.case using len erase_intact [OF h l v] by auto
  then show ?thesis using free_check_ok [OF h l v, of env] unfolding a by blast
qed

lemma insert_effect:
  assumes I: "race_inv c k hb sb N S A xs (ps, st)" and d: "distinct xs" "set xs \<subseteq> A" and cf: "\<not> CFREELIST c"
    and i: "i < length ps" "ps ! i = Inserting sh (t, b) item"
  shows "\<exists>st'. (\<forall>ti. release_slot c ti t b item sh st = Inr st') \<and> race_inv c k hb sb N S A xs (ps[i := Finished], st')"
proof -
  have len: "length ps = length xs" and pc: "\<forall>j<length xs. pc_ok c k hb sb (xs ! j) (ps ! j)"
    and lv: "live c k sb st = A - freed xs ps" and v: "intact c k hb sb st" using I by (auto simp: race_inv_def)
  obtain L where h: "heap_inv c k hb sb N L S st" using I by (auto simp: race_inv_def)
  obtain n where x: "xs ! i = (t, b, item, n)" "sh = seq_slot c k sb t b item n"
    using pc i len by (cases "xs ! i") (auto simp: pc_ok_def)
  have l: "(t, b, item, n) \<in> live c k sb st" using unfinished_live [OF I d i(1)] i(2) by (simp add: x)
  obtain st' ys where r: "release_slot c 0 t b item sh st = Inr st'"
    "heap_inv c k hb sb N (L(freelist_addr c (threadBagAddr st) t b item := ys)) S st'"
    "live c k sb st' = live c k sb st - {(t, b, item, n)}" "bytes st' = bytes st"
    using release_slot_ok [OF h l cf, of 0] unfolding x(2) by blast
  have ti: "release_slot c ti t b item sh st = Inr st'" for ti
    using r(1) cf by (simp add: release_slot_def Let_def)
  have "intact c k hb sb st'" using v unfolding intact_def r(3,4) by blast
  moreover have "live c k sb st' = A - freed xs (ps[i := Finished])"
    unfolding r(3) lv freed_update(1) [OF i(1)] x(1) by blast
  moreover have "\<forall>j<length xs. pc_ok c k hb sb (xs ! j) (ps[i := Finished] ! j)"
    using pc i(1) x by (auto simp: nth_list_update pc_ok_def)
  ultimately have "race_inv c k hb sb N S A xs (ps[i := Finished], st')"
    unfolding race_inv_def prod.case using len r(2) by auto
  then show ?thesis using ti by blast
qed

lemma race_inv_step:
  assumes "race_step env c x y" and "race_inv c k hb sb N S A xs x" and "distinct xs" "set xs \<subseteq> A" "\<not> CFREELIST c"
  shows "race_inv c k hb sb N S A xs y"
  using assms(1)
proof cases
  case (check i ps a st shadowinfo bag item st')
  then show ?thesis using check_effect [OF assms(2) [unfolded check(1)] assms(3,4) check(3,4), of env] by auto
next
  case (insert i ps shadowinfo t b item ti st st')
  then show ?thesis using insert_effect [OF assms(2) [unfolded insert(1)] assms(3-5) insert(3,4)] by auto
qed

lemma race_inv_reach:
  assumes "race_reach env c x y" and "race_inv c k hb sb N S A xs x" and "distinct xs" "set xs \<subseteq> A" "\<not> CFREELIST c"
  shows "race_inv c k hb sb N S A xs y"
  using assms(1) [unfolded race_reach_def]
proof (induction rule: rtranclp_induct)
  case (step y z)
  then show ?case using race_inv_step [OF step(2) step(3) assms(3-5)] by blast
qed (rule assms(2))

text \<open>No thread is stuck before it is done.\<close>

lemma race_progress:
  assumes I: "race_inv c k hb sb N S A xs (ps, st)" and d: "distinct xs" "set xs \<subseteq> A" and cf: "\<not> CFREELIST c"
    and i: "i < length ps" "ps ! i \<noteq> Finished"
  shows "\<exists>p st'. race_step env c (ps, st) (ps[i := p], st') \<and> p \<noteq> ps ! i"
proof (cases "ps ! i")
  case (Checking a)
  from check_effect [OF I d i(1) Checking, of env] obtain sh bag item st' where
    "free_check env c a st = Inr ((sh, bag, item), st')" by blast
  from race_step.check [OF i(1) Checking this] show ?thesis using Checking by (intro exI [of _ "Inserting sh bag item"]) auto
next
  case (Inserting sh bag item)
  obtain t b where bag: "bag = (t, b)" by (cases bag)
  from insert_effect [OF I d cf i(1) Inserting [unfolded bag]] obtain st' where
    "\<forall>ti. release_slot c ti t b item sh st = Inr st'" by blast
  then have "release_slot c 0 t b item sh st = Inr st'" by blast
  from race_step.insert [OF i(1) Inserting [unfolded bag] this, of env] show ?thesis
    using i(2) by (intro exI [of _ Finished]) auto
qed (use i in simp)

end
