(* ===== verification/Simulation.thy ===== *)
theory Simulation
  imports FGPrelude
begin

text \<open>
  Runs of labelled steps, some of them silent, and the lifting of a step-wise simulation to runs.  The locale
  \<open>simulation\<close> is the interface between a concrete step relation and an abstract specification of it; the models of
  concurrent calls interpret it.
\<close>

inductive run :: "('s \<Rightarrow> 'l option \<Rightarrow> 's \<Rightarrow> bool) \<Rightarrow> 's \<Rightarrow> 'l list \<Rightarrow> 's \<Rightarrow> bool" for step x where
  start: "run step x [] x"
| silent: "run step x tr y \<Longrightarrow> step y None z \<Longrightarrow> run step x tr z"
| visible: "run step x tr y \<Longrightarrow> step y (Some l) z \<Longrightarrow> run step x (tr @ [l]) z"

inductive spec_run :: "('a \<Rightarrow> 'l \<Rightarrow> 'a \<Rightarrow> bool) \<Rightarrow> 'a \<Rightarrow> 'l list \<Rightarrow> 'a \<Rightarrow> bool" for spec A where
  spec_start: "spec_run spec A [] A"
| spec_more: "spec_run spec A tr B \<Longrightarrow> spec B l C \<Longrightarrow> spec_run spec A (tr @ [l]) C"

text \<open>A silent step leaves the view of the state alone, a visible one is a step of the specification.\<close>

definition simulates :: "('a \<Rightarrow> 'l \<Rightarrow> 'a \<Rightarrow> bool) \<Rightarrow> 'a \<Rightarrow> 'l option \<Rightarrow> 'a \<Rightarrow> bool" where
  "simulates spec A l B = (case l of None \<Rightarrow> B = A | Some e \<Rightarrow> spec A e B)"

lemma simulates_simps [simp]: "simulates spec A None B \<longleftrightarrow> B = A" "simulates spec A (Some e) B \<longleftrightarrow> spec A e B"
  by (simp_all add: simulates_def)

locale simulation =
  fixes step :: "'s \<Rightarrow> 'l option \<Rightarrow> 's \<Rightarrow> bool"
    and spec :: "'a \<Rightarrow> 'l \<Rightarrow> 'a \<Rightarrow> bool"
    and ok :: "'s \<Rightarrow> bool"
    and view :: "'s \<Rightarrow> 'a"
  assumes keeps: "step x l y \<Longrightarrow> ok x \<Longrightarrow> ok y"
    and steps: "step x l y \<Longrightarrow> ok x \<Longrightarrow> simulates spec (view x) l (view y)"
begin

lemma run_ok: "run step x tr y \<Longrightarrow> ok x \<Longrightarrow> ok y"
  by (induction rule: run.induct) (auto dest: keeps)

lemma run_refines: "run step x tr y \<Longrightarrow> ok x \<Longrightarrow> spec_run spec (view x) tr (view y)"
proof (induction rule: run.induct)
  case start
  show ?case by (rule spec_start)
next
  case (silent tr y z)
  then show ?case using steps [OF silent(2) run_ok [OF silent(1)]] by simp
next
  case (visible tr y l z)
  then show ?case using steps [OF visible(2) run_ok [OF visible(1)]] by (auto intro: spec_more)
qed

end

end
