(* ===== verification/HeapRace.thy ===== *)
theory HeapRace
  imports FreeRace Simulation
begin

text \<open>
  Concurrent requests and frees of small objects.

  Thread \<open>i\<close> serves its requests from the bags with its own index; any thread may free any object.  A request is two
  atomic steps, \<open>pick_object\<close> (the free list is read under the lock of the bag, the bump pointer is only used by its
  thread) and \<open>mark_allocated\<close>; a free is \<open>free_check\<close> and \<open>release_slot\<close>, which holds the lock.  \<open>heap_race\<close>
  interleaves the steps of all threads with writes of the program to any byte.  \<open>race_ok\<close>: what is true in every
  interleaving; \<open>race_ok_step\<close>: each step keeps it and is a step of the abstract allocator, or leaves it alone.
\<close>

section \<open>The steps\<close>

datatype pc = Idle | Marking nat addr | Releasing addr "nat \<times> nat" nat

lemma allocateSmallObject_steps:
  "allocateSmallObject env c rnd t sz st =
    (let b = unat (getBagNum (geom st) (class_size (if USE_CANARY c then sz + 1 else sz)))
     in bindE (pick_object env c rnd t b st) (\<lambda>(ptr, st1). mark_allocated env c t b ptr st1))"
  by (simp only: allocateSmallObject_def Let_def)

text \<open>A program frees an object once: a thread does not start to free an object that another one is freeing (what
  happens otherwise is \<open>concurrent_double_free\<close>).\<close>

inductive heap_race ::
  "env \<Rightarrow> build \<Rightarrow> ('r \<Rightarrow> u32 \<times> 'r) \<Rightarrow> nat \<Rightarrow> addr \<Rightarrow> addr \<Rightarrow> pc list \<times> 'r bibop \<Rightarrow> label option \<Rightarrow> pc list \<times> 'r bibop \<Rightarrow> bool"
  for env c rnd k hb sb
where
  pick: "i < length ps \<Longrightarrow> ps ! i = Idle \<Longrightarrow> need c (unat (sz :: size_t)) \<le> 2 ^ large_shift c \<Longrightarrow>
    b = class_bag (need c (unat sz)) \<Longrightarrow> bump_room c k hb st i b \<Longrightarrow>
    pick_object env c rnd i b st = Inr (ptr, st') \<Longrightarrow>
    heap_race env c rnd k hb sb (ps, st) None (ps[i := Marking b ptr], st')"
| mark: "i < length ps \<Longrightarrow> ps ! i = Marking b ptr \<Longrightarrow>
    mark_allocated env c i b ptr st = Inr (seq_addr c k hb i b s n, st') \<Longrightarrow> item_ok c i b s \<Longrightarrow> in_room c k b s n \<Longrightarrow>
    heap_race env c rnd k hb sb (ps, st) (Some (Alloc i b (i, b, s, n))) (ps[i := Idle], st')"
| check: "i < length ps \<Longrightarrow> ps ! i = Idle \<Longrightarrow> item_ok c t b s \<Longrightarrow> in_room c k b s n \<Longrightarrow>
    free_check env c (seq_addr c k hb t b s n) st = Inr ((shadowinfo, bag, item), st') \<Longrightarrow>
    Releasing shadowinfo bag item \<notin> set ps \<Longrightarrow>
    heap_race env c rnd k hb sb (ps, st) None (ps[i := Releasing shadowinfo bag item], st')"
| release: "i < length ps \<Longrightarrow> ps ! i = Releasing (seq_slot c k sb t b s n) (t, b) s \<Longrightarrow> in_room c k b s n \<Longrightarrow>
    release_slot c ti t b s (seq_slot c k sb t b s n) st = Inr st' \<Longrightarrow>
    heap_race env c rnd k hb sb (ps, st) (Some (Free (t, b, s, n))) (ps[i := Idle], st')"
| user: "heap_race env c rnd k hb sb (ps, st) (Some Write) (ps, st\<lparr> bytes := f \<rparr>)"

section \<open>The invariant\<close>

text \<open>An object between its two steps: used up by the bump pointer, on no list, and not live.\<close>

definition in_transit :: "build \<Rightarrow> nat \<Rightarrow> addr \<Rightarrow> bump_map \<Rightarrow> (addr \<Rightarrow> addr list) \<Rightarrow> obj set \<Rightarrow> 'r bibop \<Rightarrow> obj \<Rightarrow> bool" where
  "in_transit c k sb N L S st x = (case x of (t, b, s, n) \<Rightarrow> item_ok c t b s \<and> in_room c k b s n \<and> n < N t b s \<and>
     x \<notin> S \<and> x \<notin> live c k sb st \<and> (\<forall>h\<in>pool_headers c (threadBagAddr st). seq_slot c k sb t b s n \<notin> set (L h)))"

definition pc_holds ::
  "build \<Rightarrow> nat \<Rightarrow> addr \<Rightarrow> addr \<Rightarrow> bump_map \<Rightarrow> (addr \<Rightarrow> addr list) \<Rightarrow> obj set \<Rightarrow> 'r bibop \<Rightarrow> nat \<Rightarrow> pc \<Rightarrow> bool"
where
  "pc_holds c k hb sb N L S st i p = (case p of
     Idle \<Rightarrow> True
   | Marking b ptr \<Rightarrow> (\<exists>s n. ptr = seq_addr c k hb i b s n \<and> in_transit c k sb N L S st (i, b, s, n))
   | Releasing x (t, b) s \<Rightarrow> (\<exists>n. x = seq_slot c k sb t b s n \<and> (t, b, s, n) \<in> live c k sb st))"

definition no_shared_release :: "pc list \<Rightarrow> bool" where
  "no_shared_release ps \<longleftrightarrow> (\<forall>i<length ps. \<forall>j<length ps. ps ! i = ps ! j \<longrightarrow> i \<noteq> j \<longrightarrow> (\<forall>x bag s. ps ! i \<noteq> Releasing x bag s))"

definition race_ok ::
  "build \<Rightarrow> nat \<Rightarrow> addr \<Rightarrow> addr \<Rightarrow> bump_map \<Rightarrow> (addr \<Rightarrow> addr list) \<Rightarrow> obj set \<Rightarrow> pc list \<times> 'r bibop \<Rightarrow> bool"
where
  "race_ok c k hb sb N L S = (\<lambda>(ps, st). length ps \<le> MAX_ALIVE_THREADS \<and> heap_inv c k hb sb N L S st \<and>
     (\<forall>i<length ps. pc_holds c k hb sb N L S st i (ps ! i)) \<and> no_shared_release ps)"

lemma race_okD:
  assumes "race_ok c k hb sb N L S (ps, st)"
  shows "length ps \<le> MAX_ALIVE_THREADS" "heap_inv c k hb sb N L S st"
    "i < length ps \<Longrightarrow> pc_holds c k hb sb N L S st i (ps ! i)" "no_shared_release ps"
  using assms by (simp_all add: race_ok_def)

lemma pc_holds_simps [simp]:
  "pc_holds c k hb sb N L S st i Idle"
  "pc_holds c k hb sb N L S st i (Marking b ptr) \<longleftrightarrow>
    (\<exists>s n. ptr = seq_addr c k hb i b s n \<and> in_transit c k sb N L S st (i, b, s, n))"
  "pc_holds c k hb sb N L S st i (Releasing x (t, b) s) \<longleftrightarrow>
    (\<exists>n. x = seq_slot c k sb t b s n \<and> (t, b, s, n) \<in> live c k sb st)"
  by (simp_all add: pc_holds_def)

lemma no_shared_release_update:
  assumes "no_shared_release ps" "i < length ps"
    and "\<And>x bag s. p = Releasing x bag s \<Longrightarrow> p \<notin> set ps"
  shows "no_shared_release (ps[i := p])"
  unfolding no_shared_release_def
proof (intro allI impI notI)
  fix j j' x bag s
  assume j: "j < length (ps[i := p])" "j' < length (ps[i := p])" "ps[i := p] ! j = ps[i := p] ! j'" "j \<noteq> j'"
    "ps[i := p] ! j = Releasing x bag s"
  show False
  proof (cases "j = i \<or> j' = i")
    case True
    then have "p = Releasing x bag s" "p \<in> set ps" using j assms(2) by (auto simp: nth_list_update split: if_splits)
    then show False using assms(3) by blast
  next
    case False
    then have "ps ! j = ps ! j'" "ps ! j = Releasing x bag s" "j < length ps" "j' < length ps" using j by simp_all
    then show False using j(4) assms(1) unfolding no_shared_release_def by metis
  qed
qed

text \<open>The new state of one thread, and what its step may do to the others.\<close>

lemma race_okI:
  assumes I: "race_ok c k hb sb N L S (ps, st)" and i: "i < length ps"
    and inv: "heap_inv c k hb sb N' L' S' st'" and p: "pc_holds c k hb sb N' L' S' st' i p"
    and rel: "\<And>x bag s. p = Releasing x bag s \<Longrightarrow> p \<notin> set ps"
    and transit: "\<And>j b s n. j \<noteq> i \<Longrightarrow> in_transit c k sb N L S st (j, b, s, n) \<Longrightarrow> in_transit c k sb N' L' S' st' (j, b, s, n)"
    and live: "\<And>t b s n. (t, b, s, n) \<in> live c k sb st \<Longrightarrow> (t, b, s, n) \<notin> live c k sb st' \<Longrightarrow>
      ps ! i = Releasing (seq_slot c k sb t b s n) (t, b) s"
  shows "race_ok c k hb sb N' L' S' (ps[i := p], st')"
proof -
  have "pc_holds c k hb sb N' L' S' st' j (ps[i := p] ! j)" if "j < length ps" for j
  proof (cases "j = i")
    case True
    then show ?thesis using p i by simp
  next
    case False
    have pj: "pc_holds c k hb sb N L S st j (ps ! j)" by (rule race_okD(3) [OF I that])
    have "pc_holds c k hb sb N' L' S' st' j (ps ! j)"
    proof (cases "ps ! j")
      case (Marking b ptr)
      obtain s n where "ptr = seq_addr c k hb j b s n" "in_transit c k sb N L S st (j, b, s, n)" using pj Marking by auto
      with transit [OF False, of b s n] have "pc_holds c k hb sb N' L' S' st' j (Marking b ptr)" unfolding pc_holds_simps by blast
      then show ?thesis using Marking by simp
    next
      case (Releasing x bag s)
      obtain t b where bag: "bag = (t, b)" by (cases bag)
      obtain n where n: "x = seq_slot c k sb t b s n" "(t, b, s, n) \<in> live c k sb st" using pj Releasing bag by auto
      have "(t, b, s, n) \<in> live c k sb st'"
      proof (rule ccontr)
        assume "(t, b, s, n) \<notin> live c k sb st'"
        then have "ps ! i = ps ! j" using live [OF n(2)] Releasing bag n(1) by simp
        then show False using race_okD(4) [OF I] that i False Releasing unfolding no_shared_release_def by metis
      qed
      then show ?thesis using Releasing bag n(1) by auto
    qed simp
    then show ?thesis using False by simp
  qed
  then show ?thesis unfolding race_ok_def prod.case
    using race_okD(1) [OF I] inv no_shared_release_update [OF race_okD(4) [OF I] i rel] by simp
qed

section \<open>The steps keep it\<close>

lemma picked_transit:
  assumes "picked c k hb sb t b st s n st' N' L' S'"
  shows "in_transit c k sb N' L' S' st' (t, b, s, n)"
  using assms by (simp add: picked_def in_transit_def)

lemma in_transit_grows:
  assumes "in_transit c k sb N L S st (t, b, s, n)" "grows N S N' S'" "only_removed c (threadBagAddr st) L L'"
    and "live c k sb st' = live c k sb st" "threadBagAddr st' = threadBagAddr st"
  shows "in_transit c k sb N' L' S' st' (t, b, s, n)"
proof -
  have n: "n < N t b s" "(t, b, s, n) \<notin> S" using assms(1) by (simp_all add: in_transit_def)
  have "N t b s \<le> N' t b s" using assms(2) by (simp add: grows_def)
  moreover have "(t, b, s, n) \<notin> S'" using n assms(2) unfolding grows_def by force
  ultimately show ?thesis using assms n unfolding in_transit_def only_removed_def prod.case by auto
qed

lemma pick_ok:
  assumes I: "race_ok c k hb sb N L S (ps, st)" and i: "i < length ps" "ps ! i = Idle"
    and b: "b < usable_bags c" and room: "bump_room c k hb st i b"
  shows "\<exists>ptr st' N' L' S'. pick_object env c rnd i b st = Inr (ptr, st') \<and>
    race_ok c k hb sb N' L' S' (ps[i := Marking b ptr], st') \<and> live c k sb st' = live c k sb st"
proof -
  note D = race_okD [OF I]
  have bi: "bags_inv c k hb sb N st" using D(2) by (simp add: heap_inv_def)
  have t: "i < MAX_ALIVE_THREADS" using D(1) i(1) by simp
  have "has_room c k N i b" by (rule bump_room_has_room [OF bi room t b])
  then have r: "in_room c k b s (N i b s + 2 + page_objs b)" if "s < BIBOP_BAG_SET_SIZE" for s
    using that unfolding has_room_def by blast
  obtain s n st' N' L' S' where run: "pick_object env c rnd i b st = Inr (seq_addr c k hb i b s n, st')"
    and p: "picked c k hb sb i b st s n st' N' L' S'"
    and g: "grows N S N' S'" "only_removed c (threadBagAddr st) L L'"
    using pick_object_ok [OF D(2) t b r, of env rnd] by blast
  have st': "heap_inv c k hb sb N' L' S' st'" "live c k sb st' = live c k sb st" "threadBagAddr st' = threadBagAddr st"
    using p by (simp_all add: picked_def)
  have "race_ok c k hb sb N' L' S' (ps[i := Marking b (seq_addr c k hb i b s n)], st')"
  proof (rule race_okI [OF I i(1) st'(1)])
    show "pc_holds c k hb sb N' L' S' st' i (Marking b (seq_addr c k hb i b s n))" using picked_transit [OF p] by auto
  qed (use in_transit_grows [OF _ g st'(2,3)] st'(2) in auto)
  with run st'(2) show ?thesis by blast
qed

lemma mark_ok:
  assumes I: "race_ok c k hb sb N L S (ps, st)" and i: "i < length ps" "ps ! i = Marking b ptr"
  shows "\<exists>s n st'. ptr = seq_addr c k hb i b s n \<and> mark_allocated env c i b ptr st = Inr (ptr, st') \<and>
    item_ok c i b s \<and> in_room c k b s n \<and> race_ok c k hb sb N L S (ps[i := Idle], st') \<and>
    (i, b, s, n) \<notin> live c k sb st \<and> live c k sb st' = insert (i, b, s, n) (live c k sb st)"
proof -
  note D = race_okD [OF I]
  obtain s n where a: "ptr = seq_addr c k hb i b s n" and tr: "in_transit c k sb N L S st (i, b, s, n)"
    using D(3) [OF i(1)] i(2) by auto
  note tr' = tr [unfolded in_transit_def prod.case]
  obtain st' where st': "mark_allocated env c i b ptr st = Inr (ptr, st')" "heap_inv c k hb sb N L S st'"
    "live c k sb st' = insert (i, b, s, n) (live c k sb st)" "threadBagAddr st' = threadBagAddr st"
    using mark_allocated_ok [OF D(2), of i b s n env] tr' unfolding a by blast
  have "race_ok c k hb sb N L S (ps[i := Idle], st')"
    by (rule race_okI [OF I i(1) st'(2)]) (auto simp: st'(3,4) in_transit_def)
  then show ?thesis using a st'(1,3) tr' by blast
qed

lemma check_ok:
  assumes I: "race_ok c k hb sb N L S (ps, st)" and i: "i < length ps" "ps ! i = Idle"
    and o: "item_ok c t b s" "in_room c k b s n"
    and run: "free_check env c (seq_addr c k hb t b s n) st = Inr ((x, bag, item), st')"
    and new: "Releasing x bag item \<notin> set ps"
  shows "race_ok c k hb sb N L S (ps[i := Releasing x bag item], st') \<and> live c k sb st' = live c k sb st"
proof -
  note D = race_okD [OF I]
  have bi: "bags_inv c k hb sb N st" using D(2) by (simp add: heap_inv_def)
  let ?st = "st\<lparr> bytes := zeroed (seq_addr c k hb t b s n) (erased c b) (bytes st) \<rparr>"
  have l: "(t, b, s, n) \<in> live c k sb st"
    using run o unfolding free_check_def find_object [OF bi o] bindE_simps prod.case
    by (auto simp: live_def isObjectFree_def split: if_splits)
  then have nf: "\<not> isObjectFree (snext (lists st) (seq_slot c k sb t b s n))" by (simp add: live_def isObjectFree_def)
  have e: "x = seq_slot c k sb t b s n" "bag = (t, b)" "item = s" "st' = ?st"
    using run unfolding free_check_def find_object [OF bi o] bindE_simps prod.case if_not_P [OF nf] Let_def
      check_canaries_eq [OF D(2) l] verdict_def [symmetric] destroy_ok [OF D(2) l]
    by (cases "verdict c k hb sb st t b s n"; simp)+
  note d = destroy_inv [OF D(2), of "zeroed (seq_addr c k hb t b s n) (erased c b) (bytes st)"]
  have "race_ok c k hb sb N L S (ps[i := Releasing x bag item], ?st)"
    by (rule race_okI [OF I i(1) d(1)]) (use new l d(2) e in \<open>auto simp: in_transit_def\<close>)
  then show ?thesis using d(2) e(4) by simp
qed

lemma release_ok:
  assumes I: "race_ok c k hb sb N L S (ps, st)" and cf: "\<not> CFREELIST c"
    and i: "i < length ps" "ps ! i = Releasing (seq_slot c k sb t b s n) (t, b) s" and r: "in_room c k b s n"
  shows "\<exists>st' L'. (\<forall>ti. release_slot c ti t b s (seq_slot c k sb t b s n) st = Inr st') \<and>
    race_ok c k hb sb N L' S (ps[i := Idle], st') \<and> (t, b, s, n) \<in> live c k sb st \<and>
    live c k sb st' = live c k sb st - {(t, b, s, n)}"
proof -
  note D = race_okD [OF I]
  have bi: "bags_inv c k hb sb N st" using D(2) by (simp add: heap_inv_def)
  have k: "bag_shift_ok c k" using bi by (simp add: bags_inv_def)
  have slot: "seq_slot c k sb t' b' s' m = seq_slot c k sb t b s n \<longleftrightarrow> (t', b', s', m) = (t, b, s, n)"
    if "item_ok c t b s" "item_ok c t' b' s'" "in_room c k b' s' m" for t' b' s' m
    using seq_slot_inj [OF k, of t' t b' b s' s m n sb] that r by (auto simp: item_ok_def BIBOP_BAG_SET_SIZE_def)
  obtain m where m: "seq_slot c k sb t b s m = seq_slot c k sb t b s n" "(t, b, s, m) \<in> live c k sb st"
    using D(3) [OF i(1)] i(2) by auto
  have o: "item_ok c t b s" "in_room c k b s m" using m(2) by (simp_all add: live_def)
  then have l: "(t, b, s, n) \<in> live c k sb st" using slot [OF o(1) o] m by simp
  let ?h = "freelist_addr c (threadBagAddr st) t b s"
  obtain st' ys where st': "release_slot c 0 t b s (seq_slot c k sb t b s n) st = Inr st'"
    "heap_inv c k hb sb N (L(?h := ys)) S st'" "mset ys = add_mset (seq_slot c k sb t b s n) (mset (L ?h))"
    "live c k sb st' = live c k sb st - {(t, b, s, n)}" "threadBagAddr st' = threadBagAddr st"
    using release_slot_ok [OF D(2) l cf, of 0] by blast
  have sy: "set ys = insert (seq_slot c k sb t b s n) (set (L ?h))" using st'(3) by (metis set_mset_add_mset_insert set_mset_mset)
  have "release_slot c ti t b s (seq_slot c k sb t b s n) st = Inr st'" for ti
    using st'(1) cf by (simp add: release_slot_def Let_def)
  moreover have "race_ok c k hb sb N (L(?h := ys)) S (ps[i := Idle], st')"
  proof (rule race_okI [OF I i(1) st'(2)])
    fix j b' s' m' assume tr: "in_transit c k sb N L S st (j, b', s', m')"
    then have ne: "(j, b', s', m') \<noteq> (t, b, s, n)" using l by (auto simp: in_transit_def)
    then have "seq_slot c k sb j b' s' m' \<noteq> seq_slot c k sb t b s n"
      using slot [OF o(1)] tr by (auto simp: in_transit_def)
    then show "in_transit c k sb N (L(?h := ys)) S st' (j, b', s', m')"
      using tr unfolding in_transit_def prod.case st'(4,5) by (auto simp: sy)
  next
    fix t' b' s' m' assume "(t', b', s', m') \<in> live c k sb st" "(t', b', s', m') \<notin> live c k sb st'"
    then show "ps ! i = Releasing (seq_slot c k sb t' b' s' m') (t', b') s'" using i(2) st'(4) by auto
  qed simp_all
  ultimately show ?thesis using l st'(4) by blast
qed

lemma user_ok:
  assumes I: "race_ok c k hb sb N L S (ps, st)"
  shows "race_ok c k hb sb N L S (ps, st\<lparr> bytes := f \<rparr>) \<and> live c k sb (st\<lparr> bytes := f \<rparr>) = live c k sb st"
proof -
  note D = race_okD [OF I] and d = destroy_inv [OF race_okD(2) [OF I], of f]
  have tr: "in_transit c k sb N L S (st\<lparr> bytes := f \<rparr>) x = in_transit c k sb N L S st x" for x
    using d(2) by (simp add: in_transit_def split: prod.splits)
  have "pc_holds c k hb sb N L S (st\<lparr> bytes := f \<rparr>) i p = pc_holds c k hb sb N L S st i p" for i p
    unfolding pc_holds_def tr d(2) ..
  then show ?thesis using D d by (simp add: race_ok_def)
qed

section \<open>Runs\<close>

lemma race_ok_step:
  assumes "heap_race env c rnd k hb sb x l y" and "race_ok c k hb sb N L S x" and "\<not> CFREELIST c"
  shows "(\<exists>N' L' S'. race_ok c k hb sb N' L' S' y) \<and>
    simulates abs_step (live c k sb (snd x)) l (live c k sb (snd y))"
  using assms(1)
proof cases
  case (pick i ps sz b st ptr st')
  have b: "b < usable_bags c" using pick by (simp add: class_bag_usable)
  show ?thesis using pick_ok [OF assms(2) [unfolded pick(1)] pick(4,5) b pick(8), of env rnd] pick by auto
next
  case (mark i ps b ptr st s n st')
  obtain s' n' st'' where r: "ptr = seq_addr c k hb i b s' n'" "mark_allocated env c i b ptr st = Inr (ptr, st'')"
    "item_ok c i b s'" "in_room c k b s' n'" "race_ok c k hb sb N L S (ps[i := Idle], st'')"
    "(i, b, s', n') \<notin> live c k sb st" "live c k sb st'' = insert (i, b, s', n') (live c k sb st)"
    using mark_ok [OF assms(2) [unfolded mark(1)] mark(4,5), of env] by blast
  have same: "seq_addr c k hb i b s n = seq_addr c k hb i b s' n'" "st' = st''" using r(1,2) mark by simp_all
  have "bag_shift_ok c k" using race_okD(2) [OF assms(2) [unfolded mark(1)]] by (simp add: heap_inv_def bags_inv_def)
  from seq_addr_inj [OF this mark(7) r(3) mark(8) r(4) same(1)] show ?thesis
    using r(5-7) mark same(2) by (auto intro: abs_alloc)
next
  case (check i ps t b s n st shadowinfo bag item st')
  from check_ok [OF assms(2) [unfolded check(1)] check(4-9)] show ?thesis unfolding check(1-3) by (simp only: snd_conv simulates_simps) blast
next
  case (release i ps t b s n ti st st')
  then show ?thesis using release_ok [OF assms(2) [unfolded release(1)] assms(3) release(4-6)] by (auto intro: abs_free)
next
  case (user ps st f)
  then show ?thesis using user_ok [OF assms(2) [unfolded user(1)]] by (auto intro: abs_write)
qed

definition race_safe :: "build \<Rightarrow> nat \<Rightarrow> addr \<Rightarrow> addr \<Rightarrow> pc list \<times> 'r bibop \<Rightarrow> bool" where
  "race_safe c k hb sb x \<longleftrightarrow> \<not> CFREELIST c \<and> (\<exists>N L S. race_ok c k hb sb N L S x)"

lemma race_safe_step:
  assumes "heap_race env c rnd k hb sb x l y" "race_safe c k hb sb x"
  shows "race_safe c k hb sb y" "simulates abs_step (live c k sb (snd x)) l (live c k sb (snd y))"
proof -
  obtain N L S where I: "\<not> CFREELIST c" "race_ok c k hb sb N L S x" using assms(2) by (auto simp: race_safe_def)
  show "race_safe c k hb sb y" "simulates abs_step (live c k sb (snd x)) l (live c k sb (snd y))"
    using race_ok_step [OF assms(1) I(2,1)] I(1) by (simp_all add: race_safe_def)
qed

interpretation hr: simulation "heap_race env c rnd k hb sb" abs_step "race_safe c k hb sb" "\<lambda>x. live c k sb (snd x)"
  for env c rnd k hb sb
  by unfold_locales (rule race_safe_step, assumption, assumption)+

text \<open>A thread in the middle of a call can always finish it with its next step.\<close>

lemma race_finishes:
  assumes I: "race_ok c k hb sb N L S (ps, st)" and cf: "\<not> CFREELIST c" and i: "i < length ps" "ps ! i \<noteq> Idle"
  shows "\<exists>l st'. heap_race env c rnd k hb sb (ps, st) (Some l) (ps[i := Idle], st')"
proof (cases "ps ! i")
  case (Marking b ptr)
  from mark_ok [OF I i(1) this, of env] obtain s n st' where r: "mark_allocated env c i b ptr st = Inr (seq_addr c k hb i b s n, st')"
    "item_ok c i b s" "in_room c k b s n" by blast
  from heap_race.mark [OF i(1) Marking r, of rnd sb] show ?thesis by blast
next
  case (Releasing x bag s)
  obtain t b where bag: "bag = (t, b)" by (cases bag)
  obtain n where n: "x = seq_slot c k sb t b s n" "(t, b, s, n) \<in> live c k sb st"
    using race_okD(3) [OF I i(1)] Releasing bag by auto
  have p: "ps ! i = Releasing (seq_slot c k sb t b s n) (t, b) s" using Releasing bag n by simp
  have r: "in_room c k b s n" using n(2) by (simp add: live_def)
  from release_ok [OF I cf i(1) p r] obtain st' where "release_slot c 0 t b s (seq_slot c k sb t b s n) st = Inr st'" by blast
  from heap_race.release [OF i(1) p r this, of env rnd hb] show ?thesis by blast
qed (use i in simp)

end
