(* ===== verification/ThreadRace.thy ===== *)
theory ThreadRace
  imports XThreadInv Simulation
begin

text \<open>
  Concurrent calls of \<open>thread_create\<close> and \<open>thread_join\<close>.

  The global lock is held while an index is chosen, while the identifier of a new thread is entered and while a joined
  index is released; the calls of the C library happen outside of it.  \<open>thread_create\<close> is three atomic steps
  (\<open>allocThreadIndex\<close>, \<open>create_spawn\<close>, \<open>create_register\<close>) and \<open>thread_join\<close> two (\<open>join_wait\<close>,
  \<open>join_release\<close>); \<open>thread_race\<close> interleaves the steps of any number of callers with the first steps of the new
  threads.  \<open>tables_ok\<close> is true in every interleaving in which a thread is joined after its creator is done.
\<close>

section \<open>The steps\<close>

definition create_spawn ::
  "env \<Rightarrow> build \<Rightarrow> addr \<Rightarrow> addr \<Rightarrow> addr \<Rightarrow> int \<Rightarrow> xthread \<Rightarrow> fg_error + (u32 \<times> addr) \<times> xthread"
where
  "create_spawn env c stackArea fn arg tindex xt1 =
    bindE (getThread tindex xt1) (\<lambda>children.
      let xt2 = setThread tindex (children\<lparr> startArg := arg, startRoutine := fn, t_index := tindex \<rparr>) xt1;
          (stack, stackSize) = thread_stack c stackArea tindex;
          (result, tr1) = ext env (Real_pthread_create stack stackSize (nat tindex)) (x_calls xt2)
      in if (ucast result :: u32) \<noteq> 0 then Inl Thread_create_failed
         else let (tid, tr2) = ext env Created_pthread_t tr1 in Inr ((ucast result, tid), xt2\<lparr> x_calls := tr2 \<rparr>))"

definition create_register :: "env \<Rightarrow> build \<Rightarrow> int \<Rightarrow> addr \<Rightarrow> xthread \<Rightarrow> fg_error + xthread" where
  "create_register env c tindex tid xt =
    bindE (getThread tindex xt) (\<lambda>children.
      let xt1 = setThread tindex (children\<lparr> pthreadt := tid \<rparr>) xt
      in bindE (hm_insertIfAbsent env c tid sizeof_pointer (of_int tindex) (x_map xt1) (x_calls xt1))
           (\<lambda>(isFound, hm, tr). Inr (xt1\<lparr> x_map := hm, x_calls := tr \<rparr>)))"

lemma thread_create_steps:
  "thread_create env c stackArea fn arg xt =
    bindE (allocThreadIndex xt) (\<lambda>(tindex, xt1).
    bindE (create_spawn env c stackArea fn arg tindex xt1) (\<lambda>((result, tid), xt2).
    bindE (create_register env c tindex tid xt2) (\<lambda>xt3. Inr ((result, tid), xt3))))"
  by (auto simp: thread_create_def create_spawn_def create_register_def bindE_def getThread_def setThread_def ext_def
      Let_def split: sum.splits prod.splits if_splits)

definition join_wait :: "env \<Rightarrow> addr \<Rightarrow> xthread \<Rightarrow> u32 \<times> xthread" where
  "join_wait env tid xt = (let (r, tr) = ext env (Real_pthread_join tid) (x_calls xt) in (ucast r, xt\<lparr> x_calls := tr \<rparr>))"

definition join_release :: "build \<Rightarrow> addr \<Rightarrow> xthread \<Rightarrow> fg_error + xthread" where
  "join_release c tid xt =
    bindE (hm_find c tid sizeof_pointer (x_map xt)) (\<lambda>found.
    bindE (case found of
             None \<Rightarrow> Inr xt
           | Some joinee \<Rightarrow> bindE (getThread (sint joinee) xt) (\<lambda>t.
               Inr (setThread (sint joinee) (t\<lparr> available := True \<rparr>) xt)))
      (\<lambda>xt1. Inr (xt1\<lparr> x_aliveThreads := x_aliveThreads xt1 - 1 \<rparr>)))"

lemma thread_join_steps:
  "thread_join env c tid xt =
    (let (r, xt1) = join_wait env tid xt in if r = 0 then bindE (join_release c tid xt1) (\<lambda>xt2. Inr (r, xt2)) else Inr (r, xt1))"
  by (auto simp: thread_join_def join_wait_def join_release_def bindE_def ext_def Let_def split: sum.splits option.splits)

section \<open>Interleavings\<close>

text \<open>What a caller is doing, with the index and the identifier of the thread that it creates or joins.\<close>

datatype thread_pc = At_rest | Spawning nat | Registering nat addr | Reaping nat addr

fun claimed :: "thread_pc \<Rightarrow> nat option" where
  "claimed At_rest = None"
| "claimed (Spawning i) = Some i"
| "claimed (Registering i tid) = Some i"
| "claimed (Reaping i tid) = Some i"

fun unregistered :: "thread_pc \<Rightarrow> addr option" where
  "unregistered (Registering i tid) = Some tid"
| "unregistered p = None"

datatype index_label = Take nat | Give nat

text \<open>The C library does not reuse the identifiers that the table knows (\<open>reused_id_frees_wrong_index\<close> is what
  happens otherwise), its \<open>malloc\<close> returns new memory, and the program joins a thread once, after the call that has
  created it (see \<open>early_join_leaks_index\<close>).\<close>

inductive thread_race ::
  "env \<Rightarrow> build \<Rightarrow> addr \<Rightarrow> thread_pc list \<times> xthread \<Rightarrow> index_label option \<Rightarrow> thread_pc list \<times> xthread \<Rightarrow> bool"
  for env c stackArea
where
  alloc: "j < length ps \<Longrightarrow> ps ! j = At_rest \<Longrightarrow> allocThreadIndex xt = Inr (int i, xt') \<Longrightarrow>
    thread_race env c stackArea (ps, xt) (Some (Take i)) (ps[j := Spawning i], xt')"
| spawn: "j < length ps \<Longrightarrow> ps ! j = Spawning i \<Longrightarrow>
    create_spawn env c stackArea fn arg (int i) xt = Inr ((0, tid), xt') \<Longrightarrow>
    hm_alpha (x_map xt) (tid, sizeof_pointer) = None \<Longrightarrow> Some tid \<notin> unregistered ` set ps \<Longrightarrow>
    thread_race env c stackArea (ps, xt) None (ps[j := Registering i tid], xt')"
| register: "j < length ps \<Longrightarrow> ps ! j = Registering i tid \<Longrightarrow>
    fresh_node (x_map xt) (env (Real_malloc (of_nat sizeof_Entry) # x_calls xt)) \<Longrightarrow>
    key_fits (x_map xt) tid sizeof_pointer \<Longrightarrow> create_register env c (int i) tid xt = Inr xt' \<Longrightarrow>
    thread_race env c stackArea (ps, xt) None (ps[j := At_rest], xt')"
| begin_thread: "i \<in> busy xt \<Longrightarrow> Spawning i \<notin> set ps \<Longrightarrow> initializeCurrentThread env (int i) xt = Inr xt' \<Longrightarrow>
    thread_race env c stackArea (ps, xt) None (ps, xt')"
| wait: "j < length ps \<Longrightarrow> ps ! j = At_rest \<Longrightarrow> i \<in> busy xt \<Longrightarrow> Some i \<notin> claimed ` set ps \<Longrightarrow>
    pthreadt (x_threads xt ! i) = tid \<Longrightarrow> join_wait env tid xt = (0, xt') \<Longrightarrow>
    thread_race env c stackArea (ps, xt) None (ps[j := Reaping i tid], xt')"
| release: "j < length ps \<Longrightarrow> ps ! j = Reaping i tid \<Longrightarrow> join_release c tid xt = Inr xt' \<Longrightarrow>
    thread_race env c stackArea (ps, xt) (Some (Give i)) (ps[j := At_rest], xt')"

text \<open>The specification: the set of the indices in use.\<close>

inductive index_spec :: "nat set \<Rightarrow> index_label \<Rightarrow> nat set \<Rightarrow> bool" where
  "i < MAX_ALIVE_THREADS \<Longrightarrow> i \<notin> U \<Longrightarrow> (\<forall>k<i. k \<in> U) \<Longrightarrow> index_spec U (Take i) (insert i U)"
| "i \<in> U \<Longrightarrow> index_spec U (Give i) (U - {i})"

section \<open>The invariant\<close>

definition once :: "('p \<Rightarrow> 'k option) \<Rightarrow> 'p list \<Rightarrow> bool" where
  "once f ps \<longleftrightarrow> (\<forall>j<length ps. \<forall>k<length ps. f (ps ! j) = f (ps ! k) \<longrightarrow> f (ps ! j) \<noteq> None \<longrightarrow> j = k)"

lemma once_other:
  assumes "once f ps" "j < length ps" "k < length ps" "k \<noteq> j" "f (ps ! k) \<noteq> None"
  shows "f (ps ! k) \<noteq> f (ps ! j)"
  using assms unfolding once_def by metis

lemma once_update:
  assumes "once f ps" "j < length ps" "f p = None \<or> f p = f (ps ! j) \<or> f p \<notin> f ` set ps"
  shows "once f (ps[j := p])"
  unfolding once_def
proof (intro allI impI)
  fix a b assume ab: "a < length (ps[j := p])" "b < length (ps[j := p])" "f (ps[j := p] ! a) = f (ps[j := p] ! b)"
    "f (ps[j := p] ! a) \<noteq> None"
  have only: "f (ps ! k) \<noteq> f p" if "k < length ps" "k \<noteq> j" "f p \<noteq> None" for k
  proof
    assume e: "f (ps ! k) = f p"
    have "f (ps ! k) \<in> f ` set ps" using that(1) by simp
    then show False using assms(3) once_other [OF assms(1,2) that(1,2)] that(3) e by auto
  qed
  show "a = b"
  proof (cases "a = j \<or> b = j")
    case True
    then show ?thesis using ab only [of a] only [of b] by (auto simp: nth_list_update split: if_splits)
  next
    case False
    then show ?thesis using ab assms(1) unfolding once_def by auto
  qed
qed

definition registered :: "xthread \<Rightarrow> nat \<Rightarrow> bool" where
  "registered xt i \<longleftrightarrow> hm_alpha (x_map xt) (pthreadt (x_threads xt ! i), sizeof_pointer) = Some (of_nat i)"

definition creating :: "thread_pc \<Rightarrow> nat \<Rightarrow> bool" where
  "creating p i \<longleftrightarrow> p = Spawning i \<or> (\<exists>tid. p = Registering i tid)"

definition pc_fits :: "xthread \<Rightarrow> thread_pc \<Rightarrow> bool" where
  "pc_fits xt p = (case p of
     At_rest \<Rightarrow> True
   | Spawning i \<Rightarrow> i \<in> busy xt
   | Registering i tid \<Rightarrow> i \<in> busy xt \<and> hm_alpha (x_map xt) (tid, sizeof_pointer) = None
   | Reaping i tid \<Rightarrow> i \<in> busy xt \<and> pthreadt (x_threads xt ! i) = tid \<and> registered xt i)"

lemma pc_fits_simps [simp]:
  "pc_fits xt (Spawning i) \<longleftrightarrow> i \<in> busy xt"
  "pc_fits xt (Registering i tid) \<longleftrightarrow> i \<in> busy xt \<and> hm_alpha (x_map xt) (tid, sizeof_pointer) = None"
  "pc_fits xt (Reaping i tid) \<longleftrightarrow> i \<in> busy xt \<and> pthreadt (x_threads xt ! i) = tid \<and> registered xt i"
  "pc_fits xt At_rest"
  by (simp_all add: pc_fits_def)

lemma claimed_None: "claimed p = None \<longleftrightarrow> p = At_rest"
  by (cases p) simp_all

definition tables_ok :: "thread_pc list \<times> xthread \<Rightarrow> bool" where
  "tables_ok = (\<lambda>(ps, xt). slots_ok xt \<and> hm_inv (x_map xt) \<and> (\<forall>p\<in>set ps. pc_fits xt p) \<and>
     once claimed ps \<and> once unregistered ps \<and> (\<forall>i\<in>busy xt. registered xt i \<or> (\<exists>p\<in>set ps. creating p i)))"

lemma tables_okD:
  assumes "tables_ok (ps, xt)"
  shows "slots_ok xt" "hm_inv (x_map xt)" "p \<in> set ps \<Longrightarrow> pc_fits xt p" "once claimed ps" "once unregistered ps"
    "i \<in> busy xt \<Longrightarrow> registered xt i \<or> (\<exists>p\<in>set ps. creating p i)"
  using assms by (auto simp: tables_ok_def)

lemma tables_okI:
  assumes I: "tables_ok (ps, xt)" and j: "j < length ps" and S: "slots_ok xt'" "hm_inv (x_map xt')"
    and p: "pc_fits xt' p" "claimed p = None \<or> claimed p = claimed (ps ! j) \<or> claimed p \<notin> claimed ` set ps"
      "unregistered p = None \<or> unregistered p \<notin> unregistered ` set ps"
    and others: "\<And>q. q \<in> set ps \<Longrightarrow> pc_fits xt q \<Longrightarrow> claimed q \<noteq> None \<Longrightarrow> claimed q \<noteq> claimed (ps ! j) \<Longrightarrow>
      (unregistered q \<noteq> None \<longrightarrow> unregistered q \<noteq> unregistered (ps ! j)) \<Longrightarrow> pc_fits xt' q"
    and reg: "\<And>i. i \<in> busy xt' \<Longrightarrow> creating p i \<or> registered xt' i \<or>
      (i \<in> busy xt \<and> \<not> creating (ps ! j) i \<and> (registered xt i \<longrightarrow> registered xt' i))"
  shows "tables_ok (ps[j := p], xt')"
  unfolding tables_ok_def prod.case
proof (intro conjI ballI S)
  note D = tables_okD [OF I]
  show "once claimed (ps[j := p])" "once unregistered (ps[j := p])"
    using D(4,5) j p(2,3) by (auto intro!: once_update)
  fix q assume "q \<in> set (ps[j := p])"
  then obtain k where k: "k < length ps" "q = ps[j := p] ! k" by (metis in_set_conv_nth length_list_update)
  show "pc_fits xt' q"
  proof (cases "k = j \<or> claimed q = None")
    case True
    then show ?thesis using k p(1) by (auto simp: claimed_None)
  next
    case False
    then have q: "q = ps ! k" "k \<noteq> j" "claimed (ps ! k) \<noteq> None" using k by auto
    have "unregistered (ps ! k) \<noteq> None \<Longrightarrow> unregistered (ps ! k) \<noteq> unregistered (ps ! j)"
      using once_other [OF D(5) j k(1) q(2)] by blast
    then show ?thesis using others [of q] D(3) [of q] once_other [OF D(4) j k(1) q(2,3)] q k(1) by auto
  qed
next
  note D = tables_okD [OF I]
  fix i assume i: "i \<in> busy xt'"
  have pin: "p \<in> set (ps[j := p])" using j by (rule set_update_memI)
  from reg [OF i] consider "creating p i" | "registered xt' i" |
    "i \<in> busy xt" "\<not> creating (ps ! j) i" "registered xt i \<longrightarrow> registered xt' i" by blast
  then show "registered xt' i \<or> (\<exists>p\<in>set (ps[j := p]). creating p i)"
  proof cases
    case 3
    show ?thesis
    proof (cases "registered xt i")
      case False
      then obtain q where q: "q \<in> set ps" "creating q i" using D(6) 3(1) by blast
      then obtain k where k: "k < length ps" "ps ! k = q" by (auto simp: in_set_conv_nth)
      then have "k \<noteq> j" using 3(2) q(2) by auto
      then have "q \<in> set (ps[j := p])" using k by (metis length_list_update nth_list_update_neq nth_mem)
      then show ?thesis using q(2) by blast
    qed (use 3 in blast)
  qed (use pin in blast)+
qed

section \<open>The steps keep it\<close>

text \<open>A call changes one entry of the array, and keeps whether it is available.\<close>

lemma setThread_taken:
  assumes S: "slots_ok xt" and i: "i \<in> busy xt" and t: "\<not> available t"
    and x: "x_threads xt' = (x_threads xt)[i := t]" "x_threadIndex xt' = x_threadIndex xt" "x_aliveThreads xt' = x_aliveThreads xt"
  shows "slots_ok xt'" "busy xt' = busy xt"
proof -
  note u = slots_ok_update [OF S i t]
  have e: "x_threads xt' = x_threads (setThread (int i) t xt)" using x by (simp add: setThread_def)
  show "slots_ok xt'" using u(1) slots_ok_cong [OF e] x by simp
  show "busy xt' = busy xt" using u(2) busy_cong [OF e] by simp
qed

lemma getThread_busy:
  assumes "slots_ok xt" "i \<in> busy xt"
  shows "getThread (int i) xt = Inr (x_threads xt ! i)" "\<not> available (x_threads xt ! i)" "i < length (x_threads xt)"
  using assms by (auto simp: getThread_def busy_def slots_ok_def)

lemma spawn_effect:
  assumes S: "slots_ok xt" and i: "i \<in> busy xt"
    and run: "create_spawn env c stackArea fn arg (int i) xt = Inr ((r, tid), xt')"
  shows "slots_ok xt'" "busy xt' = busy xt" "x_map xt' = x_map xt"
    "x_threads xt' = (x_threads xt)[i := (x_threads xt ! i)\<lparr> startArg := arg, startRoutine := fn, t_index := int i \<rparr>]"
proof -
  let ?t = "(x_threads xt ! i)\<lparr> startArg := arg, startRoutine := fn, t_index := int i \<rparr>"
  note g = getThread_busy [OF S i]
  have e: "x_threads xt' = (x_threads xt)[i := ?t]" "x_threadIndex xt' = x_threadIndex xt"
    "x_aliveThreads xt' = x_aliveThreads xt" "x_map xt' = x_map xt"
    using run unfolding create_spawn_def g(1) by (auto simp: Let_def ext_def setThread_def split: prod.splits if_splits)
  show "x_map xt' = x_map xt" "x_threads xt' = (x_threads xt)[i := ?t]" by (rule e)+
  show "slots_ok xt'" "busy xt' = busy xt" using setThread_taken [OF S i _ e(1-3)] g(2) by simp_all
qed

lemma begin_effect:
  assumes S: "slots_ok xt" and i: "i \<in> busy xt" and run: "initializeCurrentThread env (int i) xt = Inr xt'"
  shows "slots_ok xt'" "busy xt' = busy xt" "x_map xt' = x_map xt"
    "\<exists>n. x_threads xt' = (x_threads xt)[i := (x_threads xt ! i)\<lparr> t_tid := n \<rparr>]"
proof -
  note g = getThread_busy [OF S i]
  obtain n where e: "x_threads xt' = (x_threads xt)[i := (x_threads xt ! i)\<lparr> t_tid := n \<rparr>]" "x_threadIndex xt' = x_threadIndex xt"
    "x_aliveThreads xt' = x_aliveThreads xt" "x_map xt' = x_map xt"
    using run unfolding initializeCurrentThread_def g(1) by (auto simp: Let_def ext_def setThread_def split: prod.splits)
  show "x_map xt' = x_map xt" "\<exists>n. x_threads xt' = (x_threads xt)[i := (x_threads xt ! i)\<lparr> t_tid := n \<rparr>]" using e by blast+
  show "slots_ok xt'" "busy xt' = busy xt" using setThread_taken [OF S i _ e(1-3)] g(2) by simp_all
qed

lemma register_effect:
  assumes S: "slots_ok xt" "hm_inv (x_map xt)" and i: "i \<in> busy xt"
    and new: "hm_alpha (x_map xt) (tid, sizeof_pointer) = None"
    and room: "fresh_node (x_map xt) (env (Real_malloc (of_nat sizeof_Entry) # x_calls xt))" "key_fits (x_map xt) tid sizeof_pointer"
  shows "\<exists>xt'. create_register env c (int i) tid xt = Inr xt' \<and> slots_ok xt' \<and> hm_inv (x_map xt') \<and> busy xt' = busy xt \<and>
    x_threads xt' = (x_threads xt)[i := (x_threads xt ! i)\<lparr> pthreadt := tid \<rparr>] \<and> x_aliveThreads xt' = x_aliveThreads xt \<and>
    hm_alpha (x_map xt') = (hm_alpha (x_map xt))((tid, sizeof_pointer) \<mapsto> of_nat i)"
proof -
  note g = getThread_busy [OF S(1) i]
  note ins = hm_insertIfAbsent_absent [where env = env and tr = "x_calls xt", OF S(2) new room(2,1)]
    and iok = hm_insert_ok [where env = env and tr = "x_calls xt", OF S(2) new room(2,1)]
  define xt1 where "xt1 = setThread (int i) ((x_threads xt ! i)\<lparr> pthreadt := tid \<rparr>) xt"
  have x1: "x_map xt1 = x_map xt" "x_calls xt1 = x_calls xt" by (simp_all add: xt1_def)
  obtain tr where run: "create_register env c (int i) tid xt = Inr (xt1\<lparr> x_map := inserted tid sizeof_pointer (of_nat i)
      (env (Real_malloc (of_nat sizeof_Entry) # x_calls xt)) (x_map xt), x_calls := tr \<rparr>)"
    using ins [of c "of_nat i"] unfolding create_register_def g(1) bindE_simps Let_def xt1_def [symmetric] x1 by auto
  let ?xt' = "xt1\<lparr> x_map := inserted tid sizeof_pointer (of_nat i)
      (env (Real_malloc (of_nat sizeof_Entry) # x_calls xt)) (x_map xt), x_calls := tr \<rparr>"
  have e: "x_threads ?xt' = (x_threads xt)[i := (x_threads xt ! i)\<lparr> pthreadt := tid \<rparr>]" "x_threadIndex ?xt' = x_threadIndex xt"
    "x_aliveThreads ?xt' = x_aliveThreads xt" by (simp_all add: xt1_def setThread_def)
  have "slots_ok ?xt'" "busy ?xt' = busy xt" using setThread_taken [OF S(1) i _ e] g(2) by simp_all
  then show ?thesis using run e iok(2,3) by (intro exI [of _ ?xt']) simp
qed

lemma release_effect:
  assumes S: "slots_ok xt" "hm_inv (x_map xt)" and i: "i \<in> busy xt"
    and f: "hm_alpha (x_map xt) (tid, sizeof_pointer) = Some (of_nat i)"
  shows "\<exists>xt'. join_release c tid xt = Inr xt' \<and> slots_ok xt' \<and> busy xt' = busy xt - {i} \<and> x_map xt' = x_map xt \<and>
    (\<forall>k. k \<noteq> i \<longrightarrow> x_threads xt' ! k = x_threads xt ! k)"
proof -
  have j: "i < MAX_ALIVE_THREADS" using i by (simp add: busy_def)
  have sj: "sint (of_nat i :: u32) = int i" by (rule sint_of_nat_less) (use j in \<open>simp add: MAX_ALIVE_THREADS_def\<close>)
  define xt' where "xt' = (setThread (int i) ((x_threads xt ! i)\<lparr> available := True \<rparr>) xt)\<lparr> x_aliveThreads := x_aliveThreads xt - 1 \<rparr>"
  have run: "join_release c tid xt = Inr xt'"
    unfolding join_release_def hm_find_ok [OF S(2)] f by (simp add: sj getThread_busy(1) [OF S(1) i] xt'_def)
  have t: "x_threads xt' = (x_threads xt)[i := (x_threads xt ! i)\<lparr> available := True \<rparr>]" by (simp add: xt'_def setThread_def)
  have b: "busy xt' = busy xt - {i}" using busy_update [OF _ j t] S(1) by (simp add: slots_ok_def)
  have "0 < card (busy xt)" using i card_gt_0_iff [of "busy xt"] by auto
  then have "slots_ok xt'" using S(1) i unfolding slots_ok_def b by (auto simp: xt'_def setThread_def)
  then show ?thesis using run b t by (intro exI [of _ xt']) (simp add: xt'_def)
qed

lemma pc_busy: "pc_fits xt q \<Longrightarrow> claimed q = Some k \<Longrightarrow> k \<in> busy xt"
  by (cases q) auto

text \<open>A call that only changes the entry \<open>i\<close> of the array, which no other caller claims.\<close>

lemma others_fit:
  assumes "pc_fits xt q" and "claimed q \<noteq> Some i" and "x_map xt' = x_map xt" and "busy xt - {i} \<subseteq> busy xt'"
    and "\<forall>k. k \<noteq> i \<longrightarrow> x_threads xt' ! k = x_threads xt ! k"
  shows "pc_fits xt' q"
  using assms by (cases q) (auto simp: registered_def)

lemma alloc_ok:
  assumes I: "tables_ok (ps, xt)" and j: "j < length ps" "ps ! j = At_rest" and run: "allocThreadIndex xt = Inr (int i, xt')"
  shows "tables_ok (ps[j := Spawning i], xt') \<and> index_spec (busy xt) (Take i) (busy xt')"
proof -
  note D = tables_okD [OF I]
  have room: "card (busy xt) < MAX_ALIVE_THREADS"
    using allocThreadIndex_full [OF D(1)] run busy_card_le [of xt] by (auto simp: le_less)
  have e: "i = next_index xt" "slots_ok xt'" "busy xt' = insert i (busy xt)" "i \<notin> busy xt" "x_threads xt' = taken i xt" "x_map xt' = x_map xt"
    using allocThreadIndex_ok [OF D(1) room] run by auto
  have len: "length (x_threads xt) = MAX_ALIVE_THREADS" using D(1) by (simp add: slots_ok_def)
  have other: "x_threads xt' ! k = x_threads xt ! k" if "k \<noteq> i" for k using that by (simp add: e(5) taken_def)
  have pt: "pthreadt (x_threads xt' ! k) = pthreadt (x_threads xt ! k)" for k
    using next_index_below(2) [OF D(1) room] len by (cases "k = i") (simp_all add: e(1,5) taken_def nth_list_update)
  have nc: "claimed q \<noteq> Some i" if "q \<in> set ps" for q using pc_busy [OF D(3) [OF that]] e(4) by blast
  have "tables_ok (ps[j := Spawning i], xt')"
  proof (rule tables_okI [OF I j(1) e(2)])
    show "hm_inv (x_map xt')" using D(2) e(6) by simp
    show "pc_fits xt' (Spawning i)" by (simp add: e(3))
    show "claimed (Spawning i) = None \<or> claimed (Spawning i) = claimed (ps ! j) \<or> claimed (Spawning i) \<notin> claimed ` set ps"
      using nc by force
    show "pc_fits xt' q" if "q \<in> set ps" "pc_fits xt q" for q
      by (rule others_fit [OF that(2) nc [OF that(1)] e(6)]) (use e(3) other in auto)
    show "creating (Spawning i) k \<or> registered xt' k \<or>
        k \<in> busy xt \<and> \<not> creating (ps ! j) k \<and> (registered xt k \<longrightarrow> registered xt' k)" if "k \<in> busy xt'" for k
      using that e(3) j(2) by (auto simp: creating_def registered_def pt e(6))
  qed simp
  moreover have "index_spec (busy xt) (Take i) (busy xt')"
    unfolding e(3) using next_index_least(1) [OF len] next_index_below(2) [OF D(1) room] e(1,4) by (intro index_spec.intros) auto
  ultimately show ?thesis by blast
qed

lemma spawn_ok:
  assumes I: "tables_ok (ps, xt)" and j: "j < length ps" "ps ! j = Spawning i"
    and run: "create_spawn env c stackArea fn arg (int i) xt = Inr ((r, tid), xt')"
    and new: "hm_alpha (x_map xt) (tid, sizeof_pointer) = None" "Some tid \<notin> unregistered ` set ps"
  shows "tables_ok (ps[j := Registering i tid], xt') \<and> busy xt' = busy xt"
proof -
  note D = tables_okD [OF I]
  have i: "i \<in> busy xt" using D(3) [OF nth_mem [OF j(1)]] j(2) by simp
  note e = spawn_effect [OF D(1) i run]
  have pt: "pthreadt (x_threads xt' ! k) = pthreadt (x_threads xt ! k)" for k
    using getThread_busy(3) [OF D(1) i] by (cases "k = i") (simp_all add: e(4) nth_list_update)
  have "tables_ok (ps[j := Registering i tid], xt')"
  proof (rule tables_okI [OF I j(1) e(1)])
    show "hm_inv (x_map xt')" using D(2) e(3) by simp
    show "pc_fits xt' (Registering i tid)" using i new(1) e(2,3) by simp
    show "unregistered (Registering i tid) = None \<or> unregistered (Registering i tid) \<notin> unregistered ` set ps" using new(2) by simp
    show "pc_fits xt' q" if "q \<in> set ps" "pc_fits xt q" "claimed q \<noteq> claimed (ps ! j)" for q
      by (rule others_fit [OF that(2) _ e(3)]) (use that(3) j(2) e(2,4) in auto)
  qed (use j(2) e(2,3) pt in \<open>auto simp: creating_def registered_def\<close>)
  then show ?thesis using e(2) by simp
qed

lemma begin_ok:
  assumes I: "tables_ok (ps, xt)" and i: "i \<in> busy xt" and run: "initializeCurrentThread env (int i) xt = Inr xt'"
  shows "tables_ok (ps, xt') \<and> busy xt' = busy xt"
proof -
  note D = tables_okD [OF I]
  note e = begin_effect [OF D(1) i run]
  obtain n where n: "x_threads xt' = (x_threads xt)[i := (x_threads xt ! i)\<lparr> t_tid := n \<rparr>]" using e(4) by blast
  have pt: "pthreadt (x_threads xt' ! k) = pthreadt (x_threads xt ! k)" for k
    using getThread_busy(3) [OF D(1) i] by (cases "k = i") (simp_all add: n nth_list_update)
  have "registered xt' k = registered xt k" for k by (simp add: registered_def e(3) pt)
  moreover from this have "pc_fits xt' q = pc_fits xt q" for q by (cases q) (simp_all add: e(2,3) pt)
  ultimately show ?thesis using I e(1-3) by (simp add: tables_ok_def)
qed

lemma register_ok:
  assumes I: "tables_ok (ps, xt)" and j: "j < length ps" "ps ! j = Registering i tid"
    and room: "fresh_node (x_map xt) (env (Real_malloc (of_nat sizeof_Entry) # x_calls xt))" "key_fits (x_map xt) tid sizeof_pointer"
  shows "\<exists>xt'. create_register env c (int i) tid xt = Inr xt' \<and> tables_ok (ps[j := At_rest], xt') \<and> busy xt' = busy xt"
proof -
  note D = tables_okD [OF I]
  have i: "i \<in> busy xt" "hm_alpha (x_map xt) (tid, sizeof_pointer) = None" using D(3) [OF nth_mem [OF j(1)]] j(2) by simp_all
  obtain xt' where e: "create_register env c (int i) tid xt = Inr xt'" "slots_ok xt'" "hm_inv (x_map xt')" "busy xt' = busy xt"
    "x_threads xt' = (x_threads xt)[i := (x_threads xt ! i)\<lparr> pthreadt := tid \<rparr>]"
    "hm_alpha (x_map xt') = (hm_alpha (x_map xt))((tid, sizeof_pointer) \<mapsto> of_nat i)"
    using register_effect [where env = env and c = c, OF D(1,2) i room] by blast
  have other: "registered xt' k" if "registered xt k" "k \<noteq> i" for k
  proof -
    have "pthreadt (x_threads xt ! k) \<noteq> tid" using that(1) i(2) by (auto simp: registered_def)
    then show ?thesis using that by (simp add: registered_def e(5,6))
  qed
  have own: "registered xt' i" using getThread_busy(3) [OF D(1) i(1)] by (simp add: registered_def e(5,6))
  have "tables_ok (ps[j := At_rest], xt')"
  proof (rule tables_okI [OF I j(1) e(2,3)])
    fix q assume q: "pc_fits xt q" "claimed q \<noteq> claimed (ps ! j)"
      "unregistered q \<noteq> None \<longrightarrow> unregistered q \<noteq> unregistered (ps ! j)"
    show "pc_fits xt' q" using q j(2) other by (cases q) (auto simp: e(4-6))
  next
    fix k assume "k \<in> busy xt'"
    then show "creating At_rest k \<or> registered xt' k \<or> k \<in> busy xt \<and> \<not> creating (ps ! j) k \<and> (registered xt k \<longrightarrow> registered xt' k)"
      using e(4) own other j(2) by (cases "k = i") (auto simp: creating_def)
  qed simp_all
  then show ?thesis using e(1,4) by blast
qed

lemma wait_ok:
  assumes I: "tables_ok (ps, xt)" and j: "j < length ps" "ps ! j = At_rest" and i: "i \<in> busy xt" "Some i \<notin> claimed ` set ps"
    and tid: "pthreadt (x_threads xt ! i) = tid" and run: "join_wait env tid xt = (0, xt')"
  shows "tables_ok (ps[j := Reaping i tid], xt') \<and> busy xt' = busy xt"
proof -
  note D = tables_okD [OF I]
  have e: "x_threads xt' = x_threads xt" "x_map xt' = x_map xt" "slots_ok xt'" "busy xt' = busy xt"
    using run D(1) slots_ok_cong [of xt' xt] busy_cong [of xt' xt] by (auto simp: join_wait_def ext_def)
  have r: "registered xt' k = registered xt k" for k by (simp add: registered_def e(1,2))
  have "\<not> creating p i" if "p \<in> set ps" for p using i(2) that by (force simp: creating_def)
  then have reg: "registered xt i" using D(6) [OF i(1)] by blast
  have "tables_ok (ps[j := Reaping i tid], xt')"
  proof (rule tables_okI [OF I j(1) e(3)])
    show "hm_inv (x_map xt')" using D(2) e(2) by simp
    show "pc_fits xt' (Reaping i tid)" using i(1) tid reg e r by simp
    show "claimed (Reaping i tid) = None \<or> claimed (Reaping i tid) = claimed (ps ! j) \<or> claimed (Reaping i tid) \<notin> claimed ` set ps"
      using i(2) by simp
    show "pc_fits xt' q" if "pc_fits xt q" for q using that by (cases q) (simp_all add: e r)
  qed (use j(2) e(4) r in \<open>auto simp: creating_def\<close>)
  then show ?thesis using e(4) by simp
qed

lemma release_ok_thread:
  assumes I: "tables_ok (ps, xt)" and j: "j < length ps" "ps ! j = Reaping i tid"
  shows "\<exists>xt'. join_release c tid xt = Inr xt' \<and> tables_ok (ps[j := At_rest], xt') \<and> i \<in> busy xt \<and> busy xt' = busy xt - {i}"
proof -
  note D = tables_okD [OF I]
  have i: "i \<in> busy xt" "hm_alpha (x_map xt) (tid, sizeof_pointer) = Some (of_nat i)"
    using D(3) [OF nth_mem [OF j(1)]] j(2) by (auto simp: registered_def)
  obtain xt' where e: "join_release c tid xt = Inr xt'" "slots_ok xt'" "busy xt' = busy xt - {i}" "x_map xt' = x_map xt"
    "\<forall>k. k \<noteq> i \<longrightarrow> x_threads xt' ! k = x_threads xt ! k"
    using release_effect [OF D(1,2) i, of c] by blast
  have "tables_ok (ps[j := At_rest], xt')"
  proof (rule tables_okI [OF I j(1) e(2)])
    show "hm_inv (x_map xt')" using D(2) e(4) by simp
    show "pc_fits xt' q" if "pc_fits xt q" "claimed q \<noteq> claimed (ps ! j)" for q
      by (rule others_fit [OF that(1) _ e(4)]) (use that(2) j(2) e(3,5) in auto)
  qed (use j(2) e(3-5) in \<open>auto simp: creating_def registered_def\<close>)
  then show ?thesis using e(1,3) i(1) by blast
qed

lemma thread_race_ok:
  assumes "thread_race env c stackArea x l y" and "tables_ok x"
  shows "tables_ok y \<and> simulates index_spec (busy (snd x)) l (busy (snd y))"
  using assms(1)
proof cases
  case (alloc j ps xt i xt')
  then show ?thesis using alloc_ok [OF assms(2) [unfolded alloc(1)]] by simp
next
  case (spawn j ps i fn arg xt tid xt')
  then show ?thesis using spawn_ok [OF assms(2) [unfolded spawn(1)] spawn(4-8)] by simp
next
  case (register j ps i tid xt xt')
  then show ?thesis using register_ok [where env = env and c = c, OF assms(2) [unfolded register(1)] register(4-7)] by auto
next
  case (begin_thread i xt ps xt')
  then show ?thesis using begin_ok [OF assms(2) [unfolded begin_thread(1)] begin_thread(4,6)] by simp
next
  case (wait j ps i xt tid xt')
  then show ?thesis using wait_ok [OF assms(2) [unfolded wait(1)] wait(4-9)] by simp
next
  case (release j ps i tid xt xt')
  then show ?thesis using release_ok_thread [OF assms(2) [unfolded release(1)] release(4,5), of c] by (auto intro: index_spec.intros)
qed

interpretation tr: simulation "thread_race env c stackArea" index_spec tables_ok "\<lambda>x. busy (snd x)" for env c stackArea
  by unfold_locales (use thread_race_ok in blast)+

text \<open>The invariant before the first call and after the last one.\<close>

lemma tables_start:
  assumes "xt_inv xt" shows "tables_ok (replicate m At_rest, xt)"
  using assms by (auto simp: tables_ok_def xt_inv_def registered_def once_def in_set_replicate)

lemma tables_rest:
  assumes "tables_ok (ps, xt)" "set ps \<subseteq> {At_rest}" shows "xt_inv xt"
proof -
  have "\<not> creating p i" if "p \<in> set ps" for p i using assms(2) that by (auto simp: creating_def)
  then show ?thesis using tables_okD [OF assms(1)] by (auto simp: xt_inv_def registered_def)
qed

section \<open>A join that comes too early\<close>

text \<open>The identifier is found in the table only after the creator has entered it: a join before that releases nothing
  but still counts the thread as gone.\<close>

lemma register_counter:
  "create_register env c i tid (xt\<lparr> x_aliveThreads := n \<rparr>) =
    bindE (create_register env c i tid xt) (\<lambda>xt'. Inr (xt'\<lparr> x_aliveThreads := n \<rparr>))"
proof (cases "0 \<le> i \<and> i < int (length (x_threads xt))")
  case True
  then show ?thesis
    by (cases "hm_insertIfAbsent env c tid sizeof_pointer (of_int i) (x_map xt) (x_calls xt)")
      (auto simp: create_register_def getThread_def setThread_def)
qed (auto simp: create_register_def getThread_def)

lemma early_join:
  assumes I: "xt_inv xt" and room: "card (busy xt) < MAX_ALIVE_THREADS"
    and a: "allocThreadIndex xt = Inr (int i, xt1)"
    and s: "create_spawn env c stackArea fn arg (int i) xt1 = Inr ((0, tid), xt2)"
    and new: "hm_alpha (x_map xt) (tid, sizeof_pointer) = None" and w: "join_wait env tid xt2 = (0, xt3)"
    and fr: "fresh_node (x_map xt) (env (Real_malloc (of_nat sizeof_Entry) # x_calls xt3))"
    and kf: "key_fits (x_map xt) tid sizeof_pointer"
  shows "\<exists>xt4 xt5. join_release c tid xt3 = Inr xt4 \<and> create_register env c (int i) tid xt4 = Inr xt5 \<and>
    busy xt5 = insert i (busy xt) \<and> i \<notin> busy xt \<and> x_aliveThreads xt5 = int (card (busy xt5)) - 1"
proof -
  have S: "slots_ok xt" and H: "hm_inv (x_map xt)" using I by (simp_all add: xt_inv_def)
  have e1: "slots_ok xt1" "busy xt1 = insert i (busy xt)" "i \<notin> busy xt" "x_map xt1 = x_map xt"
    using allocThreadIndex_ok [OF S room] a by auto
  then have i: "i \<in> busy xt1" by simp
  note e2 = spawn_effect [OF e1(1) i s]
  have w3: "xt3 = xt2\<lparr> x_calls := x_calls xt3 \<rparr>" using w by (auto simp: join_wait_def ext_def)
  have f3: "x_threads xt3 = x_threads xt2" "x_threadIndex xt3 = x_threadIndex xt2" "x_aliveThreads xt3 = x_aliveThreads xt2"
    "x_map xt3 = x_map xt2" by (subst w3, simp)+
  have e3: "x_map xt3 = x_map xt" "slots_ok xt3" "busy xt3 = busy xt1"
    using f3(4) e2(3) e1(4) slots_ok_cong [OF f3(1-3)] e2(1,2) busy_cong [OF f3(1)] by simp_all
  have none: "hm_find c tid sizeof_pointer (x_map xt3) = Inr None" using hm_find_ok [OF H] new unfolding e3(1) by simp
  define xt4 where "xt4 = xt3\<lparr> x_aliveThreads := x_aliveThreads xt3 - 1 \<rparr>"
  have r4: "join_release c tid xt3 = Inr xt4" by (simp add: join_release_def none xt4_def)
  have i3: "i \<in> busy xt3" using i unfolding e3(3) .
  have h3: "hm_inv (x_map xt3)" "hm_alpha (x_map xt3) (tid, sizeof_pointer) = None"
    "fresh_node (x_map xt3) (env (Real_malloc (of_nat sizeof_Entry) # x_calls xt3))" "key_fits (x_map xt3) tid sizeof_pointer"
    using H new fr kf unfolding e3(1) by simp_all
  obtain xt5 where e5: "create_register env c (int i) tid xt3 = Inr xt5" "slots_ok xt5" "busy xt5 = busy xt3"
    using register_effect [where env = env and c = c, OF e3(2) h3(1) i3 h3(2-4)] by blast
  have x5: "x_aliveThreads xt5 = int (card (busy xt5))" "x_aliveThreads xt3 = int (card (busy xt3))"
    using e5(2) e3(2) unfolding slots_ok_def by blast+
  let ?xt5 = "xt5\<lparr> x_aliveThreads := x_aliveThreads xt3 - 1 \<rparr>"
  have r5: "create_register env c (int i) tid xt4 = Inr ?xt5" unfolding xt4_def register_counter e5(1) by simp
  have b: "busy ?xt5 = insert i (busy xt)" unfolding e1(2) [symmetric] e3(3) [symmetric] e5(3) [symmetric] by (rule busy_cong) simp
  have "x_aliveThreads ?xt5 = int (card (busy ?xt5)) - 1" unfolding b e1(2) [symmetric] e3(3) [symmetric] using x5(2) by simp
  then show ?thesis using r4 r5 b e1(3) by blast
qed

end
