(* ===== verification/RaceProps.thy ===== *)
theory RaceProps
  imports HeapRace ThreadRace ThreadProps BibopExample TableExample
begin

text \<open>
  The properties of concurrent calls, with their concrete inputs: requests and frees in any interleaving, frees of
  different objects, two frees of one object, small or large, and the creation and joining of threads.
\<close>

section \<open>Requests and frees\<close>


lemma example_bump_room:
  assumes "t < MAX_ALIVE_THREADS" shows "bump_room default_build 22 ex_hb example_heap t 1"
  unfolding bump_room_def
proof (intro allI impI)
  fix s assume s: "s < BIBOP_BAG_SET_SIZE"
  have "item_ok default_build t 1 s" using assms s by (simp add: item_ok_def size_defs default_build_def)
  moreover have "bags_inv default_build 22 ex_hb ex_sb (\<lambda>_ _ _. 0) example_heap" using example_inv(1) by (simp only: heap_inv_def)
  ultimately have "bump_at default_build 22 ex_hb t 1 s 0 (get_bag example_heap t 1)" using bags_invD(8) by blast
  then show "\<exists>n. position (get_bag example_heap t 1) ! s = seq_addr default_build 22 ex_hb t 1 s n \<and>
      in_room default_build 22 1 s (n + 2 + page_objs 1)"
    using example_room [of t] s by (auto simp: bump_at_def has_room_def intro!: exI [of _ 0])
qed


section \<open>Different objects\<close>

text \<open>Threads that free different live objects at the same time do not disturb each other: in every
  interleaving of their steps the heap's invariant holds, exactly the objects of the threads that are done are gone, all
  canaries stay intact, and no thread that is not done fails or is stuck.\<close>
lemma concurrent_frees:
  assumes "heap_inv c k hb sb N L S st0" and "intact c k hb sb st0" and "\<not> CFREELIST c"
    and "distinct xs" and "set xs \<subseteq> live c k sb st0"
    and "race_reach env c (map (\<lambda>(t, b, s, n). Checking (seq_addr c k hb t b s n)) xs, st0) (ps, st)"
  shows "(\<exists>L'. heap_inv c k hb sb N L' S st) \<and> intact c k hb sb st \<and>
    live c k sb st = live c k sb st0 - {xs ! i | i. i < length ps \<and> ps ! i = Finished} \<and>
    (\<forall>i<length ps. ps ! i = Finished \<or> (\<exists>p st'. race_step env c (ps, st) (ps[i := p], st') \<and> p \<noteq> ps ! i))"
proof -
  have "race_inv c k hb sb N S (live c k sb st0) xs (map (\<lambda>(t, b, s, n). Checking (seq_addr c k hb t b s n)) xs, st0)"
    using assms(1,2) by (auto simp: race_inv_def pc_ok_def freed_def split: prod.splits)
  from race_inv_reach [OF assms(6) this assms(4,5,3)]
  have I: "race_inv c k hb sb N S (live c k sb st0) xs (ps, st)" .
  moreover have "\<exists>p st'. race_step env c (ps, st) (ps[i := p], st') \<and> p \<noteq> ps ! i"
    if "i < length ps" "ps ! i \<noteq> Finished" for i
    using race_progress [OF I assms(4,5,3) that, of env] .
  ultimately show ?thesis unfolding race_inv_def prod.case freed_def by blast
qed

text \<open>Two live objects with their canaries in place.\<close>

definition example_pair :: "u32 bibop" where
  "example_pair = example_two\<lparr> bytes := \<lambda>_. CANARY_SENTINEL \<rparr>"

lemma example_pair_ok:
  "\<exists>N L S. heap_inv default_build 22 ex_hb ex_sb N L S example_pair"
  "live default_build 22 ex_sb example_pair = {(0, 1, 0, 0), (0, 1, 0, 1)}"
  "intact default_build 22 ex_hb ex_sb example_pair"
proof -
  obtain N L S where h: "heap_inv default_build 22 ex_hb ex_sb N L S example_two" using example_two_inv(1) by blast
  show "\<exists>N L S. heap_inv default_build 22 ex_hb ex_sb N L S example_pair"
    unfolding example_pair_def using destroy_inv(1) [OF h] by blast
  show "live default_build 22 ex_sb example_pair = {(0, 1, 0, 0), (0, 1, 0, 1)}"
    unfolding example_pair_def destroy_inv(2) [OF h] by (rule example_two_inv(2))
  show "intact default_build 22 ex_hb ex_sb example_pair" by (rule intactI) (simp add: example_pair_def)
qed

section \<open>The same object\<close>

text \<open>A node that is its own successor at the head of a list is removed twice.\<close>

lemma remove_twice:
  assumes "FIFO_FREELIST c" "dnext m h = x" "snext m x = x" "x \<noteq> 0"
  shows "\<exists>m1 m2. FREELIST_REMOVE c h m = Some (x, m1) \<and> FREELIST_REMOVE c h (set_next x v m1) = Some (x, m2)"
proof -
  have r: "FREELIST_REMOVE c h m = Some (x, m\<lparr> dnext := (dnext m)(h := x) \<rparr>)"
    using assms by (simp add: FREELIST_REMOVE_def removeDLLHead_def Let_def)
  have "\<exists>m2. FREELIST_REMOVE c h (set_next x v (m\<lparr> dnext := (dnext m)(h := x) \<rparr>)) = Some (x, m2)"
    using assms by (simp add: FREELIST_REMOVE_def removeDLLHead_def Let_def set_next_def)
  then show ?thesis using r by blast
qed

text \<open>C7: Two threads that free the same object at the same time are not told apart from two correct calls: the test for
  a double free comes before the lock, so both can pass it; then both insert the slot, and the free list
  hands out the same object to two later requests.\<close>
theorem concurrent_double_free:
  assumes "heap_inv c k hb sb N L S st" and "(t, b, s, n) \<in> live c k sb st" and "intact c k hb sb st"
    and "\<not> CFREELIST c" and "FIFO_FREELIST c"
    and "IS_FREELIST_EMPTY c (freelist_addr c (threadBagAddr st) t b s) (lists st)"
  shows "\<exists>st' m1 m2. race_reach env c
      ([Checking (seq_addr c k hb t b s n), Checking (seq_addr c k hb t b s n)], st) ([Finished, Finished], st') \<and>
    FREELIST_REMOVE c (freelist_addr c (threadBagAddr st) t b s) (lists st') = Some (seq_slot c k sb t b s n, m1) \<and>
    FREELIST_REMOVE c (freelist_addr c (threadBagAddr st) t b s) (set_next (seq_slot c k sb t b s n) ALLOC_SENTINEL m1) =
      Some (seq_slot c k sb t b s n, m2)"
proof -
  let ?a = "seq_addr c k hb t b s n" and ?x = "seq_slot c k sb t b s n" and ?h = "freelist_addr c (threadBagAddr st) t b s"
  define wipe where "wipe = (\<lambda>u :: 'a bibop. u\<lparr> bytes := zeroed ?a (erased c b) (bytes u) \<rparr>)"
  define ins where "ins = (\<lambda>u :: 'a bibop. u\<lparr> lists := FREELIST_INSERT c ?x ?h (lists u) \<rparr>)"
  have bi: "bags_inv c k hb sb N st" and li: "lists_inv c k sb N L S st" using assms(1) by (simp_all add: heap_inv_def)
  have i: "item_ok c t b s" "in_room c k b s n" using assms(2) by (simp_all add: live_def)
  have x0: "?x \<noteq> 0" using slot_special(1) [OF bags_invD(1,2) [OF bi] i] .
  have hold: "freelist_holds c (lists st) ?h (L ?h)"
    using lists_invD(1) [OF li] pool_header [OF i(1)] unfolding pool_def by blast
  then have "L ?h = []" using fl.empty_iff [OF hold] assms(6) by simp
  then have e: "dnext (lists st) ?h = 0" "dprev (lists st) ?h = 0" using hold assms(5) by (simp_all add: freelist_holds_def holds_dll_def)
  have c1: "free_check env c ?a st = Inr ((?x, (t, b), s), wipe st)"
    unfolding wipe_def by (rule free_check_ok [OF assms(1-3)])
  have h1: "heap_inv c k hb sb N L S (wipe st)" "(t, b, s, n) \<in> live c k sb (wipe st)" "intact c k hb sb (wipe st)"
    unfolding wipe_def using destroy_inv [OF assms(1)] assms(2) erase_intact [OF assms(1-3)] by simp_all
  have c2: "free_check env c ?a (wipe st) = Inr ((?x, (t, b), s), wipe (wipe st))"
    using free_check_ok [OF h1, of env] by (simp add: wipe_def)
  have rel: "release_slot c 0 t b s ?x u = Inr (ins u)" if "threadBagAddr u = threadBagAddr st" for u
    using assms(4) that by (simp add: release_slot_def Let_def ins_def)
  have tb: "threadBagAddr (wipe u) = threadBagAddr u" "threadBagAddr (ins u) = threadBagAddr u" for u
    by (simp_all add: wipe_def ins_def)
  let ?I = "Inserting ?x (t, b) s" and ?st = "ins (ins (wipe (wipe st)))"
  have s1: "race_step env c ([Checking ?a, Checking ?a], st) ([?I, Checking ?a], wipe st)"
    using race_step.check [where i = 0 and ps = "[Checking ?a, Checking ?a]", OF _ _ c1] by simp
  have s2: "race_step env c ([?I, Checking ?a], wipe st) ([?I, ?I], wipe (wipe st))"
    using race_step.check [where i = 1 and ps = "[?I, Checking ?a]", OF _ _ c2] by simp
  have s3: "race_step env c ([?I, ?I], wipe (wipe st)) ([Finished, ?I], ins (wipe (wipe st)))"
    using race_step.insert [where i = 0 and ps = "[?I, ?I]", OF _ _ rel [of "wipe (wipe st)"], of env] by (simp add: tb)
  have s4: "race_step env c ([Finished, ?I], ins (wipe (wipe st))) ([Finished, Finished], ?st)"
    using race_step.insert [where i = 1 and ps = "[Finished, ?I]", OF _ _ rel [of "ins (wipe (wipe st))"], of env] by (simp add: tb)
  have "race_reach env c ([Checking ?a, Checking ?a], st) ([Finished, Finished], ?st)"
    unfolding race_reach_def using s1 s2 s3 s4 by (meson converse_rtranclp_into_rtranclp rtranclp.rtrancl_refl)
  moreover have "lists ?st = insertDLLTail ?x ?h (insertDLLTail ?x ?h (lists st))"
    using assms(5) by (simp add: ins_def wipe_def FREELIST_INSERT_def)
  then have "dnext (lists ?st) ?h = ?x \<and> snext (lists ?st) ?x = ?x" using e x0 by (simp add: insertDLLTail_def Let_def)
  then have "\<exists>m1 m2. FREELIST_REMOVE c ?h (lists ?st) = Some (?x, m1) \<and>
      FREELIST_REMOVE c ?h (set_next ?x ALLOC_SENTINEL m1) = Some (?x, m2)"
    by (intro remove_twice [OF assms(5) _ _ x0]) simp_all
  ultimately show ?thesis by blast
qed

lemma mark_allocated_heads:
  "mark_allocated env c t b p st = Inr (q, st') \<Longrightarrow>
    dnext (lists st') = dnext (lists st) \<and> threadBagAddr st' = threadBagAddr st"
  by (auto simp: mark_allocated_def Let_def bindE_Inr_iff store_slot_def store_byte_def set_next_def split: if_splits)

lemma example_pair_heads:
  "dnext (lists example_pair) = dnext (lists example_heap)" "threadBagAddr example_pair = threadBagAddr example_heap"
  by (auto simp: example_pair_def example_two_def set_bag_def Let_def dest!: mark_allocated_heads split: sum.splits)

lemma example_pair_empty:
  "IS_FREELIST_EMPTY default_build (freelist_addr default_build (threadBagAddr example_pair) 0 1 0) (lists example_pair)"
proof -
  have f: "FIFO_FREELIST default_build" by (simp add: default_build_def)
  have li: "lists_inv default_build 22 ex_sb (\<lambda>_ _ _. 0) (\<lambda>_. []) {} example_heap"
    using example_inv(1) by (simp only: heap_inv_def)
  have "freelist_holds default_build (lists example_heap) (freelist_addr default_build (threadBagAddr example_heap) 0 1 0) []"
    using lists_invD(1) [OF li] pool_header [OF example_item(1)] unfolding pool_def by blast
  then have "dnext (lists example_heap) (freelist_addr default_build (threadBagAddr example_heap) 0 1 0) = 0"
    using f by (simp add: freelist_holds_def holds_dll_def)
  then show ?thesis unfolding IS_FREELIST_EMPTY_def if_P [OF f] isDLLEmpty_def example_pair_heads .
qed

theorem concurrent_double_free_witness:
  "\<exists>st' x m1 m2 h. race_reach example_env default_build
      ([Checking (seq_addr default_build 22 ex_hb 0 1 0 0), Checking (seq_addr default_build 22 ex_hb 0 1 0 0)], example_pair)
      ([Finished, Finished], st') \<and>
    FREELIST_REMOVE default_build h (lists st') = Some (x, m1) \<and>
    FREELIST_REMOVE default_build h (set_next x ALLOC_SENTINEL m1) = Some (x, m2)"
proof -
  obtain N L S where h: "heap_inv default_build 22 ex_hb ex_sb N L S example_pair" using example_pair_ok(1) by blast
  have l: "(0, 1, 0, 0) \<in> live default_build 22 ex_sb example_pair" unfolding example_pair_ok(2) by simp
  have "\<not> CFREELIST default_build" "FIFO_FREELIST default_build" by (simp_all add: default_build_def)
  from concurrent_double_free [OF h l example_pair_ok(3) this example_pair_empty, of example_env] show ?thesis by blast
qed

section \<open>Large objects\<close>

text \<open>\<open>deallocateToBigHeap\<close> in its two parts: the look-up, and what follows, of which only the erasure of the entry holds the
  lock.\<close>

definition big_lookup :: "build \<Rightarrow> addr \<Rightarrow> bigheap \<Rightarrow> fg_error + addr" where
  "big_lookup c ptr bh =
    bindE (hm_find c ptr sizeof_pointer (xmap bh)) (\<lambda>r. case r of None \<Rightarrow> Inl (Invalid_big_free ptr) | Some objStatus \<Rightarrow> Inr objStatus)"

definition big_release :: "env \<Rightarrow> build \<Rightarrow> addr \<Rightarrow> addr \<Rightarrow> bigheap \<Rightarrow> fg_error + bigheap" where
  "big_release env c ptr objStatus bh =
    bindE (hm_erase env c ptr sizeof_pointer (xmap bh) (big_calls bh)) (\<lambda>(isFound, hm, tr1).
      let tr2 = mmapDeallocate env (ob_start bh objStatus) (ob_pageUpSize bh objStatus) tr1;
          tr3 = HeapAllocator_deallocate env objStatus tr2
      in Inr (bh\<lparr> xmap := hm, big_calls := tr3 \<rparr>))"

lemma deallocateToBigHeap_steps:
  "deallocateToBigHeap env c ptr bh = bindE (big_lookup c ptr bh) (\<lambda>ob. big_release env c ptr ob bh)"
  by (cases "hm_find c ptr sizeof_pointer (xmap bh)")
    (auto simp: deallocateToBigHeap_def big_lookup_def big_release_def split: option.splits)



section \<open>Threads\<close>


lemma example_alloc:
  "\<exists>xt1. allocThreadIndex example_threads = Inr (int 1, xt1) \<and> slots_ok xt1 \<and> busy xt1 = {0, 1} \<and>
    x_threads xt1 = taken 1 example_threads \<and> x_map xt1 = x_map example_threads \<and> x_calls xt1 = x_calls example_threads"
proof -
  have S: "slots_ok example_threads" using example_threads(2) by (simp add: xt_inv_def)
  from allocThreadIndex_ok [OF S example_next(2)] show ?thesis
    unfolding example_next(1) example_threads(3) by auto
qed


text \<open>The identifier of a new thread is in the caller's hands, and in the thread's own, before \<open>thread_create\<close>
  enters it into the table: a join in between finds nothing and releases nothing, but decreases the number of live
  threads.  After that the index is taken for ever, and the counter is one too low.\<close>
lemma early_join_leaks_index:
  assumes "xt_inv xt" and "card (busy xt) < MAX_ALIVE_THREADS" and "allocThreadIndex xt = Inr (int i, xt1)"
    and "create_spawn env c stackArea fn arg (int i) xt1 = Inr ((0, tid), xt2)"
    and "hm_alpha (x_map xt) (tid, sizeof_pointer) = None" and "join_wait env tid xt2 = (0, xt3)"
    and "fresh_node (x_map xt) (env (Real_malloc (of_nat sizeof_Entry) # x_calls xt3))" and "key_fits (x_map xt) tid sizeof_pointer"
  shows "\<exists>xt4 xt5. join_release c tid xt3 = Inr xt4 \<and> create_register env c (int i) tid xt4 = Inr xt5 \<and>
    i \<in> busy xt5 \<and> i \<notin> busy xt \<and> x_aliveThreads xt5 = int (card (busy xt5)) - 1 \<and> \<not> slots_ok xt5"
proof -
  from early_join [OF assms] obtain xt4 xt5 where x: "join_release c tid xt3 = Inr xt4" "create_register env c (int i) tid xt4 = Inr xt5"
    "busy xt5 = insert i (busy xt)" "i \<notin> busy xt" "x_aliveThreads xt5 = int (card (busy xt5)) - 1" by blast
  then have "\<not> slots_ok xt5" by (simp add: slots_ok_def)
  then show ?thesis using x by blast
qed

end
