(* ===== verification/ProcessShape.thy ===== *)
theory ProcessShape
  imports ProcessProps
begin

text \<open>
  The shape of the state: the lengths of the arrays and the part of the state that no call changes.

  The model keeps the arrays of the code as lists.  \<open>process_typed\<close> says that an initialised process has them at the lengths
  that the code declares; \<open>process_frame\<close> is the state with everything taken out that a call may change.  Every operation
  keeps the frame, and the types depend on the frame only.  No invariant of the heaps is needed: the lemmas hold for every
  state, every argument and every answer of the operating system.
\<close>

section \<open>The small-object heap\<close>

definition bag_frame :: "PerThreadBag \<Rightarrow> PerThreadBag" where
  "bag_frame bag = bag\<lparr> position := replicate (length (position bag)) 0,
     lastofCurBag := replicate (length (lastofCurBag bag)) 0, ncfree := 0 \<rparr>"

definition heap_frame :: "'r bibop \<Rightarrow> geometry \<times> addr \<times> PerThreadBag list list" where
  "heap_frame st = (geom st, threadBagAddr st, map (map bag_frame) (threadBag st))"

definition bag_typed :: "PerThreadBag \<Rightarrow> bool" where
  "bag_typed bag \<longleftrightarrow> length (position bag) = BIBOP_BAG_SET_SIZE \<and> length (lastofCurBag bag) = BIBOP_BAG_SET_SIZE"

definition bags_typed :: "build \<Rightarrow> PerThreadBag list list \<Rightarrow> bool" where
  "bags_typed c rows \<longleftrightarrow> length rows = MAX_ALIVE_THREADS \<and>
    (\<forall>row\<in>set rows. length row = BIBOP_NUM_BAGS c \<and> (\<forall>bag\<in>set row. bag_typed bag))"

named_theorems frames \<open>what a call leaves alone\<close>

lemma bag_typed_frame [simp]: "bag_typed (bag_frame bag) = bag_typed bag"
  by (simp add: bag_typed_def bag_frame_def)

lemma bags_typed_frame: "bags_typed c (map (map bag_frame) rows) = bags_typed c rows"
  by (simp add: bags_typed_def)

lemma bag_frame_update [simp]:
  "bag_frame (set_position i p bag) = bag_frame bag" "bag_frame (set_last i p bag) = bag_frame bag"
  "bag_frame (bag\<lparr> ncfree := n \<rparr>) = bag_frame bag"
  by (simp_all add: bag_frame_def set_position_def set_last_def)

lemma heap_frame_update [simp]:
  "heap_frame (st\<lparr> lists := m \<rparr>) = heap_frame st" "heap_frame (st\<lparr> bytes := f \<rparr>) = heap_frame st"
  "heap_frame (st\<lparr> calls := tr \<rparr>) = heap_frame st" "heap_frame (st\<lparr> rng := r \<rparr>) = heap_frame st"
  "get_bag (st\<lparr> lists := m \<rparr>) = get_bag st" "get_bag (st\<lparr> calls := tr \<rparr>) = get_bag st" "get_bag (st\<lparr> rng := r \<rparr>) = get_bag st"
  by (simp_all add: heap_frame_def get_bag_def fun_eq_iff)

lemma heap_frame_set_bag:
  assumes "bag_frame bag = bag_frame (get_bag st t b)"
  shows "heap_frame (set_bag t b bag st) = heap_frame st"
proof -
  have "map (map bag_frame) ((threadBag st)[t := (threadBag st ! t)[b := bag]]) = map (map bag_frame) (threadBag st)"
  proof (cases "t < length (threadBag st) \<and> b < length (threadBag st ! t)")
    case True
    then have "map bag_frame ((threadBag st ! t)[b := bag]) = map bag_frame (threadBag st ! t)"
      using assms True list_update_id [of "map bag_frame (threadBag st ! t)" b] by (simp add: map_update get_bag_def)
    then show ?thesis using True list_update_id [of "map (map bag_frame) (threadBag st)" t] by (simp add: map_update)
  qed (auto simp: not_less list_update_beyond)
  then show ?thesis by (simp add: heap_frame_def set_bag_def)
qed

lemma heap_frame_bump [simp]: "heap_frame (incrementBumpPointer env c t b item st) = heap_frame st"
  by (simp add: incrementBumpPointer_def Let_def heap_frame_set_bag)

lemma draw_frame [simp]: "draw rnd st = (r, st1) \<Longrightarrow> heap_frame st1 = heap_frame st \<and> get_bag st1 = get_bag st"
  by (auto simp: draw_def split: prod.splits)

lemma heap_frame_guard: "heap_frame (snd (tryRandomGuardPage env c rnd t b item st)) = heap_frame st"
proof -
  obtain r st1 where d: "draw rnd st = (r, st1)" by fastforce
  from draw_frame [OF d] show ?thesis
    by (simp add: tryRandomGuardPage_def d Let_def heap_frame_set_bag)
qed

lemma heap_frame_bump_allocate: "heap_frame (snd (bump_allocate env c rnd t b item st)) = heap_frame st"
  by (simp add: bump_allocate_def Let_def heap_frame_guard)

lemma pick_object_frame [frames]: "pick_object env c rnd t b st = Inr (p, st1) \<Longrightarrow> heap_frame st1 = heap_frame st"
proof -
  assume r: "pick_object env c rnd t b st = Inr (p, st1)"
  obtain x st0 where d: "draw rnd st = (x, st0)" by fastforce
  have "heap_frame st1 = heap_frame st0"
    using r heap_frame_bump_allocate [of env c rnd t b "unat (x AND of_nat BIBOP_BAG_SET_MASK)" st0]
    by (auto simp: pick_object_def d Let_def split: if_splits option.splits)
  then show ?thesis using draw_frame [OF d] by simp
qed

lemma store_frames [frames]:
  "store_byte env x v st = Inr st1 \<Longrightarrow> heap_frame st1 = heap_frame st"
  "store_slot s a st = Inr st1 \<Longrightarrow> heap_frame st1 = heap_frame st"
  by (auto simp: store_byte_def store_slot_def split: if_splits)

lemma zero_bytes_frame [frames]: "zero_bytes env x n st = Inr st1 \<Longrightarrow> heap_frame st1 = heap_frame st"
  by (induction n arbitrary: x st) (auto simp: bindE_Inr_iff dest: frames)

lemma allocateSmallObject_frame [frames]:
  "allocateSmallObject env c rnd t sz st = Inr (p, st1) \<Longrightarrow> heap_frame st1 = heap_frame st"
  by (auto simp: allocateSmallObject_def mark_allocated_def Let_def bindE_Inr_iff split: if_splits dest!: frames)

lemma release_slot_frame [frames]: "release_slot c ti t b item s st = Inr st1 \<Longrightarrow> heap_frame st1 = heap_frame st"
  by (auto simp: release_slot_def realFreeCurrentList_def Let_def heap_frame_set_bag split: if_splits option.splits)

lemma freeSmallObject_frame [frames]: "freeSmallObject env c ti a st = Inr st1 \<Longrightarrow> heap_frame st1 = heap_frame st"
  by (auto simp: freeSmallObject_def destroyObject_def Let_def bindE_Inr_iff split: if_splits dest!: frames)

section \<open>What initialisation makes\<close>

lemma make_bag_typed: "bag_typed (make_bag ie t b csize sbits o1 o2)"
  by (simp add: make_bag_def bag_typed_def Let_def split_beta)

lemma init_bags_typed:
  "length (fst (init_bags env ie t n b csize sbits acc)) = n \<and>
    (\<forall>bag\<in>set (fst (init_bags env ie t n b csize sbits acc)). bag_typed bag)"
  by (induction n arbitrary: b csize sbits acc) (simp_all add: Let_def split_beta make_bag_typed)

lemma init_thread_typed:
  assumes "nu \<le> BIBOP_NUM_BAGS (ie_build ie)"
  shows "length (fst (init_thread env ie nu t acc)) = BIBOP_NUM_BAGS (ie_build ie) \<and>
    (\<forall>bag\<in>set (fst (init_thread env ie nu t acc)). bag_typed bag)"
  using assms init_bags_typed by (auto simp: init_thread_def Let_def split_beta bag_typed_def zero_bag_def)

lemma init_threads_typed:
  assumes "nu \<le> BIBOP_NUM_BAGS (ie_build ie)"
  shows "length (fst (init_threads env ie nu n t acc)) = n \<and>
    (\<forall>row\<in>set (fst (init_threads env ie nu n t acc)). length row = BIBOP_NUM_BAGS (ie_build ie) \<and> (\<forall>bag\<in>set row. bag_typed bag))"
  using init_thread_typed [OF assms] by (induction n arbitrary: t acc) (simp_all add: Let_def split_beta)

lemma set_shadow_typed:
  "length (set_shadow_steps n m u row) = length row"
  "\<forall>bag\<in>set row. bag_typed bag \<Longrightarrow> x \<in> set (set_shadow_steps n m u row) \<Longrightarrow> bag_typed x"
  by (auto simp: set_shadow_steps_def set_shadow_step_def bag_typed_def dest: in_set_takeD in_set_dropD)

lemma initialize_typed:
  assumes "initialize env c rnd st = Inr (hb, st1)"
  shows "bags_typed c (threadBag st1)"
proof -
  have u: "snd (choose_usable_bags c n) \<le> BIBOP_NUM_BAGS c" for n by (simp add: choose_usable_bags_def Let_def)
  have t: "bags_typed c (map (set_shadow_steps n m w) (fst (init_threads env ie (snd (choose_usable_bags c bs)) MAX_ALIVE_THREADS 0 acc)))"
    if "ie_build ie = c" for n m w ie bs acc
    using init_threads_typed [where ie = ie, unfolded that, OF u, of env bs MAX_ALIVE_THREADS 0 acc] set_shadow_typed
    by (auto simp: bags_typed_def)
  from assms show ?thesis by (auto simp: initialize_def Let_def split_beta bindE_Inr_iff t split: if_splits)
qed

section \<open>The tables and the threads\<close>

definition table_frame :: "('k, 'v) hashmap \<Rightarrow> bool \<times> addr \<times> size_t \<times> ('k \<Rightarrow> 'k \<Rightarrow> size_t \<Rightarrow> bool) \<times> ('k \<Rightarrow> size_t \<Rightarrow> size_t)" where
  "table_frame hm = (hm_initialized hm, hm_entries hm, hm_buckets hm, hm_keycmp hm, hm_hashfunc hm)"

definition table_typed :: "(addr, 'v) hashmap \<Rightarrow> bool" where
  "table_typed hm \<longleftrightarrow> hm_initialized hm \<and> hm_buckets hm = of_nat THREAD_MAP_SIZE \<and> hm_hashfunc hm = hashAddr \<and>
    hm_keycmp hm = compareAddr"

lemma insertEntry_frame [frames]: "insertEntry env first k n v hm tr = Inr (hm1, tr1) \<Longrightarrow> table_frame hm1 = table_frame hm"
  by (auto simp: insertEntry_def createNewEntry_def Entry_initialize_def table_frame_def bindE_Inr_iff Let_def split: if_splits prod.splits)

lemma table_frames [frames]:
  "hm_insert env c k n v hm tr = Inr (hm1, tr1) \<Longrightarrow> table_frame hm1 = table_frame hm"
  "hm_insertIfAbsent env c k n v hm tr = Inr (found, hm1, tr1) \<Longrightarrow> table_frame hm1 = table_frame hm"
  by (auto simp: hm_insert_def hm_insertIfAbsent_def bindE_Inr_iff split: option.splits dest: frames)

lemma hm_erase_frame [frames]: "hm_erase env c k n hm tr = Inr (found, hm1, tr1) \<Longrightarrow> table_frame hm1 = table_frame hm"
  by (auto simp: hm_erase_def bindE_Inr_iff Let_def table_frame_def Entry_erase_def split: option.splits prod.splits)

lemma init_entries_frame [simp]: "table_frame (init_entries n i hm) = table_frame hm"
proof (induction n arbitrary: i hm)
  case (Suc n)
  have "table_frame (HashEntry_initialize e hm) = table_frame hm" for e by (simp add: HashEntry_initialize_def table_frame_def)
  with Suc show ?case by (simp split: option.splits)
qed simp

lemma hm_initialize_typed:
  assumes "hm_initialize env (Some hashAddr) (Some compareAddr) (of_nat THREAD_MAP_SIZE) hm tr = Inr (hm1, tr1)"
  shows "table_typed hm1"
proof -
  have "(of_nat THREAD_MAP_SIZE :: size_t) \<noteq> 0" by (simp add: THREAD_MAP_SIZE_def)
  then obtain hm2 n where "hm1 = (init_entries n 0 hm2)\<lparr> hm_initialized := True \<rparr>" "hm_buckets hm2 = of_nat THREAD_MAP_SIZE"
    "hm_hashfunc hm2 = hashAddr" "hm_keycmp hm2 = compareAddr"
    using assms by (auto simp: hm_initialize_def Let_def split: if_splits prod.splits)
  then show ?thesis using init_entries_frame [of n 0 hm2] by (simp add: table_typed_def table_frame_def)
qed

lemma table_typed_frame: "table_frame hm1 = table_frame hm \<Longrightarrow> table_typed hm1 = table_typed hm"
  by (simp add: table_frame_def table_typed_def)

definition thread_frame :: "xthread \<Rightarrow> int \<times> nat \<times> bool \<times> addr \<times> size_t \<times> (addr \<Rightarrow> addr \<Rightarrow> size_t \<Rightarrow> bool) \<times> (addr \<Rightarrow> size_t \<Rightarrow> size_t)" where
  "thread_frame xt = (x_totalThreads xt, length (x_threads xt), table_frame (x_map xt))"

definition threads_typed :: "xthread \<Rightarrow> bool" where
  "threads_typed xt \<longleftrightarrow> x_totalThreads xt = int MAX_ALIVE_THREADS \<and> length (x_threads xt) = MAX_ALIVE_THREADS \<and> table_typed (x_map xt)"

lemma setThread_frame [simp]: "thread_frame (setThread i t xt) = thread_frame xt"
  by (simp add: setThread_def thread_frame_def)

lemma thread_frame_update [simp]:
  "thread_frame (xt\<lparr> x_calls := tr \<rparr>) = thread_frame xt" "thread_frame (xt\<lparr> x_aliveThreads := n \<rparr>) = thread_frame xt"
  "thread_frame (xt\<lparr> x_threadIndex := n \<rparr>) = thread_frame xt" "thread_frame (xt\<lparr> x_seeds := l \<rparr>) = thread_frame xt"
  by (simp_all add: thread_frame_def)

lemma thread_frame_map: "table_frame hm = table_frame (x_map xt) \<Longrightarrow> thread_frame (xt\<lparr> x_map := hm \<rparr>) = thread_frame xt"
  by (simp add: thread_frame_def)

lemma setThread_map [simp]: "x_map (setThread i t xt) = x_map xt" by (simp add: setThread_def)

lemma allocThreadIndex_frame [frames]: "allocThreadIndex xt = Inr (i, xt1) \<Longrightarrow> thread_frame xt1 = thread_frame xt"
  by (auto simp: allocThreadIndex_def Let_def bindE_Inr_iff split: if_splits)

lemma initializeCurrentThread_frame [frames]: "initializeCurrentThread env i xt = Inr xt1 \<Longrightarrow> thread_frame xt1 = thread_frame xt"
  by (auto simp: initializeCurrentThread_def Let_def bindE_Inr_iff split_beta)

lemma thread_create_frame [frames]:
  "thread_create env c area fn arg xt = Inr (r, xt1) \<Longrightarrow> thread_frame xt1 = thread_frame xt"
  by (auto simp: thread_create_def Let_def bindE_Inr_iff split_beta thread_frame_map split: if_splits dest!: frames)

lemma thread_join_frame [frames]: "thread_join env c tid xt = Inr (r, xt1) \<Longrightarrow> thread_frame xt1 = thread_frame xt"
  by (auto simp: thread_join_def Let_def bindE_Inr_iff split_beta split: if_splits option.splits)

lemma threads_typed_frame: "thread_frame xt1 = thread_frame xt \<Longrightarrow> threads_typed xt1 = threads_typed xt"
  using table_typed_frame [of "x_map xt1" "x_map xt"] by (simp add: threads_typed_def thread_frame_def)

lemma initializeInitialThread_frame [frames]: "initializeInitialThread env c xt = Inr xt1 \<Longrightarrow> thread_frame xt1 = thread_frame xt"
  by (auto simp: initializeInitialThread_def Let_def bindE_Inr_iff split_beta split: if_splits dest!: frames)

lemma xthread_initialize_typed:
  assumes "xthread_initialize env c xt = Inr xt1"
  shows "threads_typed xt1"
proof -
  let ?xt0 = "xt\<lparr> x_aliveThreads := 0, x_threadIndex := 0, x_totalThreads := int MAX_ALIVE_THREADS,
    x_threads := map (\<lambda>i. zero_thread\<lparr> available := True, t_index := int i \<rparr>) [0..<MAX_ALIVE_THREADS] \<rparr>"
  obtain xt2 hm tr tr1 self hm1 tr2 where r: "initializeInitialThread env c ?xt0 = Inr xt2"
    "hm_initialize env (Some hashAddr) (Some compareAddr) (of_nat THREAD_MAP_SIZE) (x_map xt2) (x_calls xt2) = Inr (hm, tr)"
    "hm_insert env c self sizeof_pointer 0 hm tr1 = Inr (hm1, tr2)" "xt1 = xt2\<lparr> x_map := hm1, x_calls := tr2 \<rparr>"
    using assms by (auto simp: xthread_initialize_def Let_def bindE_Inr_iff split_beta)
  have "thread_frame xt2 = thread_frame ?xt0" by (rule initializeInitialThread_frame [OF r(1)])
  then have n: "x_totalThreads xt2 = int MAX_ALIVE_THREADS" "length (x_threads xt2) = MAX_ALIVE_THREADS"
    by (simp_all add: thread_frame_def)
  have "table_typed hm1" using table_typed_frame [OF table_frames(1) [OF r(3)]] hm_initialize_typed [OF r(2)] by simp
  then show ?thesis using n by (simp add: threads_typed_def r(4))
qed

lemma allocateAtBigHeap_frame [frames]:
  "allocateAtBigHeap env c sz bh = Inr (p, bh1) \<Longrightarrow> table_frame (xmap bh1) = table_frame (xmap bh)"
  by (auto simp: allocateAtBigHeap_def Let_def bindE_Inr_iff split_beta split: if_splits dest!: frames)

lemma deallocateToBigHeap_frame [frames]:
  "deallocateToBigHeap env c p bh = Inr bh1 \<Longrightarrow> table_frame (xmap bh1) = table_frame (xmap bh)"
  by (auto simp: deallocateToBigHeap_def Let_def bindE_Inr_iff split_beta split: option.splits dest!: frames)

lemma initBigHeap_typed: "initBigHeap env bh = Inr bh1 \<Longrightarrow> table_typed (xmap bh1)"
  by (auto simp: initBigHeap_def bindE_Inr_iff dest!: hm_initialize_typed)

section \<open>The process\<close>

definition process_frame where
  "process_frame st = (heap_frame (fg_bibop st), table_frame (xmap (fg_big st)), thread_frame (fg_threads st), globalStackAddr st)"

definition process_typed :: "build \<Rightarrow> 'r process \<Rightarrow> bool" where
  "process_typed c st \<longleftrightarrow> (heapInitStatus st = E_HEAP_INIT_DONE \<longrightarrow>
    bags_typed c (threadBag (fg_bibop st)) \<and> table_typed (xmap (fg_big st)) \<and> threads_typed (fg_threads st))"

text \<open>What a call may do: initialise the process, or keep its frame.\<close>

definition keeps_shape :: "build \<Rightarrow> 'r process \<Rightarrow> 'r process \<Rightarrow> bool" where
  "keeps_shape c st st1 \<longleftrightarrow> (process_typed c st \<longrightarrow> process_typed c st1) \<and>
    (heapInitStatus st = E_HEAP_INIT_DONE \<longrightarrow> heapInitStatus st1 = E_HEAP_INIT_DONE \<and> process_frame st1 = process_frame st)"

lemma bags_typed_heap_frame: "heap_frame bb1 = heap_frame bb \<Longrightarrow> bags_typed c (threadBag bb1) = bags_typed c (threadBag bb)"
  using bags_typed_frame [of c "threadBag bb1"] bags_typed_frame [of c "threadBag bb"] by (simp add: heap_frame_def)

lemma keeps_shape_same: "process_frame st1 = process_frame st \<Longrightarrow> heapInitStatus st1 = heapInitStatus st \<Longrightarrow> keeps_shape c st st1"
  using bags_typed_heap_frame [of "fg_bibop st1" "fg_bibop st" c] table_typed_frame [of "xmap (fg_big st1)" "xmap (fg_big st)"]
    threads_typed_frame [of "fg_threads st1" "fg_threads st"]
  by (simp add: keeps_shape_def process_typed_def process_frame_def)

lemma keeps_shape_refl [simp]: "keeps_shape c st st"
  by (simp add: keeps_shape_same)

lemma keeps_shape_trans: "keeps_shape c st st1 \<Longrightarrow> keeps_shape c st1 st2 \<Longrightarrow> keeps_shape c st st2"
  by (simp add: keeps_shape_def)

lemma keeps_shape_set_bytes [simp]: "keeps_shape c st (set_bytes f st)"
  by (rule keeps_shape_same) (simp_all add: process_frame_def set_bytes_def)

named_theorems shapes \<open>calls of the process keep its shape\<close>

lemma ensure_init_shape [shapes]: "ensure_init pf c st = Inr st1 \<Longrightarrow> keeps_shape c st st1"
proof -
  assume r: "ensure_init pf c st = Inr st1"
  show ?thesis
  proof (cases "heapInitStatus st = E_HEAP_INIT_DONE")
    case True
    then show ?thesis using r by (simp add: ensure_init_def)
  next
    case False
    then have "process_typed c st1" using r
      by (auto simp: ensure_init_def heapinitialize_def Let_def split_beta bindE_Inr_iff process_typed_def
          split: eHeapInitStatus.splits dest!: initialize_typed xthread_initialize_typed initBigHeap_typed)
    then show ?thesis using False by (simp add: keeps_shape_def)
  qed
qed

lemma allocate_small_shape [shapes]: "allocate_small pf c who sz st = Inr (p, st1) \<Longrightarrow> keeps_shape c st st1"
  by (rule keeps_shape_same)
    (auto simp: allocate_small_def bindE_Inr_iff process_frame_def split: if_splits dest!: frames)

lemma xxmalloc_shape [shapes]: "xxmalloc pf c who sz st = Inr (p, st1) \<Longrightarrow> keeps_shape c st st1"
proof -
  assume r: "xxmalloc pf c who sz st = Inr (p, st1)"
  then obtain st0 where i: "ensure_init pf c st = Inr st0" by (auto simp: xxmalloc_def bindE_Inr_iff)
  have "keeps_shape c st0 st1"
  proof (cases "IF_CANARY_CONDITION c sz")
    case True
    then show ?thesis using r i
      by (intro keeps_shape_same) (auto simp: xxmalloc_def bindE_Inr_iff process_frame_def dest!: frames)
  next
    case False
    then have "allocate_small pf c who sz st0 = Inr (p, st1)" using r i by (simp add: xxmalloc_def)
    then show ?thesis by (rule shapes)
  qed
  then show ?thesis using ensure_init_shape [OF i] keeps_shape_trans by blast
qed

lemma xxfree_shape [shapes]: "xxfree pf c who p st = Inr st1 \<Longrightarrow> keeps_shape c st st1"
  by (rule keeps_shape_same)
    (auto simp: xxfree_def free_small_def bindE_Inr_iff process_frame_def split: if_splits dest!: frames)

lemma memset0_shape [shapes]: "memset0 pf p n st = Inr st1 \<Longrightarrow> keeps_shape c st st1"
  by (induction n arbitrary: p st)
    (auto simp: bindE_Inr_iff mem_store_def split: if_splits intro: keeps_shape_trans [OF keeps_shape_set_bytes])

lemma memcpy_shape [shapes]: "memcpy pf d s n st = Inr st1 \<Longrightarrow> keeps_shape c st st1"
  by (induction n arbitrary: d s st)
    (auto simp: bindE_Inr_iff mem_load_def mem_store_def split: if_splits intro: keeps_shape_trans [OF keeps_shape_set_bytes])

lemma xxcalloc_shape [shapes]: "xxcalloc pf c who n m st = Inr (p, st1) \<Longrightarrow> keeps_shape c st st1"
  by (auto simp: xxcalloc_def bindE_Inr_iff split: if_splits intro: shapes keeps_shape_trans)

lemma xxrealloc_shape [shapes]: "xxrealloc pf c who q sz st = Inr (p, st1) \<Longrightarrow> keeps_shape c st st1"
  by (auto simp: xxrealloc_def bindE_Inr_iff split: if_splits intro: shapes; blast intro: shapes keeps_shape_trans)

lemma xxmemalign_shape [shapes]: "xxmemalign pf c who al sz st = Inr (p, st1) \<Longrightarrow> keeps_shape c st st1"
  by (auto simp: xxmemalign_def bindE_Inr_iff split: if_splits intro: shapes)

lemma xxposix_memalign_shape [shapes]: "xxposix_memalign pf c who al sz st = Inr (r, st1) \<Longrightarrow> keeps_shape c st st1"
  by (auto simp: xxposix_memalign_def bindE_Inr_iff intro: shapes)

lemma fg_pthread_create_shape [shapes]: "fg_pthread_create pf c fn arg st = Inr (r, st1) \<Longrightarrow> keeps_shape c st st1"
proof -
  assume "fg_pthread_create pf c fn arg st = Inr (r, st1)"
  then obtain st0 xt where i: "ensure_init pf c st = Inr st0" "st1 = st0\<lparr> fg_threads := xt \<rparr>"
    "thread_frame xt = thread_frame (fg_threads st0)"
    by (auto simp: fg_pthread_create_def bindE_Inr_iff dest!: frames)
  have "keeps_shape c st0 st1" by (rule keeps_shape_same) (simp_all add: i(2,3) process_frame_def)
  then show ?thesis using ensure_init_shape [OF i(1)] keeps_shape_trans by blast
qed

lemma fg_pthread_join_shape [shapes]: "fg_pthread_join pf c tid st = Inr (r, st1) \<Longrightarrow> keeps_shape c st st1"
  by (rule keeps_shape_same) (auto simp: fg_pthread_join_def bindE_Inr_iff process_frame_def dest!: frames)

section \<open>Sequences of calls\<close>

datatype fg_call =
    Call_malloc caller size_t
  | Call_free caller addr
  | Call_calloc caller size_t size_t
  | Call_realloc caller addr size_t
  | Call_memalign caller size_t size_t
  | Call_posix_memalign caller size_t size_t
  | Call_pthread_create addr addr
  | Call_pthread_join addr
  | Program_write addr byte   \<comment> \<open>the program stores a byte\<close>

fun perform :: "'r platform \<Rightarrow> build \<Rightarrow> fg_call \<Rightarrow> 'r process \<Rightarrow> fg_error + 'r process" where
  "perform pf c (Call_malloc who sz) st = bindE (xxmalloc pf c who sz st) (\<lambda>(p, st1). Inr st1)"
| "perform pf c (Call_free who p) st = xxfree pf c who p st"
| "perform pf c (Call_calloc who n m) st = bindE (xxcalloc pf c who n m st) (\<lambda>(p, st1). Inr st1)"
| "perform pf c (Call_realloc who q sz) st = bindE (xxrealloc pf c who q sz st) (\<lambda>(p, st1). Inr st1)"
| "perform pf c (Call_memalign who al sz) st = bindE (xxmemalign pf c who al sz st) (\<lambda>(p, st1). Inr st1)"
| "perform pf c (Call_posix_memalign who al sz) st = bindE (xxposix_memalign pf c who al sz st) (\<lambda>(r, st1). Inr st1)"
| "perform pf c (Call_pthread_create fn arg) st = bindE (fg_pthread_create pf c fn arg st) (\<lambda>(r, st1). Inr st1)"
| "perform pf c (Call_pthread_join tid) st = bindE (fg_pthread_join pf c tid st) (\<lambda>(r, st1). Inr st1)"
| "perform pf c (Program_write x v) st = mem_store pf x v st"

fun performs :: "'r platform \<Rightarrow> build \<Rightarrow> fg_call list \<Rightarrow> 'r process \<Rightarrow> fg_error + 'r process" where
  "performs pf c [] st = Inr st"
| "performs pf c (call # rest) st = bindE (perform pf c call st) (performs pf c rest)"

lemma perform_shape: "perform pf c call st = Inr st1 \<Longrightarrow> keeps_shape c st st1"
  by (cases call) (auto simp: bindE_Inr_iff mem_store_def split: if_splits intro: shapes)

lemma performs_shape: "performs pf c run st = Inr st1 \<Longrightarrow> keeps_shape c st st1"
  by (induction run arbitrary: st) (auto simp: bindE_Inr_iff intro: keeps_shape_trans [OF perform_shape])


lemma example_bags_typed: "bags_typed default_build (threadBag example_live)"
proof -
  have "bags_typed default_build (threadBag (static_object default_build ex_base (0 :: u32)))"
    by (simp add: bags_typed_def bag_typed_def static_object_def zero_bag_def)
  then have "bags_typed default_build (threadBag example_heap)"
    unfolding example_heap_def by (auto dest: initialize_typed split: sum.split)
  then show ?thesis unfolding example_live_def
    by (auto dest!: allocateSmallObject_frame dest: bags_typed_heap_frame [of _ _ default_build] split: sum.split)
qed

lemma example_big_typed: "table_typed (xmap example_big)"
proof -
  have "initBigHeap table_env blank_big = Inr example_big"
    using example_big(3) by (auto simp: example_big_def blank_big_def split: sum.splits)
  then show ?thesis by (rule initBigHeap_typed)
qed

lemma example_process_typed: "process_typed default_build example_process"
  using example_bags_typed example_big_typed xthread_initialize_typed [OF example_threads(1)]
  by (simp add: process_typed_def example_process_def)


end
