(* ===== verification/Symbols.thy ===== *)
theory Symbols
  imports ThreadProps ThreadRace
begin

text \<open>
  \<open>real.cpp\<close> and \<open>real.hh\<close>: the table of the functions that the library takes from the C library, and what
  \<open>pthread_create\<close> does when the table leads back to it.

  The dynamic linker is a parameter: what \<open>dlopen\<close> and \<open>dlsym\<close> return.  The macros \<open>DEFINE_WRAPPER\<close> and
  \<open>INIT_WRAPPER\<close> are a field of \<open>real_table\<close> and its look-up.
\<close>

section \<open>The table\<close>

record linker =
  dlopen :: "string \<Rightarrow> u32 \<Rightarrow> addr"
  dlsym :: "addr \<Rightarrow> string \<Rightarrow> addr"

definition RTLD_DEFAULT :: addr where "RTLD_DEFAULT = 0"
definition RTLD_NEXT :: addr where "RTLD_NEXT = - 1"
definition RTLD_NOW :: u32 where "RTLD_NOW = 2"
definition RTLD_NOLOAD :: u32 where "RTLD_NOLOAD = 4"
definition RTLD_GLOBAL :: u32 where "RTLD_GLOBAL = 0x100"

record real_table =
  real_free :: addr
  real_malloc :: addr
  real_pthread_create :: addr
  real_pthread_join :: addr
  real_pthread_kill :: addr

definition Real_initializer :: "linker \<Rightarrow> real_table" where
  "Real_initializer ld =
    (let pthread_handle = dlopen ld ''libpthread.so.0'' (RTLD_NOW OR RTLD_GLOBAL OR RTLD_NOLOAD)
     in \<lparr> real_free = dlsym ld RTLD_NEXT ''free'', real_malloc = dlsym ld RTLD_NEXT ''malloc'',
          real_pthread_create = dlsym ld pthread_handle ''pthread_create'',
          real_pthread_join = dlsym ld pthread_handle ''pthread_join'',
          real_pthread_kill = dlsym ld pthread_handle ''pthread_kill'' \<rparr>)"

section \<open>Creating a thread through the table\<close>

text \<open>The address of the library's own \<open>pthread_create\<close>, of \<open>startThread\<close> and of the entries of \<open>_threads\<close>.\<close>

record image =
  own_pthread_create :: addr
  own_startThread :: addr
  thread_address :: "int \<Rightarrow> addr"

text \<open>\<open>thread_create\<close> where the call of \<open>Real::pthread_create\<close> goes to the address in the table; \<open>None\<close> when the
  calls nest deeper than \<open>n\<close>.\<close>

fun create_via ::
  "real_table \<Rightarrow> image \<Rightarrow> env \<Rightarrow> build \<Rightarrow> addr \<Rightarrow> nat \<Rightarrow> addr \<Rightarrow> addr \<Rightarrow> xthread \<Rightarrow> (fg_error + (u32 \<times> addr) \<times> xthread) option"
where
  "create_via T im env c stackArea 0 fn arg xt = None"
| "create_via T im env c stackArea (Suc n) fn arg xt =
    (case allocThreadIndex xt of
       Inl e \<Rightarrow> Some (Inl e)
     | Inr (tindex, xt1) \<Rightarrow>
         (if real_pthread_create T = own_pthread_create im then
            case getThread tindex xt1 of
              Inl e \<Rightarrow> Some (Inl e)
            | Inr children \<Rightarrow>
                (case create_via T im env c stackArea n (own_startThread im) (thread_address im tindex)
                   (setThread tindex (children\<lparr> startArg := arg, startRoutine := fn, t_index := tindex \<rparr>) xt1) of
                   None \<Rightarrow> None
                 | Some r \<Rightarrow> Some (bindE r (\<lambda>((result, tid), xt2).
                     if result \<noteq> 0 then Inl Thread_create_failed
                     else bindE (create_register env c tindex tid xt2) (\<lambda>xt3. Inr ((result, tid), xt3)))))
          else Some (bindE (create_spawn env c stackArea fn arg tindex xt1) (\<lambda>((result, tid), xt2).
                 bindE (create_register env c tindex tid xt2) (\<lambda>xt3. Inr ((result, tid), xt3))))))"

text \<open>With the C library's function in the table this is \<open>thread_create\<close>.\<close>

lemma create_via_real:
  "real_pthread_create T \<noteq> own_pthread_create im \<Longrightarrow>
    create_via T im env c stackArea (Suc n) fn arg xt = Some (thread_create env c stackArea fn arg xt)"
  by (cases "allocThreadIndex xt") (simp_all add: thread_create_steps split_beta)

text \<open>With the library's own function in it, the calls take all indices and then write behind the array.\<close>

lemma create_via_own:
  assumes own: "real_pthread_create T = own_pthread_create im"
  shows "slots_ok xt \<Longrightarrow> MAX_ALIVE_THREADS - card (busy xt) < n \<Longrightarrow>
    create_via T im env c stackArea n fn arg xt = Some (Inl (Fault 0))"
proof (induction n arbitrary: fn arg xt)
  case (Suc n)
  show ?case
  proof (cases "card (busy xt) < MAX_ALIVE_THREADS")
    case True
    obtain xt1 where a: "allocThreadIndex xt = Inr (int (next_index xt), xt1)" "slots_ok xt1"
      "busy xt1 = insert (next_index xt) (busy xt)" "next_index xt \<notin> busy xt"
      using allocThreadIndex_ok [OF Suc.prems(1) True] by blast
    have i: "next_index xt \<in> busy xt1" using a(3) by simp
    note g = getThread_busy [OF a(2) i]
    let ?t = "(x_threads xt1 ! next_index xt)\<lparr> startArg := arg, startRoutine := fn, t_index := int (next_index xt) \<rparr>"
    let ?xt2 = "setThread (int (next_index xt)) ?t xt1"
    have s: "slots_ok ?xt2" "busy ?xt2 = busy xt1" using slots_ok_update [OF a(2) i, of ?t] g(2) by simp_all
    have "card (busy ?xt2) = Suc (card (busy xt))" unfolding s(2) a(3) using a(4) by simp
    then have "MAX_ALIVE_THREADS - card (busy ?xt2) < n" using Suc.prems(2) True by simp
    from Suc.IH [OF s(1) this] show ?thesis using own a(1) g(1) by simp
  next
    case False
    then have "card (busy xt) = MAX_ALIVE_THREADS" using busy_card_le [of xt] by simp
    from allocThreadIndex_full [OF Suc.prems(1) this] show ?thesis by simp
  qed
qed simp

section \<open>Properties\<close>

text \<open>C21: \<open>Real::initializer\<close> opens \<open>libpthread.so.0\<close> with \<open>RTLD_NOLOAD\<close> and does not test the handle.  In a
  process that has not loaded that file the handle is null, which \<open>dlsym\<close> takes for the default search; this
  finds the preloaded library's own \<open>pthread_create\<close> first.  Then every \<open>pthread_create\<close> calls itself until all
  indices are taken and writes behind the array of the threads.\<close>
theorem null_handle_recursion:
  assumes "dlopen ld ''libpthread.so.0'' (RTLD_NOW OR RTLD_GLOBAL OR RTLD_NOLOAD) = 0"
    and "dlsym ld RTLD_DEFAULT ''pthread_create'' = own_pthread_create im"
    and "slots_ok xt" and "MAX_ALIVE_THREADS - card (busy xt) < n"
  shows "create_via (Real_initializer ld) im env c stackArea n fn arg xt = Some (Inl (Fault 0))"
proof -
  have "real_pthread_create (Real_initializer ld) = own_pthread_create im"
    using assms(1,2) by (simp add: Real_initializer_def Let_def RTLD_DEFAULT_def)
  then show ?thesis using assms(3,4) by (rule create_via_own)
qed

text \<open>A linker that finds the library at \<open>0x1000\<close> and the C library at \<open>0x2000\<close>; without and with a handle.\<close>

definition example_linker :: "addr \<Rightarrow> linker" where
  "example_linker h = \<lparr> dlopen = \<lambda>_ _. h, dlsym = \<lambda>g _. if g = RTLD_DEFAULT then 0x1000 else 0x2000 \<rparr>"

definition example_image :: image where
  "example_image = \<lparr> own_pthread_create = 0x1000, own_startThread = 0x1100, thread_address = of_int \<rparr>"

theorem null_handle_recursion_witness:
  "create_via (Real_initializer (example_linker 0)) example_image thread_env default_build 0 200 7 8 example_threads = Some (Inl (Fault 0)) \<and>
    create_via (Real_initializer (example_linker 0x3000)) example_image thread_env default_build 0 (Suc 0) 7 8 example_threads =
      Some (thread_create thread_env default_build 0 7 8 example_threads)"
proof
  have S: "slots_ok example_threads" using example_threads(2) by (simp add: xt_inv_def)
  show "create_via (Real_initializer (example_linker 0)) example_image thread_env default_build 0 200 7 8 example_threads = Some (Inl (Fault 0))"
    by (rule null_handle_recursion [OF _ _ S]) (simp_all add: example_linker_def example_image_def MAX_ALIVE_THREADS_def)
  show "create_via (Real_initializer (example_linker 0x3000)) example_image thread_env default_build 0 (Suc 0) 7 8 example_threads =
      Some (thread_create thread_env default_build 0 7 8 example_threads)"
    by (rule create_via_real) (simp add: Real_initializer_def example_linker_def example_image_def RTLD_DEFAULT_def)
qed

end
