(* ===== verification/Log.thy ===== *)
theory Log
  imports XThreadInv "HOL-Library.Char_ord"
begin

text \<open>
  \<open>log.hh\<close> and \<open>errmsg.hh\<close>: messages and the call stack that is printed with an error.

  The text of a message, with its arguments put in, is a string; the prefix that the macros add is modelled.  A message
  is formatted in the buffer of the calling thread (\<open>getThreadBuffer\<close>), cut off at \<open>LOG_SIZE\<close>, and written with one
  call of \<open>write\<close>.  What \<open>backtrace\<close> and \<open>readlink\<close> return are parameters, and so are the bytes that the
  uninitialised array \<open>main_exe\<close> has before.
\<close>

section \<open>Numbers as text\<close>

definition digit :: "nat \<Rightarrow> char" where
  "digit d = char_of (if d < 10 then 48 + d else 87 + d)"

fun digits :: "nat \<Rightarrow> nat \<Rightarrow> string" where
  "digits base n = (if base < 2 \<or> n < base then [digit n] else digits base (n div base) @ [digit (n mod base)])"

declare digits.simps [simp del]

definition fmt_d :: "int \<Rightarrow> string" where
  "fmt_d i = (if i < 0 then ''-'' @ digits 10 (nat (- i)) else digits 10 (nat i))"

definition fmt_lx :: "64 word \<Rightarrow> string" where "fmt_lx w = digits 16 (unat w)"

definition fmt_p :: "addr \<Rightarrow> string" where
  "fmt_p a = (if a = 0 then ''(nil)'' else ''0x'' @ fmt_lx a)"

definition pad_left :: "nat \<Rightarrow> string \<Rightarrow> string" where "pad_left n s = replicate (n - length s) CHR '' '' @ s"
definition pad_right :: "nat \<Rightarrow> string \<Rightarrow> string" where "pad_right n s = s @ replicate (n - length s) CHR '' ''"

section \<open>Messages\<close>

definition LOG_SIZE :: nat where "LOG_SIZE = 4096"

definition escape :: "string \<Rightarrow> string" where "escape s = CHR 0x1B # CHR ''['' # s @ ''m''"

definition NORMAL_CYAN :: string where "NORMAL_CYAN = escape ''36''"
definition NORMAL_GREEN :: string where "NORMAL_GREEN = escape ''32''"
definition BRIGHT_MAGENTA :: string where "BRIGHT_MAGENTA = escape ''1'' @ escape ''35''"
definition BRIGHT_YELLOW :: string where "BRIGHT_YELLOW = escape ''1'' @ escape ''33''"
definition BRIGHT_RED :: string where "BRIGHT_RED = escape ''1'' @ escape ''31''"
definition ESC_END :: string where "ESC_END = escape ''0''"

datatype log_macro = PRINF | PRDBG | PRWRN | PRERR | PRINT | FATAL

text \<open>Where a macro is used: \<open>__FILE__\<close>, \<open>__LINE__\<close> and \<open>pthread_self()\<close>.\<close>

record log_site =
  site_file :: string
  site_line :: int
  site_self :: "64 word"

definition log_prefix :: "string \<Rightarrow> log_site \<Rightarrow> string" where
  "log_prefix label w = fmt_lx (site_self w) @ '' ['' @ label @ '']: '' @ pad_left 20 (site_file w) @ '':'' @
     pad_right 4 (fmt_d (site_line w)) @ '': ''"

fun log_line :: "log_macro \<Rightarrow> log_site \<Rightarrow> string \<Rightarrow> string" where
  "log_line PRINF w msg = NORMAL_CYAN @ log_prefix ''INFO'' w @ msg @ ESC_END @ [CHR 0x0A]"
| "log_line PRDBG w msg = NORMAL_GREEN @ log_prefix ''DBG'' w @ msg @ ESC_END @ [CHR 0x0A]"
| "log_line PRWRN w msg = BRIGHT_YELLOW @ log_prefix ''WRN'' w @ msg @ ESC_END @ [CHR 0x0A]"
| "log_line PRERR w msg = BRIGHT_RED @ log_prefix ''ERR'' w @ msg @ ESC_END @ [CHR 0x0A]"
| "log_line PRINT w msg = BRIGHT_MAGENTA @ msg @ ESC_END @ [CHR 0x0A]"
| "log_line FATAL w msg = BRIGHT_RED @ log_prefix ''FATALERROR'' w @ msg @ ESC_END @ [CHR 0x0A]"

text \<open>What the preprocessor and the test of \<open>DEBUG_LEVEL\<close> leave.\<close>

fun log_enabled :: "build \<Rightarrow> nat \<Rightarrow> log_macro \<Rightarrow> bool" where
  "log_enabled c debug_level PRINF \<longleftrightarrow> \<not> NDEBUG c \<and> debug_level < 1"
| "log_enabled c debug_level PRDBG \<longleftrightarrow> \<not> NDEBUG c \<and> debug_level < 2"
| "log_enabled c debug_level PRWRN \<longleftrightarrow> \<not> NDEBUG c \<and> debug_level < 3"
| "log_enabled c debug_level PRERR \<longleftrightarrow> debug_level < 4"
| "log_enabled c debug_level PRINT \<longleftrightarrow> True"
| "log_enabled c debug_level FATAL \<longleftrightarrow> True"

text \<open>The buffers of the threads, the bytes of every \<open>write\<close> and the commands of every \<open>system\<close>, in order.\<close>

record logger =
  log_buffer :: "int \<Rightarrow> string"
  log_writes :: "string list"
  log_commands :: "string list"

text \<open>\<open>snprintf\<close> and the \<open>strlen\<close> of its result.\<close>

definition c_text :: "string \<Rightarrow> string" where "c_text s = takeWhile (\<lambda>ch. ch \<noteq> CHR 0x00) s"

definition log_emit :: "int \<Rightarrow> string \<Rightarrow> logger \<Rightarrow> logger" where
  "log_emit i s lg =
    (let b = c_text (take (LOG_SIZE - 1) (c_text s))
     in lg\<lparr> log_buffer := (log_buffer lg)(i := b), log_writes := log_writes lg @ [b] \<rparr>)"

text \<open>The process ends with a status, or its behaviour is undefined (an access outside an array).\<close>

datatype log_end = Exited int | Undefined

record log_caller =
  lc_build :: build
  lc_level :: nat
  lc_stackArea :: addr
  lc_stackVar :: addr
  lc_threads :: xthread

definition log_message :: "log_caller \<Rightarrow> log_macro \<Rightarrow> log_site \<Rightarrow> string \<Rightarrow> logger \<Rightarrow> log_end \<times> logger + logger" where
  "log_message k lm w msg lg =
    (if log_enabled (lc_build k) (lc_level k) lm then
       case getThreadBuffer (lc_build k) (lc_stackArea k) (lc_stackVar k) (lc_threads k) of
         Inl e \<Rightarrow> Inl (Undefined, lg)
       | Inr i \<Rightarrow>
           let lg1 = log_emit i (log_line lm w msg) lg
           in if lm = FATAL then Inl (Exited (- 1), lg1) else Inr lg1
     else Inr lg)"

definition log_require :: "log_caller \<Rightarrow> bool \<Rightarrow> log_site \<Rightarrow> string \<Rightarrow> logger \<Rightarrow> log_end \<times> logger + logger" where
  "log_require k cond w msg lg = (if \<not> cond then log_message k FATAL w msg lg else Inr lg)"

section \<open>The call stack\<close>

definition FILENAMELENGTH :: nat where "FILENAMELENGTH = 256"
definition PREV_INSTRUCTION_OFFSET :: addr where "PREV_INSTRUCTION_OFFSET = 1"
definition COMMAND_SIZE :: nat where "COMMAND_SIZE = 256"

text \<open>\<open>readlink\<close> does not terminate what it stores, and stores nothing when it fails.\<close>

definition readlink_into :: "string option \<Rightarrow> string \<Rightarrow> string" where
  "readlink_into target old = (case target of
     None \<Rightarrow> old
   | Some p \<Rightarrow> take FILENAMELENGTH p @ drop (min FILENAMELENGTH (length p)) old)"

definition frame_message :: "int \<Rightarrow> nat \<Rightarrow> addr \<Rightarrow> string" where
  "frame_message threadIndex i a = [CHR 0x09] @ ''Thread '' @ fmt_d threadIndex @ '': callstack frame '' @ fmt_d (int i) @ '': '' @ fmt_p a @ [CHR 0x09]"

definition addr2line_command :: "string \<Rightarrow> addr \<Rightarrow> string" where
  "addr2line_command exe a = ''addr2line -a -i -e '' @ exe @ '' '' @ fmt_p a"

fun call_stack_loop :: "log_caller \<Rightarrow> log_site \<Rightarrow> int \<Rightarrow> string \<Rightarrow> nat \<Rightarrow> addr list \<Rightarrow> logger \<Rightarrow> log_end \<times> logger + logger" where
  "call_stack_loop k w threadIndex main_exe i [] lg = Inr lg"
| "call_stack_loop k w threadIndex main_exe i (frame # frames) lg =
    (let a = frame - PREV_INSTRUCTION_OFFSET
     in bindE (log_message k PRINT w (frame_message threadIndex i a) lg) (\<lambda>lg1.
          if CHR 0x00 \<notin> set main_exe then Inl (Undefined, lg1)
          else let buf = addr2line_command (c_text main_exe) a
               in if length buf < COMMAND_SIZE
                  then call_stack_loop k w threadIndex main_exe (Suc i) frames (lg1\<lparr> log_commands := log_commands lg1 @ [buf] \<rparr>)
                  else Inl (Undefined, lg1)))"

definition printCallStack ::
  "log_caller \<Rightarrow> log_site \<Rightarrow> addr list \<Rightarrow> string option \<Rightarrow> string \<Rightarrow> logger \<Rightarrow> log_end \<times> logger + logger"
where
  "printCallStack k w frames exe old lg =
    (case getThreadIndex (lc_build k) (lc_stackArea k) (lc_stackVar k) of
       Inl e \<Rightarrow> Inl (Undefined, lg)
     | Inr threadIndex \<Rightarrow> call_stack_loop k w threadIndex (readlink_into exe old) 0 (take 256 frames) lg)"

text \<open>The report of a double free in \<open>freeSmallObject\<close> and of an invalid free in \<open>deallocateToBigHeap\<close>: both end
  the process.\<close>

definition report_double_free ::
  "log_caller \<Rightarrow> log_site \<Rightarrow> addr list \<Rightarrow> string option \<Rightarrow> string \<Rightarrow> addr \<Rightarrow> addr \<Rightarrow> logger \<Rightarrow> log_end \<times> logger"
where
  "report_double_free k w frames exe old a shadowinfo lg =
    (case bindE (log_message k PRERR w (''Double free or invalid free problem found on object '' @ fmt_p a @ '' (sm '' @ fmt_p shadowinfo @ '')'') lg)
       (printCallStack k w frames exe old) of
       Inl r \<Rightarrow> r
     | Inr lg1 \<Rightarrow> (Exited 1, lg1))"

definition report_invalid_free ::
  "log_caller \<Rightarrow> log_site \<Rightarrow> addr list \<Rightarrow> string option \<Rightarrow> string \<Rightarrow> addr \<Rightarrow> logger \<Rightarrow> log_end \<times> logger"
where
  "report_invalid_free k w frames exe old a lg =
    (case bindE (log_message k PRINT w (''invalid or double free on address '' @ fmt_p a) lg) (printCallStack k w frames exe old) of
       Inl r \<Rightarrow> r
     | Inr lg1 \<Rightarrow> (Exited (- 1), lg1))"

end
