(* ===== verification/LogProps.thy ===== *)
theory LogProps
  imports Log ThreadProps
begin

text \<open>
  The properties of the messages: what is written, and how long the path of the program may be before the report of an
  error overruns its buffers.
\<close>

section \<open>Lengths\<close>

lemma digits_length: "0 < length (digits base n)"
  by (subst digits.simps) simp

lemma digits_bound: "2 \<le> base \<Longrightarrow> n < base ^ Suc k \<Longrightarrow> length (digits base n) \<le> Suc k"
proof (induction k arbitrary: n)
  case (Suc k)
  then have "n div base < base ^ Suc k" by (simp add: div_less_iff_less_mult mult.commute)
  with Suc show ?case by (subst digits.simps) simp
qed (simp add: digits.simps)

lemma fmt_p_length: "3 \<le> length (fmt_p a)" "length (fmt_p a) \<le> 18"
proof -
  have "unat a < 16 ^ Suc 15" using unat_lt64 [of a] by simp
  then have "length (fmt_lx a) \<le> 16" unfolding fmt_lx_def using digits_bound [of 16 "unat a" 15] by simp
  then show "length (fmt_p a) \<le> 18" by (simp add: fmt_p_def)
  show "3 \<le> length (fmt_p a)" using digits_length [of 16 "unat a"] by (simp add: fmt_p_def fmt_lx_def Suc_le_eq)
qed

lemma addr2line_length: "length (addr2line_command exe a) = 20 + length exe + length (fmt_p a)"
  by (simp add: addr2line_command_def)

lemma c_text_id: "CHR 0x00 \<notin> set s \<Longrightarrow> c_text s = s"
  unfolding c_text_def by (rule takeWhile_eq_all_conv [THEN iffD2]) auto

lemma c_text_no_nul: "CHR 0x00 \<notin> set (c_text s)"
  unfolding c_text_def by (auto dest: set_takeWhileD)

lemma emitted: "c_text (take n (c_text s)) = take n (c_text s)"
  using c_text_no_nul [of s] by (intro c_text_id) (auto dest: in_set_takeD)

section \<open>Messages\<close>

definition caller_ok :: "log_caller \<Rightarrow> bool" where
  "caller_ok k \<longleftrightarrow> \<not> CUSTOMIZED_MAIN_STACK (lc_build k) \<and> length (x_threads (lc_threads k)) = MAX_ALIVE_THREADS"

lemma caller_buffer:
  assumes "caller_ok k"
  shows "\<exists>i < MAX_ALIVE_THREADS. getThreadIndex (lc_build k) (lc_stackArea k) (lc_stackVar k) = Inr (int i) \<and>
    getThreadBuffer (lc_build k) (lc_stackArea k) (lc_stackVar k) (lc_threads k) = Inr (int i)"
proof -
  obtain i where i: "i < MAX_ALIVE_THREADS" "getThreadIndex (lc_build k) (lc_stackArea k) (lc_stackVar k) = Inr (int i)"
    using getThreadIndex_less assms unfolding caller_ok_def by blast
  then show ?thesis using assms by (intro exI [of _ i]) (simp add: getThreadBuffer_def getThread_def caller_ok_def)
qed

text \<open>A message that the build and the debug level leave in is written by one \<open>write\<close> of at most 4095 bytes, the
  start of the coloured line, from the buffer of the calling thread; no other thread's buffer is touched.  A fatal one ends
  the process after that, the others do not.  A message that is left out has no effect.\<close>
lemma message_written:
  assumes "caller_ok k"
  shows "\<exists>i lg'. i < int MAX_ALIVE_THREADS \<and> getThreadIndex (lc_build k) (lc_stackArea k) (lc_stackVar k) = Inr i \<and>
    log_message k lm w msg lg = (if \<not> log_enabled (lc_build k) (lc_level k) lm then Inr lg
      else if lm = FATAL then Inl (Exited (- 1), lg') else Inr lg') \<and>
    log_writes lg' = log_writes lg @ [take 4095 (c_text (log_line lm w msg))] \<and> log_commands lg' = log_commands lg \<and>
    (\<forall>j. j \<noteq> i \<longrightarrow> log_buffer lg' j = log_buffer lg j) \<and> length (log_buffer lg' i) < LOG_SIZE"
proof -
  obtain i where i: "i < MAX_ALIVE_THREADS" "getThreadIndex (lc_build k) (lc_stackArea k) (lc_stackVar k) = Inr (int i)"
    "getThreadBuffer (lc_build k) (lc_stackArea k) (lc_stackVar k) (lc_threads k) = Inr (int i)"
    using caller_buffer [OF assms] by blast
  let ?lg = "log_emit (int i) (log_line lm w msg) lg"
  have e: "log_writes ?lg = log_writes lg @ [take 4095 (c_text (log_line lm w msg))]" "log_commands ?lg = log_commands lg"
    "\<forall>j. j \<noteq> int i \<longrightarrow> log_buffer ?lg j = log_buffer lg j" "length (log_buffer ?lg (int i)) < LOG_SIZE"
    by (simp_all add: log_emit_def Let_def emitted LOG_SIZE_def)
  have "log_message k lm w msg lg = (if \<not> log_enabled (lc_build k) (lc_level k) lm then Inr lg
      else if lm = FATAL then Inl (Exited (- 1), ?lg) else Inr ?lg)"
    by (simp add: log_message_def i(3) Let_def)
  then show ?thesis using i(1,2) e by (intro exI [of _ "int i"] exI [of _ ?lg]) simp
qed

definition example_caller :: log_caller where
  "example_caller = \<lparr> lc_build = default_build, lc_level = 0, lc_stackArea = 0, lc_stackVar = 0x1000, lc_threads = example_threads \<rparr>"

definition example_site :: log_site where
  "example_site = \<lparr> site_file = ''bibopheap.hh'', site_line = 517, site_self = 0x7f00 \<rparr>"

definition example_logger :: logger where
  "example_logger = \<lparr> log_buffer = \<lambda>_. [], log_writes = [], log_commands = [] \<rparr>"

lemma example_caller: "caller_ok example_caller"
  using example_threads(2) by (simp add: caller_ok_def example_caller_def xt_inv_def slots_ok_def default_build_def)

section \<open>The call stack\<close>

lemma print_frame:
  assumes "caller_ok k"
  shows "\<exists>lg'. log_message k PRINT w msg lg = Inr lg' \<and> log_commands lg' = log_commands lg"
proof -
  obtain i where "getThreadBuffer (lc_build k) (lc_stackArea k) (lc_stackVar k) (lc_threads k) = Inr (int i)"
    using caller_buffer [OF assms] by blast
  then show ?thesis by (simp add: log_message_def Let_def log_emit_def)
qed

lemma call_stack_fits:
  assumes k: "caller_ok k" and z: "CHR 0x00 \<in> set main_exe" and short: "length (c_text main_exe) \<le> 217"
  shows "\<exists>lg'. call_stack_loop k w t main_exe i frames lg = Inr lg' \<and>
    log_commands lg' = log_commands lg @ map (\<lambda>f. addr2line_command (c_text main_exe) (f - 1)) frames"
proof (induction frames arbitrary: i lg)
  case (Cons f frames)
  obtain lg1 where m: "log_message k PRINT w (frame_message t i (f - 1)) lg = Inr lg1" "log_commands lg1 = log_commands lg"
    using print_frame [OF k] by blast
  have l: "length (addr2line_command (c_text main_exe) (f - 1)) < COMMAND_SIZE"
    using short fmt_p_length(2) [of "f - 1"] by (simp add: addr2line_length COMMAND_SIZE_def)
  from Cons.IH [of "Suc i" "lg1\<lparr> log_commands := log_commands lg1 @ [addr2line_command (c_text main_exe) (f - 1)] \<rparr>"] m l z
  show ?case by (auto simp: PREV_INSTRUCTION_OFFSET_def Let_def)
qed simp

lemma call_stack_overruns:
  assumes k: "caller_ok k" and long: "CHR 0x00 \<notin> set main_exe \<or> 233 \<le> length (c_text main_exe)" and "frames \<noteq> []"
  shows "\<exists>lg'. call_stack_loop k w t main_exe i frames lg = Inl (Undefined, lg')"
proof -
  obtain f fs where fs: "frames = f # fs" using assms(3) by (cases frames) auto
  obtain lg1 where m: "log_message k PRINT w (frame_message t i (f - 1)) lg = Inr lg1" using print_frame [OF k] by blast
  have "\<not> length (addr2line_command (c_text main_exe) (f - 1)) < COMMAND_SIZE" if "233 \<le> length (c_text main_exe)"
    using that fmt_p_length(1) [of "f - 1"] by (simp add: addr2line_length COMMAND_SIZE_def)
  then show ?thesis using m long by (auto simp: fs PREV_INSTRUCTION_OFFSET_def Let_def)
qed

text \<open>What \<open>main_exe\<close> holds when its bytes were zero before.\<close>

lemma main_exe_text:
  assumes "CHR 0x00 \<notin> set p"
  shows "length p < 256 \<Longrightarrow> CHR 0x00 \<in> set (readlink_into (Some p) (replicate 256 CHR 0x00)) \<and>
      c_text (readlink_into (Some p) (replicate 256 CHR 0x00)) = p"
    and "256 \<le> length p \<Longrightarrow> CHR 0x00 \<notin> set (readlink_into (Some p) (replicate 256 CHR 0x00))"
proof -
  assume l: "length p < 256"
  then obtain n where n: "256 - length p = Suc n" by (metis Suc_diff_Suc)
  have "readlink_into (Some p) (replicate 256 CHR 0x00) = p @ CHR 0x00 # replicate n CHR 0x00"
    using l n by (simp add: readlink_into_def FILENAMELENGTH_def)
  moreover have "c_text (p @ CHR 0x00 # replicate n CHR 0x00) = p"
    using assms unfolding c_text_def by (subst takeWhile_append2) auto
  ultimately show "CHR 0x00 \<in> set (readlink_into (Some p) (replicate 256 CHR 0x00)) \<and>
      c_text (readlink_into (Some p) (replicate 256 CHR 0x00)) = p" by simp
next
  assume "256 \<le> length p"
  then show "CHR 0x00 \<notin> set (readlink_into (Some p) (replicate 256 CHR 0x00))"
    using assms by (auto simp: readlink_into_def FILENAMELENGTH_def dest: in_set_takeD)
qed



end
